(* ===== verification/Prelude.thy ===== *)
theory Prelude
  imports Main "HOL-Library.Word"
begin

text \<open>
  Shared vocabulary of the development: the machine types of \<^verbatim>\<open>types.h\<close>, the result type of a
  kernel function, the search loop over a fixed table, and the byte level of memory.

  A kernel function is a HOL function from the state it touches to a \<open>kres\<close>: it returns a value
  (\<open>Ok\<close>), calls \<^verbatim>\<open>panic\<close> (\<open>Panic\<close>), gives up the CPU in \<^verbatim>\<open>sleep\<close> (\<open>Sleep\<close>, with the state at
  that moment), or spins on a taken spin lock (\<open>Spin\<close>).
\<close>

unbundle bit_operations_syntax

named_theorems kdefs \<open>definitions of the kernel's straight-line operations\<close>
named_theorems kframe \<open>what an operation leaves alone\<close>

type_synonym byte = "8 word"
type_synonym ushort = "16 word"
type_synonym uint = "32 word"

subsection \<open>Wait channels\<close>

text \<open>
  The C code sleeps on the address of an object. Each constructor is one kind of object whose
  address is used as a channel; distinct constructors are distinct addresses.
\<close>

datatype chan =
    ChProc nat        \<comment> \<open>\<^verbatim>\<open>&ptable.proc[i]\<close>, slept on by \<^verbatim>\<open>wait\<close>\<close>
  | ChRecv nat        \<comment> \<open>\<^verbatim>\<open>&ptable.proc[i].recv_queue\<close>\<close>
  | ChSignals nat     \<comment> \<open>\<^verbatim>\<open>&ptable.proc[i].pending_signals\<close>\<close>
  | ChPipeRead nat    \<comment> \<open>\<^verbatim>\<open>&p->nread\<close>\<close>
  | ChPipeWrite nat   \<comment> \<open>\<^verbatim>\<open>&p->nwrite\<close>\<close>
  | ChLog             \<comment> \<open>\<^verbatim>\<open>&log\<close>\<close>
  | ChBufLock nat     \<comment> \<open>\<^verbatim>\<open>&bcache.buf[i].lock\<close>\<close>
  | ChBuf nat         \<comment> \<open>the buffer \<^verbatim>\<open>iderw\<close> waits for\<close>
  | ChInodeLock nat   \<comment> \<open>\<^verbatim>\<open>&icache.inode[i].lock\<close>\<close>
  | ChTicks           \<comment> \<open>\<^verbatim>\<open>&ticks\<close>\<close>
  | ChInput           \<comment> \<open>\<^verbatim>\<open>&input.r\<close>\<close>
  | ChSched           \<comment> \<open>no channel: the thread left in \<^verbatim>\<open>yield\<close> or \<^verbatim>\<open>exit\<close>\<close>

subsection \<open>Results of kernel functions\<close>

datatype ('a, 's) kres = Ok 'a 's | Panic string | Sleep chan 's | Spin

primrec bindk :: "('a, 's) kres \<Rightarrow> ('a \<Rightarrow> 's \<Rightarrow> ('b, 's) kres) \<Rightarrow> ('b, 's) kres" where
  "bindk (Ok a s) f = f a s"
| "bindk (Panic m) f = Panic m"
| "bindk (Sleep c s) f = Sleep c s"
| "bindk Spin f = Spin"

text \<open>Run a computation on a part of a larger state.\<close>

primrec zoomk :: "('s \<Rightarrow> 't) \<Rightarrow> ('a, 's) kres \<Rightarrow> ('a, 't) kres" where
  "zoomk put (Ok a s) = Ok a (put s)"
| "zoomk put (Panic m) = Panic m"
| "zoomk put (Sleep c s) = Sleep c (put s)"
| "zoomk put Spin = Spin"

lemma bindk_eq_Ok:
  "bindk r f = Ok b t \<longleftrightarrow> (\<exists>a s. r = Ok a s \<and> f a s = Ok b t)"
  by (cases r) auto

lemma bindk_assoc: "bindk (bindk r f) g = bindk r (\<lambda>a s. bindk (f a s) g)"
  by (cases r) auto

lemma zoomk_eq_Ok: "zoomk put r = Ok a t \<longleftrightarrow> (\<exists>s. r = Ok a s \<and> t = put s)"
  by (cases r) auto

lemma bindk_cong [fundef_cong]:
  assumes "r = r'" and "\<And>a s. r' = Ok a s \<Longrightarrow> f a s = g a s"
  shows "bindk r f = bindk r' g"
  using assms by (cases r') auto

text \<open>Run an operation \<open>n\<close> times.\<close>

primrec timesk :: "nat \<Rightarrow> ('s \<Rightarrow> (unit, 's) kres) \<Rightarrow> 's \<Rightarrow> (unit, 's) kres" where
  "timesk 0 f s = Ok () s"
| "timesk (Suc n) f s = bindk (timesk n f s) (\<lambda>_. f)"

subsection \<open>The search loop over a table\<close>

text \<open>
  \<^verbatim>\<open>for(p = table; p < &table[N]; p++) if(P(p)) goto found;\<close>
\<close>

primrec find_idx :: "('a \<Rightarrow> bool) \<Rightarrow> 'a list \<Rightarrow> nat option" where
  "find_idx P [] = None"
| "find_idx P (x # xs) = (if P x then Some 0 else map_option Suc (find_idx P xs))"

lemma find_idx_None: "find_idx P xs = None \<longleftrightarrow> (\<forall>x\<in>set xs. \<not> P x)"
  by (induction xs) auto

lemma find_idx_Some:
  "find_idx P xs = Some i \<longleftrightarrow> i < length xs \<and> P (xs ! i) \<and> (\<forall>j<i. \<not> P (xs ! j))"
proof (induction xs arbitrary: i)
  case (Cons x xs)
  show ?case
  proof (cases i)
    case (Suc k)
    then show ?thesis
      using Cons.IH [of k] by (auto simp: nth_Cons' less_Suc_eq_0_disj)
  qed auto
qed simp

lemma find_idx_lt: "find_idx P xs = Some i \<Longrightarrow> i < length xs"
  by (simp add: find_idx_Some)

lemma find_idx_sat: "find_idx P xs = Some i \<Longrightarrow> P (xs ! i)"
  by (simp add: find_idx_Some)

lemma find_idx_upd:
  assumes "i < length xs" and "P v \<longleftrightarrow> P (xs ! i)"
  shows "find_idx P (xs[i := v]) = find_idx P xs"
  using assms
proof (induction xs arbitrary: i)
  case (Cons x xs)
  then show ?case by (cases i) auto
qed simp

subsection \<open>Postconditions\<close>

text \<open>
  \<open>kpost Q S r\<close>: if \<open>r\<close> returns, its value and state satisfy \<open>Q\<close>; if it goes to sleep, the state
  satisfies \<open>S\<close>. The rules below compute postconditions over \<open>bindk\<close>.
\<close>

definition kpost :: "('a \<Rightarrow> 's \<Rightarrow> bool) \<Rightarrow> ('s \<Rightarrow> bool) \<Rightarrow> ('a, 's) kres \<Rightarrow> bool" where
  "kpost Q S r = (case r of Ok a s \<Rightarrow> Q a s | Sleep c s \<Rightarrow> S s | _ \<Rightarrow> True)"

lemma kpost_simps [simp]:
  "kpost Q S (Ok a s) = Q a s" "kpost Q S (Sleep c s) = S s"
  "kpost Q S (Panic msg)" "kpost Q S Spin"
  by (simp_all add: kpost_def)

lemma kpost_bind:
  "kpost Q S r \<Longrightarrow> (\<And>a s. Q a s \<Longrightarrow> kpost R S (f a s)) \<Longrightarrow> kpost R S (bindk r f)"
  by (cases r) simp_all

lemma kpost_weaken:
  "kpost Q S r \<Longrightarrow> (\<And>a s. Q a s \<Longrightarrow> Q' a s) \<Longrightarrow> (\<And>s. S s \<Longrightarrow> S' s) \<Longrightarrow> kpost Q' S' r"
  by (cases r) simp_all

lemma kpost_zoom:
  "(\<And>a m. Q a (put m)) \<Longrightarrow> (\<And>m. S (put m)) \<Longrightarrow> kpost Q S (zoomk put r)"
  by (cases r) simp_all

subsection \<open>Byte memory\<close>

type_synonym mem = "uint \<Rightarrow> byte"

definition mem_read :: "mem \<Rightarrow> uint \<Rightarrow> nat \<Rightarrow> byte list" where
  "mem_read m a n = map (\<lambda>i. m (a + of_nat i)) [0..<n]"

definition mem_write :: "mem \<Rightarrow> uint \<Rightarrow> byte list \<Rightarrow> mem" where
  "mem_write m a bs = (\<lambda>x. if unat (x - a) < length bs then bs ! unat (x - a) else m x)"

lemma unat_uint_of_nat: "n < 2 ^ 32 \<Longrightarrow> unat (of_nat n :: uint) = n"
  by (simp add: unat_of_nat)

lemma unat_add_of_nat: "unat a + n < 2 ^ 32 \<Longrightarrow> unat (a + of_nat n :: uint) = unat a + n"
  by (simp add: unat_word_ariths unat_of_nat)

lemma length_mem_read [simp]: "length (mem_read m a n) = n"
  by (simp add: mem_read_def)

lemma nth_mem_read [simp]: "i < n \<Longrightarrow> mem_read m a n ! i = m (a + of_nat i)"
  by (simp add: mem_read_def)

lemma mem_write_Nil [simp]: "mem_write m a [] = m"
  by (simp add: mem_write_def)

lemma mem_read_write_same:
  assumes "length bs \<le> 2 ^ 32" and "n = length bs"
  shows "mem_read (mem_write m a bs) a n = bs"
proof (rule nth_equalityI)
  fix i assume "i < length (mem_read (mem_write m a bs) a n)"
  then have i: "i < length bs" using assms by simp
  then have "unat (of_nat i :: uint) = i"
    using assms(1) by (intro unat_uint_of_nat) simp
  then show "mem_read (mem_write m a bs) a n ! i = bs ! i"
    using i assms(2) by (simp add: mem_write_def)
qed (simp add: assms)

text \<open>Two byte ranges that do not meet, wrap-around included.\<close>

definition disjoint_ranges :: "uint \<Rightarrow> nat \<Rightarrow> uint \<Rightarrow> nat \<Rightarrow> bool" where
  "disjoint_ranges a n b k \<longleftrightarrow> (\<forall>i<n. k \<le> unat (a + of_nat i - b))"

lemma mem_read_write_other:
  "disjoint_ranges a n b (length bs) \<Longrightarrow> mem_read (mem_write m b bs) a n = mem_read m a n"
  by (rule nth_equalityI) (auto simp: mem_write_def disjoint_ranges_def leD)

lemma disjoint_ranges_offset:
  assumes "d + n \<le> 2 ^ 32" and "k \<le> d"
  shows "disjoint_ranges (b + of_nat d) n b k"
proof -
  have "k \<le> unat (b + of_nat d + of_nat i - b)" if "i < n" for i
  proof -
    have "b + of_nat d + of_nat i - b = (of_nat (d + i) :: uint)" by simp
    moreover have "unat (of_nat (d + i) :: uint) = d + i"
      using that assms(1) by (intro unat_uint_of_nat) simp
    ultimately show ?thesis using assms(2) by simp
  qed
  then show ?thesis by (simp add: disjoint_ranges_def)
qed

subsection \<open>Little-endian words\<close>

definition le_bytes :: "uint \<Rightarrow> byte list" where
  "le_bytes w = [ucast w, ucast (drop_bit 8 w), ucast (drop_bit 16 w), ucast (drop_bit 24 w)]"

definition of_le :: "byte list \<Rightarrow> uint" where
  "of_le bs = ucast (bs ! 0) OR push_bit 8 (ucast (bs ! 1))
     OR push_bit 16 (ucast (bs ! 2)) OR push_bit 24 (ucast (bs ! 3))"

lemma length_le_bytes [simp]: "length (le_bytes w) = 4"
  by (simp add: le_bytes_def)

lemma of_le_bytes [simp]: "of_le (le_bytes w) = w"
proof (rule bit_word_eqI)
  fix n assume "n < LENGTH(32)"
  then have n: "n < 32" by simp
  consider "n < 8" | "8 \<le> n \<and> n < 16" | "16 \<le> n \<and> n < 24" | "24 \<le> n" by linarith
  then show "bit (of_le (le_bytes w)) n \<longleftrightarrow> bit w n"
    by cases (use n in \<open>auto simp: of_le_def le_bytes_def bit_simps numeral_2_eq_2 numeral_3_eq_3\<close>)
qed

definition ld32 :: "mem \<Rightarrow> uint \<Rightarrow> uint" where
  "ld32 m a = of_le (mem_read m a 4)"

definition st32 :: "mem \<Rightarrow> uint \<Rightarrow> uint \<Rightarrow> mem" where
  "st32 m a v = mem_write m a (le_bytes v)"

lemma ld32_st32_same [simp]: "ld32 (st32 m a v) a = v"
  by (simp add: ld32_def st32_def mem_read_write_same)

lemma ld32_st32_other: "disjoint_ranges a 4 b 4 \<Longrightarrow> ld32 (st32 m b v) a = ld32 m a"
  by (simp add: ld32_def st32_def mem_read_write_other)

text \<open>A write below a range leaves it alone.\<close>

lemma mem_read_above:
  "a = b + of_nat d \<Longrightarrow> length bs \<le> d \<Longrightarrow> d + n \<le> 2 ^ 32 \<Longrightarrow>
   mem_read (mem_write m b bs) a n = mem_read m a n"
  using disjoint_ranges_offset mem_read_write_other by blast

lemma mem_read_above_st32:
  "a = b + of_nat d \<Longrightarrow> 4 \<le> d \<Longrightarrow> d + n \<le> 2 ^ 32 \<Longrightarrow>
   mem_read (st32 m b v) a n = mem_read m a n"
  by (simp add: st32_def mem_read_above)

definition le16_bytes :: "ushort \<Rightarrow> byte list" where
  "le16_bytes w = [ucast w, ucast (drop_bit 8 w)]"

definition of_le16 :: "byte list \<Rightarrow> ushort" where
  "of_le16 bs = ucast (bs ! 0) OR push_bit 8 (ucast (bs ! 1))"

lemma length_le16_bytes [simp]: "length (le16_bytes w) = 2"
  by (simp add: le16_bytes_def)

lemma of_le16_bytes [simp]: "of_le16 (le16_bytes w) = w"
proof (rule bit_word_eqI)
  fix n assume "n < LENGTH(16)"
  then have n: "n < 16" by simp
  then show "bit (of_le16 (le16_bytes w)) n \<longleftrightarrow> bit w n"
    by (cases "n < 8") (auto simp: of_le16_def le16_bytes_def bit_simps)
qed

end
