(* ===== verification/Ring.thy ===== *)
theory Ring
  imports Prelude
begin

text \<open>
  Ring buffers with a head and a tail index, as \<^verbatim>\<open>struct message_list\<close> and \<^verbatim>\<open>struct signals\<close> of
  \<^verbatim>\<open>proc.h\<close> have them: an array of \<open>N\<close> slots, \<open>head = tail\<close> when empty, both indices advanced
  modulo \<open>N\<close>. The locale \<open>bounded_fifo\<close> is the contract the message and signal code relies on,
  with its overflow case: the code never checks for a full ring, and the write that fills the
  last slot makes the ring look empty.
\<close>

definition ring_len :: "nat \<Rightarrow> nat \<Rightarrow> nat \<Rightarrow> nat" where
  "ring_len N h t = (t + N - h) mod N"

definition ring_list :: "nat \<Rightarrow> 'a list \<Rightarrow> nat \<Rightarrow> nat \<Rightarrow> 'a list" where
  "ring_list N arr h t = map (\<lambda>i. arr ! ((h + i) mod N)) [0..<ring_len N h t]"

lemma mod_below_twice: "(x::nat) < 2 * N \<Longrightarrow> x mod N = (if x < N then x else x - N)"
  by (cases "x < N") (simp_all add: le_mod_geq)

lemma length_ring_list [simp]: "length (ring_list N arr h t) = ring_len N h t"
  by (simp add: ring_list_def)

lemma ring_len_lt: "0 < N \<Longrightarrow> ring_len N h t < N"
  by (simp add: ring_len_def)

lemma ring_len_cases:
  "h < N \<Longrightarrow> t < N \<Longrightarrow> ring_len N h t = (if h \<le> t then t - h else t + N - h)"
  by (auto simp: ring_len_def mod_below_twice)

lemma ring_len_0: "h < N \<Longrightarrow> t < N \<Longrightarrow> ring_len N h t = 0 \<longleftrightarrow> h = t"
  by (auto simp: ring_len_cases)

lemma ring_len_Suc_tail:
  "h < N \<Longrightarrow> t < N \<Longrightarrow>
   ring_len N h (Suc t mod N) = (if Suc (ring_len N h t) = N then 0 else Suc (ring_len N h t))"
  by (cases "Suc t = N") (auto simp: ring_len_cases)

lemma ring_len_Suc_head:
  "h < N \<Longrightarrow> t < N \<Longrightarrow>
   ring_len N (Suc h mod N) t = (if h = t then N - 1 else ring_len N h t - 1)"
  by (cases "Suc h = N") (auto simp: ring_len_cases)

lemma ring_tail_slot:
  "h < N \<Longrightarrow> t < N \<Longrightarrow> (h + ring_len N h t) mod N = t"
  by (auto simp: ring_len_cases mod_below_twice)

lemma ring_slots_below:
  assumes "h < N" "t < N" "i < ring_len N h t"
  shows "(h + i) mod N \<noteq> t"
  using assms by (auto simp: ring_len_cases mod_below_twice split: if_splits)

lemma ring_list_put:
  assumes "h < N" "t < N" "length arr = N" "Suc (ring_len N h t) < N"
  shows "ring_list N (arr[t := x]) h (Suc t mod N) = ring_list N arr h t @ [x]"
proof -
  have len: "ring_len N h (Suc t mod N) = Suc (ring_len N h t)"
    using assms by (simp add: ring_len_Suc_tail)
  have "arr[t := x] ! ((h + i) mod N) = arr ! ((h + i) mod N)" if "i < ring_len N h t" for i
    using ring_slots_below [OF assms(1,2) that] by simp
  then show ?thesis
    using assms ring_tail_slot [OF assms(1,2)] unfolding ring_list_def len by simp
qed

lemma ring_list_put_full:
  assumes "h < N" "t < N" "Suc (ring_len N h t) = N"
  shows "ring_list N arr h (Suc t mod N) = []"
  using assms by (simp add: ring_list_def ring_len_Suc_tail)

lemma ring_list_tl:
  assumes "h < N" "t < N" "h \<noteq> t"
  shows "ring_list N arr (Suc h mod N) t = tl (ring_list N arr h t)"
proof (rule nth_equalityI)
  show "length (ring_list N arr (Suc h mod N) t) = length (tl (ring_list N arr h t))"
    using assms by (simp add: ring_len_Suc_head)
next
  fix i assume "i < length (ring_list N arr (Suc h mod N) t)"
  then have "i < ring_len N h t - Suc 0" "Suc i < ring_len N h t"
    using assms by (simp_all add: ring_len_Suc_head)
  then show "ring_list N arr (Suc h mod N) t ! i = tl (ring_list N arr h t) ! i"
    using assms by (simp add: ring_list_def nth_tl ring_len_Suc_head mod_simps)
qed

lemma ring_list_hd:
  assumes "h < N" "t < N" "h \<noteq> t"
  shows "hd (ring_list N arr h t) = arr ! h"
proof -
  have "ring_len N h t \<noteq> 0" using assms by (simp add: ring_len_0)
  then show ?thesis using assms by (simp add: ring_list_def upt_conv_Cons)
qed

subsection \<open>The queue contract\<close>

fun drain :: "('q \<Rightarrow> 'a) \<Rightarrow> ('q \<Rightarrow> 'q) \<Rightarrow> nat \<Rightarrow> 'q \<Rightarrow> 'a list" where
  "drain peek advance 0 q = []"
| "drain peek advance (Suc n) q = peek q # drain peek advance n (advance q)"

locale bounded_fifo =
  fixes cap :: nat
    and ok :: "'q \<Rightarrow> bool"
    and items :: "'q \<Rightarrow> 'a list"
    and put :: "'a \<Rightarrow> 'q \<Rightarrow> 'q"
    and advance :: "'q \<Rightarrow> 'q"
    and peek :: "'q \<Rightarrow> 'a"
    and is_empty :: "'q \<Rightarrow> bool"
  assumes ok_put: "ok q \<Longrightarrow> ok (put x q)"
    and ok_advance: "ok q \<Longrightarrow> ok (advance q)"
    and items_lt: "ok q \<Longrightarrow> length (items q) < cap"
    and items_put: "ok q \<Longrightarrow> Suc (length (items q)) < cap \<Longrightarrow> items (put x q) = items q @ [x]"
    and items_put_full: "ok q \<Longrightarrow> Suc (length (items q)) = cap \<Longrightarrow> items (put x q) = []"
    and is_empty_iff: "ok q \<Longrightarrow> is_empty q \<longleftrightarrow> items q = []"
    and items_advance: "ok q \<Longrightarrow> items q \<noteq> [] \<Longrightarrow> items (advance q) = tl (items q)"
    and items_advance_empty:
      "ok q \<Longrightarrow> items q = [] \<Longrightarrow> length (items (advance q)) = cap - 1"
    and peek_hd: "ok q \<Longrightarrow> items q \<noteq> [] \<Longrightarrow> peek q = hd (items q)"
begin

lemma ok_fold_put: "ok q \<Longrightarrow> ok (fold put xs q)"
  by (induction xs arbitrary: q) (auto intro: ok_put)

lemma items_fold_put:
  "ok q \<Longrightarrow> length (items q) + length xs < cap \<Longrightarrow> items (fold put xs q) = items q @ xs"
proof (induction xs arbitrary: q)
  case (Cons x xs)
  then have "items (put x q) = items q @ [x]" by (simp add: items_put)
  with Cons show ?case by (simp add: ok_put)
qed simp

lemma items_fold_put_full:
  assumes "ok q" "length (items q) + length xs = cap"
  shows "items (fold put xs q) = []"
proof -
  from assms items_lt [of q] have "xs \<noteq> []" by auto
  then obtain ys y where xs: "xs = ys @ [y]" by (metis append_butlast_last_id)
  with assms have "items (fold put ys q) = items q @ ys"
    by (intro items_fold_put) simp_all
  with assms xs show ?thesis
    by (simp add: items_put_full ok_fold_put)
qed

lemma drain_items:
  "ok q \<Longrightarrow> n \<le> length (items q) \<Longrightarrow> drain peek advance n q = take n (items q)"
proof (induction n arbitrary: q)
  case (Suc n)
  then have ne: "items q \<noteq> []" by auto
  with Suc have "drain peek advance n (advance q) = take n (tl (items q))"
    by (simp add: ok_advance items_advance)
  with ne Suc show ?case by (cases "items q") (simp_all add: peek_hd)
qed simp

lemma fifo_order:
  assumes "ok q" "items q = []" "length xs < cap"
  shows "drain peek advance (length xs) (fold put xs q) = xs"
  using assms by (simp add: drain_items ok_fold_put items_fold_put)

end

end
