(* ===== verification/Spinlock.thy ===== *)
theory Spinlock
  imports Prelude
begin

text \<open>
  Spin locks and interrupt nesting: \<^verbatim>\<open>spinlock.c\<close> and the CPU identity functions of \<^verbatim>\<open>proc.c\<close>
  (\<^verbatim>\<open>mycpu\<close>, \<^verbatim>\<open>cpuid\<close>, \<^verbatim>\<open>myproc\<close>).

  The state is the table of CPUs, the local APIC id of the CPU that executes and its interrupt
  flag. The debugging fields \<^verbatim>\<open>lk->pcs\<close> are left out. The lemmas show that \<^verbatim>\<open>pushcli\<close> and
  \<^verbatim>\<open>popcli\<close> nest and restore the interrupt flag, that a critical section opened by \<^verbatim>\<open>acquire\<close>
  and closed by \<^verbatim>\<open>release\<close> leaves the lock free and the nesting depth as it was, and that under
  any interleaving of CPUs at most one holds the lock.
\<close>

subsection \<open>CPUs\<close>

record cpu =
  apicid :: nat
  ncli :: int
  intena :: bool
  cproc :: "nat option"

record mach =
  cpus :: "cpu list"
  lapicid :: nat
  fl_if :: bool

definition cli :: "mach \<Rightarrow> mach" where
  "cli m = m\<lparr>fl_if := False\<rparr>"

definition sti :: "mach \<Rightarrow> mach" where
  "sti m = m\<lparr>fl_if := True\<rparr>"

definition mycpu :: "mach \<Rightarrow> (nat, mach) kres" where
  "mycpu m =
     (if fl_if m then Panic ''mycpu called with interrupts enabled''
      else case find_idx (\<lambda>c. apicid c = lapicid m) (cpus m) of
        Some i \<Rightarrow> Ok i m
      | None \<Rightarrow> Panic ''unknown apicid'')"

definition cpuid :: "mach \<Rightarrow> (nat, mach) kres" where
  "cpuid m = mycpu m"

definition upd_cpu :: "nat \<Rightarrow> (cpu \<Rightarrow> cpu) \<Rightarrow> mach \<Rightarrow> mach" where
  "upd_cpu i f m = m\<lparr>cpus := (cpus m)[i := f (cpus m ! i)]\<rparr>"

subsection \<open>Interrupt nesting\<close>

definition pushcli :: "mach \<Rightarrow> (unit, mach) kres" where
  "pushcli m =
     (let eflags = fl_if m; m1 = cli m in
      bindk (mycpu m1) (\<lambda>i m2.
        let m3 = (if ncli (cpus m2 ! i) = 0
                  then upd_cpu i (\<lambda>c. c\<lparr>intena := eflags\<rparr>) m2 else m2)
        in Ok () (upd_cpu i (\<lambda>c. c\<lparr>ncli := ncli c + 1\<rparr>) m3)))"

definition popcli :: "mach \<Rightarrow> (unit, mach) kres" where
  "popcli m =
     (if fl_if m then Panic ''popcli - interruptible''
      else bindk (mycpu m) (\<lambda>i m1.
        let m2 = upd_cpu i (\<lambda>c. c\<lparr>ncli := ncli c - 1\<rparr>) m1 in
        if ncli (cpus m2 ! i) < 0 then Panic ''popcli''
        else if ncli (cpus m2 ! i) = 0 \<and> intena (cpus m2 ! i) then Ok () (sti m2)
        else Ok () m2))"

definition myproc :: "mach \<Rightarrow> (nat option, mach) kres" where
  "myproc m =
     bindk (pushcli m) (\<lambda>_ m.
     bindk (mycpu m) (\<lambda>i m.
       let p = cproc (cpus m ! i) in
     bindk (popcli m) (\<lambda>_ m. Ok p m)))"

subsection \<open>Locks\<close>

record spinlock =
  locked :: bool
  lk_name :: string
  lk_cpu :: "nat option"

definition initlock :: "string \<Rightarrow> spinlock" where
  "initlock nm = \<lparr>locked = False, lk_name = nm, lk_cpu = None\<rparr>"

definition holding :: "spinlock \<Rightarrow> mach \<Rightarrow> (bool, mach) kres" where
  "holding lk m =
     bindk (pushcli m) (\<lambda>_ m.
     bindk (mycpu m) (\<lambda>i m.
       let r = (locked lk \<and> lk_cpu lk = Some i) in
     bindk (popcli m) (\<lambda>_ m. Ok r m)))"

text \<open>
  \<^verbatim>\<open>acquire\<close>: the spin on \<^verbatim>\<open>xchg\<close> ends as soon as the word was 0; while it is 1 the CPU makes no
  progress (\<open>Spin\<close>) until another CPU's step releases it.
\<close>

definition acquire :: "spinlock \<Rightarrow> mach \<Rightarrow> (spinlock, mach) kres" where
  "acquire lk m =
     bindk (pushcli m) (\<lambda>_ m.
     bindk (holding lk m) (\<lambda>h m.
       if h then Panic ''acquire''
       else if locked lk then Spin
       else bindk (mycpu m) (\<lambda>i m. Ok (lk\<lparr>locked := True, lk_cpu := Some i\<rparr>) m)))"

definition release :: "spinlock \<Rightarrow> mach \<Rightarrow> (spinlock, mach) kres" where
  "release lk m =
     bindk (holding lk m) (\<lambda>h m.
       if \<not> h then Panic ''release''
       else bindk (popcli m) (\<lambda>_ m. Ok (lk\<lparr>locked := False, lk_cpu := None\<rparr>) m))"

subsection \<open>Well-formed machines\<close>

text \<open>
  \<open>on_cpu i m\<close>: the executing CPU is entry \<open>i\<close> of \<^verbatim>\<open>cpus\<close>, its nesting depth is not negative,
  and interrupts are off while the depth is positive.
\<close>

definition on_cpu :: "nat \<Rightarrow> mach \<Rightarrow> bool" where
  "on_cpu i m \<longleftrightarrow> find_idx (\<lambda>c. apicid c = lapicid m) (cpus m) = Some i
     \<and> 0 \<le> ncli (cpus m ! i) \<and> (0 < ncli (cpus m ! i) \<longrightarrow> \<not> fl_if m)"

text \<open>The state after \<^verbatim>\<open>pushcli\<close> on CPU \<open>i\<close>.\<close>

definition pushed :: "nat \<Rightarrow> mach \<Rightarrow> mach" where
  "pushed i m = m\<lparr>fl_if := False, cpus := (cpus m)[i := (cpus m ! i)
      \<lparr>intena := (if ncli (cpus m ! i) = 0 then fl_if m else intena (cpus m ! i)),
       ncli := ncli (cpus m ! i) + 1\<rparr>]\<rparr>"

text \<open>The state after a balanced \<^verbatim>\<open>pushcli\<close> and \<^verbatim>\<open>popcli\<close>: only \<^verbatim>\<open>intena\<close> may have been noted.\<close>

definition settled :: "nat \<Rightarrow> mach \<Rightarrow> mach" where
  "settled i m = (if ncli (cpus m ! i) = 0
     then upd_cpu i (\<lambda>c. c\<lparr>intena := fl_if m\<rparr>) m else m)"

lemma on_cpu_lt: "on_cpu i m \<Longrightarrow> i < length (cpus m)"
  by (auto simp: on_cpu_def dest: find_idx_lt)

lemma find_cpu_upd:
  "on_cpu i m \<Longrightarrow> apicid c = apicid (cpus m ! i) \<Longrightarrow>
   find_idx (\<lambda>c. apicid c = lapicid m) ((cpus m)[i := c]) = Some i"
  using find_idx_upd [of i "cpus m" "\<lambda>c. apicid c = lapicid m" c] on_cpu_lt [of i m]
  by (simp add: on_cpu_def)

lemma mycpu_on_cpu: "on_cpu i m \<Longrightarrow> \<not> fl_if m \<Longrightarrow> mycpu m = Ok i m"
  by (simp add: mycpu_def on_cpu_def)

lemma pushcli_on_cpu:
  assumes "on_cpu i m"
  shows "pushcli m = Ok () (pushed i m)"
proof -
  have "mycpu (cli m) = Ok i (cli m)"
    using assms by (simp add: mycpu_def cli_def on_cpu_def)
  with on_cpu_lt [OF assms] show ?thesis
    by (simp add: pushcli_def Let_def upd_cpu_def cli_def pushed_def)
qed

lemma on_cpu_pushed: "on_cpu i m \<Longrightarrow> on_cpu i (pushed i m)"
  using on_cpu_lt [of i m]
  by (simp add: pushed_def on_cpu_def [of i "m\<lparr>fl_if := b, cpus := cs\<rparr>" for b cs] find_cpu_upd)
     (simp add: on_cpu_def)

lemma fl_if_pushed [simp]: "fl_if (pushed i m) = False"
  by (simp add: pushed_def)

lemma mycpu_pushed: "on_cpu i m \<Longrightarrow> mycpu (pushed i m) = Ok i (pushed i m)"
  by (rule mycpu_on_cpu [OF on_cpu_pushed]) simp_all

lemma cproc_pushed:
  "on_cpu i m \<Longrightarrow> cproc (cpus (pushed i m) ! i) = cproc (cpus m ! i)"
  by (simp add: pushed_def on_cpu_lt)

lemma ncli_pushed:
  "on_cpu i m \<Longrightarrow> ncli (cpus (pushed i m) ! i) = ncli (cpus m ! i) + 1"
  by (simp add: pushed_def on_cpu_lt)

lemma popcli_pushed:
  assumes "on_cpu i m"
  shows "popcli (pushed i m) = Ok () (settled i m)"
proof -
  note lt = on_cpu_lt [OF assms]
  note my = mycpu_pushed [OF assms]
  have nn: "0 \<le> ncli (cpus m ! i)" and pos: "0 < ncli (cpus m ! i) \<Longrightarrow> \<not> fl_if m"
    using assms by (simp_all add: on_cpu_def)
  let ?m2 = "upd_cpu i (\<lambda>c. c\<lparr>ncli := ncli c - 1\<rparr>) (pushed i m)"
  have m2: "?m2 = (settled i m)\<lparr>fl_if := False\<rparr>"
    using lt by (auto simp: upd_cpu_def pushed_def settled_def list_update_same_conv
        intro!: mach.equality)
  have n2: "ncli (cpus ?m2 ! i) = ncli (cpus m ! i)"
    using lt by (simp add: upd_cpu_def pushed_def)
  have i2: "ncli (cpus m ! i) = 0 \<Longrightarrow> intena (cpus ?m2 ! i) = fl_if m"
    using lt by (simp add: upd_cpu_def pushed_def)
  show ?thesis
  proof (cases "ncli (cpus m ! i) = 0")
    case True
    with n2 i2 have "popcli (pushed i m) = Ok () (if fl_if m then sti ?m2 else ?m2)"
      by (simp add: popcli_def Let_def my)
    then show ?thesis unfolding m2 sti_def
      by (cases "fl_if m") (auto simp: settled_def upd_cpu_def intro!: mach.equality)
  next
    case False
    then have "\<not> fl_if m" using nn pos by simp
    moreover from False n2 nn have "popcli (pushed i m) = Ok () ?m2"
      by (simp add: popcli_def Let_def my)
    ultimately show ?thesis unfolding m2
      using False by (auto simp: settled_def intro!: mach.equality)
  qed
qed

lemma on_cpu_settled: "on_cpu i m \<Longrightarrow> on_cpu i (settled i m)"
  using on_cpu_lt [of i m]
  by (auto simp: settled_def upd_cpu_def on_cpu_def [of i "m\<lparr>cpus := cs\<rparr>" for cs] find_cpu_upd)

lemma fl_if_settled [simp]: "fl_if (settled i m) = fl_if m"
  by (simp add: settled_def upd_cpu_def)

lemma ncli_settled: "on_cpu i m \<Longrightarrow> ncli (cpus (settled i m) ! i) = ncli (cpus m ! i)"
  by (simp add: settled_def upd_cpu_def on_cpu_lt)

lemma cproc_settled: "on_cpu i m \<Longrightarrow> cproc (cpus (settled i m) ! i) = cproc (cpus m ! i)"
  by (simp add: settled_def upd_cpu_def on_cpu_lt)

lemma settled_pushed [simp]: "on_cpu i m \<Longrightarrow> settled i (pushed i m) = pushed i m"
  by (simp add: settled_def ncli_pushed on_cpu_def)

lemma pushed_settled: "on_cpu i m \<Longrightarrow> pushed i (settled i m) = pushed i m"
  using on_cpu_lt [of i m] by (auto simp: settled_def pushed_def upd_cpu_def intro!: mach.equality)

lemma settled_settled [simp]: "on_cpu i m \<Longrightarrow> settled i (settled i m) = settled i m"
  using on_cpu_lt [of i m] by (auto simp: settled_def upd_cpu_def intro!: mach.equality)

lemma myproc_on_cpu:
  "on_cpu i m \<Longrightarrow> myproc m = Ok (cproc (cpus m ! i)) (settled i m)"
  by (simp add: myproc_def pushcli_on_cpu mycpu_pushed Let_def popcli_pushed cproc_pushed)

lemma holding_on_cpu:
  "on_cpu i m \<Longrightarrow> holding lk m = Ok (locked lk \<and> lk_cpu lk = Some i) (settled i m)"
  by (simp add: holding_def pushcli_on_cpu mycpu_pushed Let_def popcli_pushed)

lemma holding_pushed:
  "on_cpu i m \<Longrightarrow> holding lk (pushed i m) = Ok (locked lk \<and> lk_cpu lk = Some i) (pushed i m)"
  using holding_on_cpu [OF on_cpu_pushed, of i m lk] by simp

lemma acquire_on_cpu:
  "on_cpu i m \<Longrightarrow> acquire lk m =
     (if locked lk \<and> lk_cpu lk = Some i then Panic ''acquire''
      else if locked lk then Spin
      else Ok (lk\<lparr>locked := True, lk_cpu := Some i\<rparr>) (pushed i m))"
  by (simp add: acquire_def pushcli_on_cpu holding_pushed mycpu_pushed)

lemma release_held:
  assumes "on_cpu i m" "locked lk" "lk_cpu lk = Some i"
  shows "release lk (pushed i m) = Ok (lk\<lparr>locked := False, lk_cpu := None\<rparr>) (settled i m)"
  using assms by (simp add: release_def holding_pushed popcli_pushed)

lemma release_not_held:
  "on_cpu i m \<Longrightarrow> \<not> (locked lk \<and> lk_cpu lk = Some i) \<Longrightarrow> release lk m = Panic ''release''"
  by (auto simp: release_def holding_on_cpu)

subsection \<open>Nesting\<close>

fun pushed_n :: "nat \<Rightarrow> nat \<Rightarrow> mach \<Rightarrow> mach" where
  "pushed_n i 0 m = m"
| "pushed_n i (Suc n) m = pushed i (pushed_n i n m)"

lemma on_cpu_pushed_n: "on_cpu i m \<Longrightarrow> on_cpu i (pushed_n i n m)"
  by (induction n) (auto intro: on_cpu_pushed)

lemma ncli_pushed_n:
  "on_cpu i m \<Longrightarrow> ncli (cpus (pushed_n i n m) ! i) = ncli (cpus m ! i) + int n"
  by (induction n) (auto simp: ncli_pushed on_cpu_pushed_n)

lemma timesk_pushcli: "on_cpu i m \<Longrightarrow> timesk n pushcli m = Ok () (pushed_n i n m)"
  by (induction n) (auto simp: pushcli_on_cpu on_cpu_pushed_n)

lemma settled_pushed_n:
  "on_cpu i m \<Longrightarrow> settled i (pushed_n i n m) = (if n = 0 then settled i m else pushed_n i n m)"
  by (cases n) (auto simp: on_cpu_pushed_n)

lemma timesk_popcli:
  "on_cpu i m \<Longrightarrow> k \<le> n \<Longrightarrow> timesk k popcli (pushed_n i n m) =
     Ok () (if k = 0 then pushed_n i n m else settled i (pushed_n i (n - k) m))"
proof (induction k)
  case (Suc k)
  then obtain j where j: "n - k = Suc j" "n - Suc k = j" by (cases "n - k") auto
  have "popcli (pushed_n i (Suc j) m) = Ok () (settled i (pushed_n i j m))"
    using Suc.prems by (simp add: popcli_pushed on_cpu_pushed_n)
  moreover have "timesk k popcli (pushed_n i n m) = Ok () (pushed_n i (Suc j) m)"
    using Suc j by (cases "k = 0") (auto simp: settled_pushed_n [where n = "Suc j", simplified])
  ultimately show ?case using j by simp
qed simp

text \<open>
  Interrupt nesting. After \<open>n\<close> calls of \<^verbatim>\<open>pushcli\<close> interrupts stay off until the
  \<open>n\<close>-th matching \<^verbatim>\<open>popcli\<close>, which brings back the interrupt flag and the nesting depth that held
  before the first \<^verbatim>\<open>pushcli\<close>.
\<close>

theorem cli_nesting:
  assumes "on_cpu i m" and "k \<le> n" and "0 < k"
  shows "\<exists>m'. bindk (timesk n pushcli m) (\<lambda>_. timesk k popcli) = Ok () m'
    \<and> ncli (cpus m' ! i) = ncli (cpus m ! i) + int (n - k)
    \<and> fl_if m' = (k = n \<and> fl_if m)"
proof -
  let ?m = "settled i (pushed_n i (n - k) m)"
  have "fl_if (pushed_n i (n - k) m) = (k = n \<and> fl_if m)"
    using assms by (cases "n - k") auto
  moreover have "ncli (cpus ?m ! i) = ncli (cpus m ! i) + int (n - k)"
    using assms(1) by (simp add: ncli_settled on_cpu_pushed_n ncli_pushed_n)
  ultimately show ?thesis
    using assms by (simp add: timesk_pushcli timesk_popcli)
qed

definition demo_mach :: mach where
  "demo_mach = \<lparr>cpus = [\<lparr>apicid = 0, ncli = 0, intena = False, cproc = Some 0\<rparr>,
     \<lparr>apicid = 1, ncli = 0, intena = False, cproc = None\<rparr>], lapicid = 0, fl_if = True\<rparr>"

lemma demo_mach_simps [simp]:
  "on_cpu 0 demo_mach" "ncli (cpus demo_mach ! 0) = 0" "fl_if demo_mach"
  "cproc (cpus demo_mach ! 0) = Some 0" "lapicid demo_mach = 0" "length (cpus demo_mach) = 2"
  by (simp_all add: on_cpu_def demo_mach_def)

theorem cli_nesting_witness:
  "on_cpu 0 demo_mach \<and> (\<exists>m'. bindk (timesk 3 pushcli demo_mach) (\<lambda>_. timesk 3 popcli) = Ok () m'
    \<and> ncli (cpus m' ! 0) = 0 \<and> fl_if m')"
  using cli_nesting [of 0 demo_mach 3 3] by simp

subsection \<open>Mutual exclusion\<close>

text \<open>
  All CPUs share one lock. A step is one CPU finishing \<^verbatim>\<open>acquire\<close> or \<^verbatim>\<open>release\<close>; \<open>g_in\<close> records
  which CPUs are between the two calls.
\<close>

record smp =
  g_cpus :: "cpu list"
  g_if :: "nat \<Rightarrow> bool"
  g_lock :: spinlock
  g_in :: "nat set"

definition view :: "nat \<Rightarrow> smp \<Rightarrow> mach" where
  "view i g = \<lparr>cpus = g_cpus g, lapicid = apicid (g_cpus g ! i), fl_if = g_if g i\<rparr>"

definition commit_smp :: "nat \<Rightarrow> spinlock \<Rightarrow> mach \<Rightarrow> nat set \<Rightarrow> smp \<Rightarrow> smp" where
  "commit_smp i lk m ins g =
     \<lparr>g_cpus = cpus m, g_if = (g_if g)(i := fl_if m), g_lock = lk, g_in = ins\<rparr>"

inductive smp_step :: "smp \<Rightarrow> smp \<Rightarrow> bool" where
  smp_acquire: "i < length (g_cpus g) \<Longrightarrow> i \<notin> g_in g \<Longrightarrow> acquire (g_lock g) (view i g) = Ok lk m \<Longrightarrow>
     smp_step g (commit_smp i lk m (insert i (g_in g)) g)"
| smp_release: "i < length (g_cpus g) \<Longrightarrow> i \<in> g_in g \<Longrightarrow> release (g_lock g) (view i g) = Ok lk m \<Longrightarrow>
     smp_step g (commit_smp i lk m (g_in g - {i}) g)"

inductive smp_reach :: "smp \<Rightarrow> smp \<Rightarrow> bool" for g0 where
  smp_refl: "smp_reach g0 g0"
| smp_trans: "smp_reach g0 g \<Longrightarrow> smp_step g g' \<Longrightarrow> smp_reach g0 g'"

text \<open>Start state: distinct APIC ids, no CPU in a critical section, the lock free.\<close>

definition smp_init :: "smp \<Rightarrow> bool" where
  "smp_init g \<longleftrightarrow> distinct (map apicid (g_cpus g)) \<and> g_in g = {} \<and> \<not> locked (g_lock g)
     \<and> (\<forall>c\<in>set (g_cpus g). ncli c = 0)"

definition smp_inv :: "smp \<Rightarrow> bool" where
  "smp_inv g \<longleftrightarrow> distinct (map apicid (g_cpus g))
     \<and> (if locked (g_lock g)
        then \<exists>i. i < length (g_cpus g) \<and> lk_cpu (g_lock g) = Some i \<and> g_in g = {i}
        else g_in g = {})
     \<and> (\<forall>i < length (g_cpus g). ncli (g_cpus g ! i) = (if i \<in> g_in g then 1 else 0)
          \<and> (i \<in> g_in g \<longrightarrow> \<not> g_if g i))"

lemma find_distinct_apicid:
  "distinct (map apicid cs) \<Longrightarrow> i < length cs \<Longrightarrow>
   find_idx (\<lambda>c. apicid c = apicid (cs ! i)) cs = Some i"
  unfolding find_idx_Some by (auto simp: nth_eq_iff_index_eq distinct_map inj_on_def distinct_conv_nth)

lemma on_cpu_view:
  "smp_inv g \<Longrightarrow> i < length (g_cpus g) \<Longrightarrow> on_cpu i (view i g)"
  by (auto simp: on_cpu_def view_def smp_inv_def find_distinct_apicid)

definition popped :: "nat \<Rightarrow> mach \<Rightarrow> mach" where
  "popped i m = (let m1 = upd_cpu i (\<lambda>c. c\<lparr>ncli := ncli c - 1\<rparr>) m in
     if ncli (cpus m ! i) = 1 \<and> intena (cpus m ! i) then sti m1 else m1)"

lemma release_on_cpu:
  assumes "on_cpu i m" "locked lk" "lk_cpu lk = Some i" "1 \<le> ncli (cpus m ! i)"
  shows "release lk m = Ok (lk\<lparr>locked := False, lk_cpu := None\<rparr>) (popped i m)"
proof -
  have "settled i m = m" "\<not> fl_if m"
    using assms by (simp_all add: settled_def on_cpu_def)
  moreover from this assms have "popcli m = Ok () (popped i m)"
    using on_cpu_lt [OF assms(1)] mycpu_on_cpu [OF assms(1)]
    by (auto simp: popcli_def popped_def Let_def upd_cpu_def)
  ultimately show ?thesis
    using assms by (simp add: release_def holding_on_cpu)
qed

lemma apicid_pushed: "i < length (cpus m) \<Longrightarrow> map apicid (cpus (pushed i m)) = map apicid (cpus m)"
  by (simp add: pushed_def map_update list_update_same_conv)

lemma apicid_popped: "i < length (cpus m) \<Longrightarrow> map apicid (cpus (popped i m)) = map apicid (cpus m)"
  by (simp add: popped_def Let_def upd_cpu_def sti_def map_update list_update_same_conv)

lemma smp_inv_init: "smp_init g \<Longrightarrow> smp_inv g"
  by (auto simp: smp_init_def smp_inv_def)

lemma smp_inv_step: "smp_step g g' \<Longrightarrow> smp_inv g \<Longrightarrow> smp_inv g'"
proof (induction rule: smp_step.induct)
  case (smp_acquire i g lk m)
  note on = on_cpu_view [OF smp_acquire.prems smp_acquire.hyps(1)]
  from smp_acquire.hyps(3) have free: "\<not> locked (g_lock g)"
    and lk: "lk = (g_lock g)\<lparr>locked := True, lk_cpu := Some i\<rparr>" and m: "m = pushed i (view i g)"
    unfolding acquire_on_cpu [OF on] by (auto split: if_splits)
  have cs: "cpus (view i g) = g_cpus g" by (simp add: view_def)
  show ?case
    using smp_acquire free apicid_pushed [of i "view i g"] unfolding smp_inv_def commit_smp_def lk m
    by (auto simp: cs pushed_def nth_list_update)
next
  case (smp_release i g lk m)
  note on = on_cpu_view [OF smp_release.prems smp_release.hyps(1)]
  have cs: "cpus (view i g) = g_cpus g" by (simp add: view_def)
  from smp_release.prems smp_release.hyps(1,2)
  have held: "locked (g_lock g)" "lk_cpu (g_lock g) = Some i" "g_in g = {i}"
    and one: "ncli (g_cpus g ! i) = 1"
    by (auto simp: smp_inv_def split: if_splits)
  from smp_release.hyps(3) have lk: "lk = (g_lock g)\<lparr>locked := False, lk_cpu := None\<rparr>"
    and m: "m = popped i (view i g)"
    using release_on_cpu [OF on held(1,2)] one cs by auto
  show ?case
    using smp_release held one apicid_popped [of i "view i g"]
    unfolding smp_inv_def commit_smp_def lk m
    by (auto simp: cs popped_def Let_def upd_cpu_def sti_def nth_list_update)
qed

lemma smp_reach_inv: "smp_reach g0 g \<Longrightarrow> smp_init g0 \<Longrightarrow> smp_inv g"
  by (induction rule: smp_reach.induct) (auto intro: smp_inv_init smp_inv_step)


definition demo_smp :: smp where
  "demo_smp = \<lparr>g_cpus = cpus demo_mach, g_if = (\<lambda>_. True), g_lock = initlock ''ptable'', g_in = {}\<rparr>"

lemma demo_smp_acquires:
  "smp_step demo_smp (commit_smp 0 ((initlock ''ptable'')\<lparr>locked := True, lk_cpu := Some 0\<rparr>)
     (pushed 0 demo_mach) {0} demo_smp)"
proof -
  have v: "view 0 demo_smp = demo_mach"
    by (simp add: view_def demo_smp_def demo_mach_def)
  have "acquire (g_lock demo_smp) (view 0 demo_smp)
      = Ok ((initlock ''ptable'')\<lparr>locked := True, lk_cpu := Some 0\<rparr>) (pushed 0 demo_mach)"
    unfolding v by (simp add: acquire_on_cpu [of 0] demo_smp_def initlock_def)
  then show ?thesis
    using smp_acquire [of 0 demo_smp] by (simp add: demo_smp_def)
qed


end
