(* ===== verification/Proc.thy ===== *)
theory Proc
  imports Ring Spinlock
begin

text \<open>
  The process table of \<^verbatim>\<open>proc.h\<close> and \<^verbatim>\<open>proc.c\<close>: the structures \<^verbatim>\<open>proc\<close>, \<^verbatim>\<open>message_list\<close>, \<^verbatim>\<open>signals\<close> and
  \<^verbatim>\<open>trapframe\<close>, and the scheduling operations \<^verbatim>\<open>sched\<close>, \<^verbatim>\<open>yield\<close>, \<^verbatim>\<open>scheduler\<close>, \<^verbatim>\<open>sleep\<close>, \<^verbatim>\<open>wakeup1\<close>,
  \<^verbatim>\<open>wakeup\<close> and \<^verbatim>\<open>kill\<close>.

  A thread leaves its CPU inside \<^verbatim>\<open>sched\<close>. Each operation that calls it is therefore cut at the
  \<^verbatim>\<open>swtch\<close>: \<open>sched_enter\<close> runs up to it, \<open>sched_return\<close> is what follows when the thread is
  resumed, and likewise for \<open>sleep_enter\<close>/\<open>sleep_return\<close>. Between the two halves other threads
  run. A pointer to a table entry is its index, \<open>None\<close> is the null pointer. Loops over the table
  run over the list that holds it; it has \<open>NPROC\<close> entries in every state built from \<open>pinit\<close>.
\<close>

subsection \<open>Constants of \<^verbatim>\<open>param.h\<close> and \<^verbatim>\<open>types.h\<close>\<close>

definition NPROC :: nat where "NPROC = 64"
definition NOFILE :: nat where "NOFILE = 70"
definition NUM_MSG :: nat where "NUM_MSG = 32"
definition MSGSIZE :: nat where "MSGSIZE = 8"
definition MAX_SIG :: nat where "MAX_SIG = 5"

subsection \<open>Structures\<close>

datatype procstate = UNUSED | EMBRYO | SLEEPING | RUNNABLE | RUNNING | ZOMBIE

record message_list =
  sender_id :: "int list"
  messages :: "byte list list"
  mq_head :: nat
  mq_tail :: nat

record signals =
  sig_num :: "int list"
  s_pid :: "int list"
  sg_head :: nat
  sg_tail :: nat

text \<open>
  \<^verbatim>\<open>struct trapframe\<close> of \<^verbatim>\<open>x86.h\<close>: 19 machine words. The six 16-bit selectors and their paddings
  share a word each.
\<close>

record trapframe =
  tf_edi :: uint
  tf_esi :: uint
  tf_ebp :: uint
  tf_oesp :: uint
  tf_ebx :: uint
  tf_edx :: uint
  tf_ecx :: uint
  tf_eax :: uint
  tf_gs :: ushort
  tf_padding1 :: ushort
  tf_fs :: ushort
  tf_padding2 :: ushort
  tf_es :: ushort
  tf_padding3 :: ushort
  tf_ds :: ushort
  tf_padding4 :: ushort
  tf_trapno :: uint
  tf_err :: uint
  tf_eip :: uint
  tf_cs :: ushort
  tf_padding5 :: ushort
  tf_eflags :: uint
  tf_esp :: uint
  tf_ss :: ushort
  tf_padding6 :: ushort

record proc =
  p_sz :: uint
  p_pgdir :: uint
  p_kstack :: uint
  p_state :: procstate
  p_pid :: int
  p_parent :: "nat option"
  p_tf :: trapframe
  p_chan :: "chan option"
  p_killed :: bool
  p_ofile :: "nat option list"
  p_cwd :: "nat option"
  p_name :: "byte list"
  p_recv_queue :: message_list
  p_recv_multi_queue :: message_list
  p_handler :: uint
  p_pending_signals :: signals
  p_handling :: bool

text \<open>
  The kernel state these operations share. \<open>k_umem i\<close> is the user memory of process \<open>i\<close> as its
  page table maps it. Later components extend the record.
\<close>

record kstate =
  k_mach :: mach
  k_ptlock :: spinlock
  k_procs :: "proc list"
  k_nextpid :: int
  k_initproc :: "nat option"
  k_umem :: "nat \<Rightarrow> mem"

abbreviation procs_upd :: "nat \<Rightarrow> (proc \<Rightarrow> proc) \<Rightarrow> 'z kstate_scheme \<Rightarrow> 'z kstate_scheme" where
  "procs_upd i f k \<equiv> k\<lparr>k_procs := (k_procs k)[i := f (k_procs k ! i)]\<rparr>"

subsection \<open>Locking the table\<close>

definition acquire_pt :: "'z kstate_scheme \<Rightarrow> (unit, 'z kstate_scheme) kres" where
  "acquire_pt k =
     (case acquire (k_ptlock k) (k_mach k) of
        Ok lk m \<Rightarrow> Ok () (k\<lparr>k_ptlock := lk, k_mach := m\<rparr>)
      | Panic s \<Rightarrow> Panic s
      | Sleep c m \<Rightarrow> Sleep c (k\<lparr>k_mach := m\<rparr>)
      | Spin \<Rightarrow> Spin)"

definition release_pt :: "'z kstate_scheme \<Rightarrow> (unit, 'z kstate_scheme) kres" where
  "release_pt k =
     (case release (k_ptlock k) (k_mach k) of
        Ok lk m \<Rightarrow> Ok () (k\<lparr>k_ptlock := lk, k_mach := m\<rparr>)
      | Panic s \<Rightarrow> Panic s
      | Sleep c m \<Rightarrow> Sleep c (k\<lparr>k_mach := m\<rparr>)
      | Spin \<Rightarrow> Spin)"

definition myproc_k :: "'z kstate_scheme \<Rightarrow> (nat option, 'z kstate_scheme) kres" where
  "myproc_k k = zoomk (\<lambda>m. k\<lparr>k_mach := m\<rparr>) (myproc (k_mach k))"

definition mycpu_k :: "'z kstate_scheme \<Rightarrow> (nat, 'z kstate_scheme) kres" where
  "mycpu_k k = zoomk (\<lambda>m. k\<lparr>k_mach := m\<rparr>) (mycpu (k_mach k))"

definition holding_pt :: "'z kstate_scheme \<Rightarrow> (bool, 'z kstate_scheme) kres" where
  "holding_pt k = zoomk (\<lambda>m. k\<lparr>k_mach := m\<rparr>) (holding (k_ptlock k) (k_mach k))"

text \<open>
  \<open>ready i k\<close>: CPU \<open>i\<close> executes and the table lock is free. \<open>lockpt i k\<close> is the state right after
  it took the lock, \<open>unlockpt i m k\<close> the state after it gave it back, where \<open>m\<close> was the machine
  before.
\<close>

definition ready :: "nat \<Rightarrow> 'z kstate_scheme \<Rightarrow> bool" where
  "ready i k \<longleftrightarrow> on_cpu i (k_mach k) \<and> \<not> locked (k_ptlock k)"

definition lockpt :: "nat \<Rightarrow> 'z kstate_scheme \<Rightarrow> 'z kstate_scheme" where
  "lockpt i k = k\<lparr>k_ptlock := (k_ptlock k)\<lparr>locked := True, lk_cpu := Some i\<rparr>,
     k_mach := pushed i (k_mach k)\<rparr>"

definition unlockpt :: "nat \<Rightarrow> mach \<Rightarrow> 'z kstate_scheme \<Rightarrow> 'z kstate_scheme" where
  "unlockpt i m k = k\<lparr>k_ptlock := (k_ptlock k)\<lparr>locked := False, lk_cpu := None\<rparr>,
     k_mach := settled i m\<rparr>"

lemma acquire_pt_ready: "ready i k \<Longrightarrow> acquire_pt k = Ok () (lockpt i k)"
  by (simp add: acquire_pt_def ready_def acquire_on_cpu [of i "k_mach k"] lockpt_def)

lemma release_pt_held:
  assumes "on_cpu i m" "k_mach k = pushed i m" "locked (k_ptlock k)" "lk_cpu (k_ptlock k) = Some i"
  shows "release_pt k = Ok () (unlockpt i m k)"
  using assms by (simp add: release_pt_def release_held unlockpt_def)

lemma lockpt_simps [simp]:
  "k_procs (lockpt i k) = k_procs k" "k_umem (lockpt i k) = k_umem k"
  "k_nextpid (lockpt i k) = k_nextpid k" "k_initproc (lockpt i k) = k_initproc k"
  "k_mach (lockpt i k) = pushed i (k_mach k)" "locked (k_ptlock (lockpt i k))"
  "lk_cpu (k_ptlock (lockpt i k)) = Some i"
  by (simp_all add: lockpt_def)

lemma unlockpt_simps [simp]:
  "k_procs (unlockpt i m k) = k_procs k" "k_umem (unlockpt i m k) = k_umem k"
  "k_nextpid (unlockpt i m k) = k_nextpid k" "k_initproc (unlockpt i m k) = k_initproc k"
  "k_mach (unlockpt i m k) = settled i m" "\<not> locked (k_ptlock (unlockpt i m k))"
  by (simp_all add: unlockpt_def)

lemma ready_unlockpt: "on_cpu i m \<Longrightarrow> ready i (unlockpt i m k)"
  by (simp add: ready_def on_cpu_settled)

lemma ready_after: "ready i k \<Longrightarrow> ready i (unlockpt i (k_mach k) k')"
  by (simp add: ready_def on_cpu_settled)

lemma myproc_k_on_cpu:
  "on_cpu i (k_mach k) \<Longrightarrow>
   myproc_k k = Ok (cproc (cpus (k_mach k) ! i)) (k\<lparr>k_mach := settled i (k_mach k)\<rparr>)"
  by (simp add: myproc_k_def myproc_on_cpu)

lemma myproc_k_locked:
  assumes "on_cpu i m" "k_mach k = pushed i m"
  shows "myproc_k k = Ok (cproc (cpus m ! i)) k"
proof -
  have "settled i (k_mach k) = k_mach k" using assms by simp
  then show ?thesis
    using assms myproc_k_on_cpu [of i k] by (simp add: on_cpu_pushed cproc_pushed)
qed

text \<open>
  A critical section: what runs between \<open>acquire_pt\<close> and \<open>release_pt\<close> and leaves the lock and the
  machine alone runs as one atomic step.
\<close>

lemma critical_section:
  assumes "ready i k" "body (lockpt i k) = Ok a k'"
    and "k_mach k' = pushed i (k_mach k)" "locked (k_ptlock k')" "lk_cpu (k_ptlock k') = Some i"
  shows "bindk (acquire_pt k) (\<lambda>_ k. bindk (body k) (\<lambda>a k. bindk (release_pt k) (\<lambda>_ k. Ok a k)))
    = Ok a (unlockpt i (k_mach k) k')"
  using assms release_pt_held [of i "k_mach k" k'] acquire_pt_ready [OF assms(1)]
  by (simp add: ready_def)

subsection \<open>Wakeup and kill\<close>

definition wakeup1 :: "chan option \<Rightarrow> proc list \<Rightarrow> proc list" where
  "wakeup1 ch ps = map (\<lambda>p. if p_state p = SLEEPING \<and> p_chan p = ch
                              then p\<lparr>p_state := RUNNABLE\<rparr> else p) ps"

definition wakeup :: "chan \<Rightarrow> 'z kstate_scheme \<Rightarrow> (unit, 'z kstate_scheme) kres" where
  "wakeup ch k =
     bindk (acquire_pt k) (\<lambda>_ k.
     release_pt (k\<lparr>k_procs := wakeup1 (Some ch) (k_procs k)\<rparr>))"

definition kill_mark :: "proc \<Rightarrow> proc" where
  "kill_mark p = (let p = p\<lparr>p_killed := True\<rparr> in
     if p_state p = SLEEPING then p\<lparr>p_state := RUNNABLE\<rparr> else p)"

definition kill :: "int \<Rightarrow> 'z kstate_scheme \<Rightarrow> (int, 'z kstate_scheme) kres" where
  "kill pid k =
     bindk (acquire_pt k) (\<lambda>_ k.
     bindk (case find_idx (\<lambda>p. p_pid p = pid) (k_procs k) of
              Some j \<Rightarrow> Ok 0 (procs_upd j kill_mark k)
            | None \<Rightarrow> Ok (-1) k) (\<lambda>r k.
     bindk (release_pt k) (\<lambda>_ k. Ok r k)))"

lemma length_wakeup1 [simp]: "length (wakeup1 ch ps) = length ps"
  by (simp add: wakeup1_def)

lemma wakeup1_nth:
  "i < length ps \<Longrightarrow> wakeup1 ch ps ! i = (if p_state (ps ! i) = SLEEPING \<and> p_chan (ps ! i) = ch
     then (ps ! i)\<lparr>p_state := RUNNABLE\<rparr> else ps ! i)"
  by (simp add: wakeup1_def)

lemma wakeup1_pids [simp]: "map p_pid (wakeup1 ch ps) = map p_pid ps"
  by (simp add: wakeup1_def)

lemma wakeup1_queues:
  assumes "i < length ps"
  shows "p_pid (wakeup1 ch ps ! i) = p_pid (ps ! i)"
    "p_recv_queue (wakeup1 ch ps ! i) = p_recv_queue (ps ! i)"
    "p_recv_multi_queue (wakeup1 ch ps ! i) = p_recv_multi_queue (ps ! i)"
    "p_pending_signals (wakeup1 ch ps ! i) = p_pending_signals (ps ! i)"
    "p_chan (wakeup1 ch ps ! i) = p_chan (ps ! i)"
    "p_tf (wakeup1 ch ps ! i) = p_tf (ps ! i)"
    "p_handler (wakeup1 ch ps ! i) = p_handler (ps ! i)"
  using assms by (simp_all add: wakeup1_nth)

lemma wakeup_ready:
  assumes "ready i k"
  shows "wakeup ch k =
    Ok () (unlockpt i (k_mach k) ((lockpt i k)\<lparr>k_procs := wakeup1 (Some ch) (k_procs k)\<rparr>))"
  using assms acquire_pt_ready [OF assms]
  by (simp add: wakeup_def release_pt_held [of i "k_mach k"] ready_def)

lemma kill_ready:
  assumes "ready i k"
  shows "kill pid k = (case find_idx (\<lambda>p. p_pid p = pid) (k_procs k) of
      Some j \<Rightarrow> Ok 0 (unlockpt i (k_mach k) (procs_upd j kill_mark (lockpt i k)))
    | None \<Rightarrow> Ok (-1) (unlockpt i (k_mach k) (lockpt i k)))"
  unfolding kill_def
  by (cases "find_idx (\<lambda>p. p_pid p = pid) (k_procs k)")
     (simp_all, (rule critical_section [where body = "\<lambda>k. case find_idx (\<lambda>p. p_pid p = pid) (k_procs k) of
              Some j \<Rightarrow> Ok 0 (procs_upd j kill_mark k) | None \<Rightarrow> Ok (-1) k", OF assms]; simp)+)

subsection \<open>Leaving and entering the CPU\<close>

text \<open>
  \<^verbatim>\<open>sched\<close> up to \<^verbatim>\<open>swtch\<close>: the value is the saved \<^verbatim>\<open>intena\<close>. With no current process the code
  dereferences a null pointer, which traps in the kernel.
\<close>

definition sched_enter :: "'z kstate_scheme \<Rightarrow> (bool, 'z kstate_scheme) kres" where
  "sched_enter k =
     bindk (myproc_k k) (\<lambda>p k.
     bindk (holding_pt k) (\<lambda>h k.
       if \<not> h then Panic ''sched ptable.lock'' else
     bindk (mycpu_k k) (\<lambda>c k.
       if ncli (cpus (k_mach k) ! c) \<noteq> 1 then Panic ''sched locks'' else
       (case p of None \<Rightarrow> Panic ''trap'' | Some p \<Rightarrow>
       if p_state (k_procs k ! p) = RUNNING then Panic ''sched running'' else
       if fl_if (k_mach k) then Panic ''sched interruptible'' else
     bindk (mycpu_k k) (\<lambda>c k. Ok (intena (cpus (k_mach k) ! c)) k)))))"

definition sched_return :: "bool \<Rightarrow> 'z kstate_scheme \<Rightarrow> (unit, 'z kstate_scheme) kres" where
  "sched_return ie k =
     bindk (mycpu_k k) (\<lambda>c k. Ok () (k\<lparr>k_mach := upd_cpu c (\<lambda>x. x\<lparr>intena := ie\<rparr>) (k_mach k)\<rparr>))"

definition yield_enter :: "'z kstate_scheme \<Rightarrow> (bool, 'z kstate_scheme) kres" where
  "yield_enter k =
     bindk (acquire_pt k) (\<lambda>_ k.
     bindk (myproc_k k) (\<lambda>p k.
       (case p of None \<Rightarrow> Panic ''trap'' | Some p \<Rightarrow>
        sched_enter (procs_upd p (\<lambda>x. x\<lparr>p_state := RUNNABLE\<rparr>) k))))"

definition yield_return :: "bool \<Rightarrow> 'z kstate_scheme \<Rightarrow> (unit, 'z kstate_scheme) kres" where
  "yield_return ie k = bindk (sched_return ie k) (\<lambda>_ k. release_pt k)"

text \<open>
  \<^verbatim>\<open>sleep(chan, lk)\<close>. The argument \<^verbatim>\<open>lk\<close> is null, \<^verbatim>\<open>&ptable.lock\<close> or another lock; the last is handed
  back as \<^verbatim>\<open>release\<close> and \<^verbatim>\<open>acquire\<close> leave it.
\<close>

datatype lockref = LkNull | LkPtable | LkOther spinlock

definition release_other :: "lockref \<Rightarrow> 'z kstate_scheme \<Rightarrow> (lockref, 'z kstate_scheme) kres" where
  "release_other lk k =
     (case lk of
        LkOther l \<Rightarrow>
         bindk (acquire_pt k) (\<lambda>_ k.
           (case release l (k_mach k) of
              Ok l' m \<Rightarrow> Ok (LkOther l') (k\<lparr>k_mach := m\<rparr>)
            | Panic s \<Rightarrow> Panic s
            | Sleep c m \<Rightarrow> Sleep c (k\<lparr>k_mach := m\<rparr>)
            | Spin \<Rightarrow> Spin))
      | _ \<Rightarrow> Ok lk k)"

definition sleep_enter ::
  "chan \<Rightarrow> lockref \<Rightarrow> 'z kstate_scheme \<Rightarrow> (bool \<times> lockref, 'z kstate_scheme) kres"
where
  "sleep_enter ch lk k =
     bindk (myproc_k k) (\<lambda>p k.
       (case p of None \<Rightarrow> Panic ''sleep'' | Some p \<Rightarrow>
       if lk = LkNull then Panic ''sleep without lk'' else
     bindk (release_other lk k) (\<lambda>lk k.
     bindk (sched_enter (procs_upd p (\<lambda>x. x\<lparr>p_chan := Some ch, p_state := SLEEPING\<rparr>) k))
       (\<lambda>ie k. Ok (ie, lk) k))))"

definition sleep_return ::
  "nat \<Rightarrow> bool \<Rightarrow> lockref \<Rightarrow> 'z kstate_scheme \<Rightarrow> (lockref, 'z kstate_scheme) kres"
where
  "sleep_return p ie lk k =
     bindk (sched_return ie k) (\<lambda>_ k.
       let k = procs_upd p (\<lambda>x. x\<lparr>p_chan := None\<rparr>) k in
       (case lk of
          LkOther l \<Rightarrow>
           bindk (release_pt k) (\<lambda>_ k.
             (case acquire l (k_mach k) of
                Ok l' m \<Rightarrow> Ok (LkOther l') (k\<lparr>k_mach := m\<rparr>)
              | Panic s \<Rightarrow> Panic s
              | Sleep c m \<Rightarrow> Sleep c (k\<lparr>k_mach := m\<rparr>)
              | Spin \<Rightarrow> Spin))
        | _ \<Rightarrow> Ok lk k))"

text \<open>
  A process that holds only the table lock and is current on its CPU passes every check of
  \<^verbatim>\<open>sched\<close>.
\<close>

definition in_section :: "nat \<Rightarrow> mach \<Rightarrow> nat \<Rightarrow> 'z kstate_scheme \<Rightarrow> bool" where
  "in_section i m p k \<longleftrightarrow> on_cpu i m \<and> ncli (cpus m ! i) = 0 \<and> cproc (cpus m ! i) = Some p
     \<and> k_mach k = pushed i m \<and> locked (k_ptlock k) \<and> lk_cpu (k_ptlock k) = Some i
     \<and> p < length (k_procs k)"

lemma sched_enter_section:
  assumes "in_section i m p k" and "p_state (k_procs k ! p) \<noteq> RUNNING"
  shows "sched_enter k = Ok (fl_if m) k"
proof -
  have on: "on_cpu i m" and km: "k_mach k = pushed i m" using assms by (simp_all add: in_section_def)
  have "mycpu_k k = Ok i k" by (simp add: mycpu_k_def km mycpu_pushed [OF on])
  moreover have "holding_pt k = Ok True k"
    using assms by (simp add: in_section_def holding_pt_def holding_pushed)
  moreover have "myproc_k k = Ok (Some p) k"
    using assms myproc_k_locked [OF on km] by (simp add: in_section_def)
  moreover have "ncli (cpus (k_mach k) ! i) = 1" "intena (cpus (k_mach k) ! i) = fl_if m"
    using assms on_cpu_lt [OF on] by (simp_all add: in_section_def pushed_def)
  ultimately show ?thesis using assms(2) by (simp add: sched_enter_def km)
qed

lemma sleep_enter_section:
  assumes "in_section i m p k"
  shows "sleep_enter ch LkPtable k =
    Ok (fl_if m, LkPtable) (procs_upd p (\<lambda>x. x\<lparr>p_chan := Some ch, p_state := SLEEPING\<rparr>) k)"
proof -
  let ?k = "procs_upd p (\<lambda>x. x\<lparr>p_chan := Some ch, p_state := SLEEPING\<rparr>) k"
  have "in_section i m p ?k" using assms by (simp add: in_section_def)
  moreover have "p_state (k_procs ?k ! p) \<noteq> RUNNING" using assms by (simp add: in_section_def)
  ultimately have "sched_enter ?k = Ok (fl_if m) ?k" by (rule sched_enter_section)
  moreover have "myproc_k k = Ok (Some p) k"
    using assms myproc_k_locked [of i m k] by (simp add: in_section_def)
  ultimately show ?thesis by (simp add: sleep_enter_def release_other_def)
qed

lemma in_section_lockpt:
  assumes "ready i k" "ncli (cpus (k_mach k) ! i) = 0" "cproc (cpus (k_mach k) ! i) = Some p"
    "p < length (k_procs k)"
  shows "in_section i (k_mach k) p (lockpt i k)"
  using assms by (simp add: in_section_def ready_def)

lemma pushed_intena:
  assumes "on_cpu i m" "ncli (cpus m ! i) = 0"
  shows "upd_cpu i (\<lambda>x. x\<lparr>intena := ie\<rparr>) (pushed i m)
    = pushed i (m\<lparr>fl_if := ie\<rparr>)"
  using assms on_cpu_lt [of i m]
  by (auto simp: upd_cpu_def pushed_def intro!: mach.equality arg_cong [of _ _ "list_update _ _"])

lemma sleep_return_section:
  assumes "in_section i m p k"
  shows "sleep_return p ie LkPtable k =
    Ok LkPtable ((procs_upd p (\<lambda>x. x\<lparr>p_chan := None\<rparr>) k)\<lparr>k_mach := pushed i (m\<lparr>fl_if := ie\<rparr>)\<rparr>)"
proof -
  have on: "on_cpu i m" "ncli (cpus m ! i) = 0" and km: "k_mach k = pushed i m"
    using assms by (simp_all add: in_section_def)
  then show ?thesis
    by (simp add: sleep_return_def sched_return_def mycpu_k_def mycpu_pushed pushed_intena)
qed

lemma in_section_set_if:
  "in_section i m p k \<Longrightarrow> k' = k\<lparr>k_mach := pushed i (m\<lparr>fl_if := ie\<rparr>)\<rparr> \<Longrightarrow>
   in_section i (m\<lparr>fl_if := ie\<rparr>) p k'"
  by (simp add: in_section_def on_cpu_def)

subsection \<open>Postconditions of the locking and switching operations\<close>

lemma acquire_pt_post:
  "(\<And>l m. Q () (k\<lparr>k_ptlock := l, k_mach := m\<rparr>)) \<Longrightarrow> (\<And>m. S (k\<lparr>k_mach := m\<rparr>)) \<Longrightarrow>
   kpost Q S (acquire_pt k)"
  by (cases "acquire (k_ptlock k) (k_mach k)") (simp_all add: acquire_pt_def)

lemma release_pt_post:
  "(\<And>l m. Q () (k\<lparr>k_ptlock := l, k_mach := m\<rparr>)) \<Longrightarrow> (\<And>m. S (k\<lparr>k_mach := m\<rparr>)) \<Longrightarrow>
   kpost Q S (release_pt k)"
  by (cases "release (k_ptlock k) (k_mach k)") (simp_all add: release_pt_def)

lemma myproc_k_post:
  "(\<And>p m. Q p (k\<lparr>k_mach := m\<rparr>)) \<Longrightarrow> (\<And>m. S (k\<lparr>k_mach := m\<rparr>)) \<Longrightarrow> kpost Q S (myproc_k k)"
  unfolding myproc_k_def by (rule kpost_zoom)

lemma mycpu_k_post:
  "(\<And>p m. Q p (k\<lparr>k_mach := m\<rparr>)) \<Longrightarrow> (\<And>m. S (k\<lparr>k_mach := m\<rparr>)) \<Longrightarrow> kpost Q S (mycpu_k k)"
  unfolding mycpu_k_def by (rule kpost_zoom)

lemma holding_pt_post:
  "(\<And>p m. Q p (k\<lparr>k_mach := m\<rparr>)) \<Longrightarrow> (\<And>m. S (k\<lparr>k_mach := m\<rparr>)) \<Longrightarrow> kpost Q S (holding_pt k)"
  unfolding holding_pt_def by (rule kpost_zoom)

text \<open>\<open>lock_blind P\<close>: \<open>P\<close> does not look at the machine or at the lock.\<close>

definition lock_blind :: "('z kstate_scheme \<Rightarrow> bool) \<Rightarrow> bool" where
  "lock_blind P \<longleftrightarrow> (\<forall>k l m. P k \<longrightarrow> P (k\<lparr>k_ptlock := l, k_mach := m\<rparr>) \<and> P (k\<lparr>k_mach := m\<rparr>))"

lemma lock_blindD:
  assumes "lock_blind P" "P k"
  shows "kpost (\<lambda>_. P) P (acquire_pt k)" "kpost (\<lambda>_. P) P (release_pt k)"
    "kpost (\<lambda>_. P) P (myproc_k k)" "kpost (\<lambda>_. P) P (mycpu_k k)" "kpost (\<lambda>_. P) P (holding_pt k)"
    "P (k\<lparr>k_mach := m\<rparr>)"
proof -
  have b: "P (k\<lparr>k_ptlock := l, k_mach := m\<rparr>)" "P (k\<lparr>k_mach := m\<rparr>)" for l m
    using assms unfolding lock_blind_def by blast+
  show "kpost (\<lambda>_. P) P (acquire_pt k)" by (rule acquire_pt_post) (rule b)+
  show "kpost (\<lambda>_. P) P (release_pt k)" by (rule release_pt_post) (rule b)+
  show "kpost (\<lambda>_. P) P (myproc_k k)" by (rule myproc_k_post) (rule b)+
  show "kpost (\<lambda>_. P) P (mycpu_k k)" by (rule mycpu_k_post) (rule b)+
  show "kpost (\<lambda>_. P) P (holding_pt k)" by (rule holding_pt_post) (rule b)+
  show "P (k\<lparr>k_mach := m\<rparr>)" by (rule b)
qed

lemma sched_enter_post:
  assumes "lock_blind P" "P k"
  shows "kpost (\<lambda>_. P) P (sched_enter k)"
  unfolding sched_enter_def
  by (rule kpost_bind [OF lock_blindD(3) [OF assms]], rule kpost_bind [OF lock_blindD(5) [OF assms(1)]],
      assumption)
     (auto intro!: kpost_bind [OF lock_blindD(4) [OF assms(1)]] split: option.splits)

lemma sched_return_post:
  assumes "lock_blind P" "P k"
  shows "kpost (\<lambda>_. P) P (sched_return ie k)"
  unfolding sched_return_def
  by (rule kpost_bind [OF lock_blindD(4) [OF assms]]) (simp add: lock_blindD(6) [OF assms(1)])

lemma sleep_enter_post:
  assumes "lock_blind P" "P k"
    and "\<And>k p ch. P k \<Longrightarrow> P (procs_upd p (\<lambda>x. x\<lparr>p_chan := Some ch, p_state := SLEEPING\<rparr>) k)"
  shows "kpost (\<lambda>_. P) P (sleep_enter ch LkPtable k)"
  unfolding sleep_enter_def release_other_def
  by (rule kpost_bind [OF lock_blindD(3) [OF assms(1,2)]])
     (auto intro!: kpost_bind [OF sched_enter_post [OF assms(1)]] assms(3) split: option.splits)

lemma sleep_return_post:
  assumes "lock_blind P" "P k" and "\<And>k p. P k \<Longrightarrow> P (procs_upd p (\<lambda>x. x\<lparr>p_chan := None\<rparr>) k)"
  shows "kpost (\<lambda>_. P) P (sleep_return p ie LkPtable k)"
  unfolding sleep_return_def Let_def
  by (rule kpost_bind [OF sched_return_post [OF assms(1,2)]]) (simp add: assms(3))

end
