(* ===== verification/Ipc.thy ===== *)
theory Ipc
  imports Proc
begin

text \<open>
  Messages and signals: \<^verbatim>\<open>send_mess\<close>, \<^verbatim>\<open>recv_mess\<close>, \<^verbatim>\<open>set_signal\<close>, \<^verbatim>\<open>send_multicast\<close>, \<^verbatim>\<open>send_signal\<close> and
  \<^verbatim>\<open>pause_signal\<close> of \<^verbatim>\<open>proc.c\<close>.

  Both queues of a process are rings and satisfy the contract \<open>bounded_fifo\<close>. The argument
  \<open>cur\<close> of an operation that copies from or to user memory is the process whose page table is
  loaded, that is, the caller.
\<close>

subsection \<open>The two rings\<close>

definition msg_put :: "int \<times> byte list \<Rightarrow> message_list \<Rightarrow> message_list" where
  "msg_put x q = q\<lparr>messages := (messages q)[mq_tail q := snd x],
     sender_id := (sender_id q)[mq_tail q := fst x],
     mq_tail := (mq_tail q + 1) mod NUM_MSG\<rparr>"

definition msg_advance :: "message_list \<Rightarrow> message_list" where
  "msg_advance q = q\<lparr>mq_head := (mq_head q + 1) mod NUM_MSG\<rparr>"

definition msg_peek :: "message_list \<Rightarrow> int \<times> byte list" where
  "msg_peek q = (sender_id q ! mq_head q, messages q ! mq_head q)"

definition msg_empty :: "message_list \<Rightarrow> bool" where
  "msg_empty q \<longleftrightarrow> mq_head q = mq_tail q"

definition msgq_ok :: "message_list \<Rightarrow> bool" where
  "msgq_ok q \<longleftrightarrow> length (messages q) = NUM_MSG \<and> length (sender_id q) = NUM_MSG
     \<and> mq_head q < NUM_MSG \<and> mq_tail q < NUM_MSG"

definition msg_items :: "message_list \<Rightarrow> (int \<times> byte list) list" where
  "msg_items q = zip (ring_list NUM_MSG (sender_id q) (mq_head q) (mq_tail q))
     (ring_list NUM_MSG (messages q) (mq_head q) (mq_tail q))"

definition msgq_reset :: "message_list \<Rightarrow> message_list" where
  "msgq_reset q = q\<lparr>mq_head := 0, mq_tail := 0\<rparr>"

lemma NUM_MSG_pos [simp]: "0 < NUM_MSG" "NUM_MSG \<noteq> 0"
  by (simp_all add: NUM_MSG_def)

lemma hd_zip_eq: "xs \<noteq> [] \<Longrightarrow> ys \<noteq> [] \<Longrightarrow> hd (zip xs ys) = (hd xs, hd ys)"
  by (cases xs; cases ys) auto

lemma tl_zip_eq: "tl (zip xs ys) = zip (tl xs) (tl ys)"
  by (cases xs; cases ys) auto

lemma ring_list_Nil: "h < N \<Longrightarrow> t < N \<Longrightarrow> ring_list N arr h t = [] \<longleftrightarrow> h = t"
  by (metis length_0_conv length_ring_list ring_len_0)

lemma length_msg_items:
  "length (msg_items q) = ring_len NUM_MSG (mq_head q) (mq_tail q)"
  by (simp add: msg_items_def)

lemma msg_items_Nil: "msgq_ok q \<Longrightarrow> msg_items q = [] \<longleftrightarrow> mq_head q = mq_tail q"
  by (metis length_0_conv length_msg_items msgq_ok_def ring_len_0)

interpretation msgq: bounded_fifo NUM_MSG msgq_ok msg_items msg_put msg_advance msg_peek msg_empty
proof
  fix q :: message_list and x
  assume ok: "msgq_ok q"
  then have b: "mq_head q < NUM_MSG" "mq_tail q < NUM_MSG"
    and l: "length (messages q) = NUM_MSG" "length (sender_id q) = NUM_MSG"
    by (simp_all add: msgq_ok_def)
  show "msgq_ok (msg_put x q)" using ok by (simp add: msgq_ok_def msg_put_def)
  show "msgq_ok (msg_advance q)" using ok by (simp add: msgq_ok_def msg_advance_def)
  show "length (msg_items q) < NUM_MSG" by (simp add: length_msg_items ring_len_lt)
  show "msg_empty q = (msg_items q = [])" using ok by (simp add: msg_empty_def msg_items_Nil)
  show "msg_items (msg_put x q) = msg_items q @ [x]" if "Suc (length (msg_items q)) < NUM_MSG"
    using that b l by (simp add: msg_items_def msg_put_def ring_list_put)
  show "msg_items (msg_put x q) = []" if "Suc (length (msg_items q)) = NUM_MSG"
    using that b by (simp add: msg_items_def msg_put_def ring_list_put_full)
  show "msg_items (msg_advance q) = tl (msg_items q)" if "msg_items q \<noteq> []"
    using that b msg_items_Nil [OF ok]
    by (simp add: msg_items_def msg_advance_def ring_list_tl tl_zip_eq)
  show "length (msg_items (msg_advance q)) = NUM_MSG - 1" if "msg_items q = []"
    using that b msg_items_Nil [OF ok] by (simp add: length_msg_items msg_advance_def ring_len_Suc_head)
  show "msg_peek q = hd (msg_items q)" if "msg_items q \<noteq> []"
    using that b msg_items_Nil [OF ok]
    by (simp add: msg_items_def hd_zip_eq ring_list_Nil ring_list_hd msg_peek_def)
qed

definition sig_put :: "int \<times> int \<Rightarrow> signals \<Rightarrow> signals" where
  "sig_put x q = q\<lparr>sig_num := (sig_num q)[sg_tail q := fst x],
     s_pid := (s_pid q)[sg_tail q := snd x],
     sg_tail := (sg_tail q + 1) mod MAX_SIG\<rparr>"

definition sig_advance :: "signals \<Rightarrow> signals" where
  "sig_advance q = q\<lparr>sg_head := (sg_head q + 1) mod MAX_SIG\<rparr>"

definition sig_peek :: "signals \<Rightarrow> int \<times> int" where
  "sig_peek q = (sig_num q ! sg_head q, s_pid q ! sg_head q)"

definition sig_empty :: "signals \<Rightarrow> bool" where
  "sig_empty q \<longleftrightarrow> sg_head q = sg_tail q"

definition sigq_ok :: "signals \<Rightarrow> bool" where
  "sigq_ok q \<longleftrightarrow> length (sig_num q) = MAX_SIG \<and> length (s_pid q) = MAX_SIG
     \<and> sg_head q < MAX_SIG \<and> sg_tail q < MAX_SIG"

definition sig_items :: "signals \<Rightarrow> (int \<times> int) list" where
  "sig_items q = zip (ring_list MAX_SIG (sig_num q) (sg_head q) (sg_tail q))
     (ring_list MAX_SIG (s_pid q) (sg_head q) (sg_tail q))"

lemma MAX_SIG_pos [simp]: "0 < MAX_SIG" "MAX_SIG \<noteq> 0"
  by (simp_all add: MAX_SIG_def)

lemma length_sig_items:
  "length (sig_items q) = ring_len MAX_SIG (sg_head q) (sg_tail q)"
  by (simp add: sig_items_def)

lemma sig_items_Nil: "sigq_ok q \<Longrightarrow> sig_items q = [] \<longleftrightarrow> sg_head q = sg_tail q"
  by (metis length_0_conv length_sig_items sigq_ok_def ring_len_0)

interpretation sigq: bounded_fifo MAX_SIG sigq_ok sig_items sig_put sig_advance sig_peek sig_empty
proof
  fix q :: signals and x
  assume ok: "sigq_ok q"
  then have b: "sg_head q < MAX_SIG" "sg_tail q < MAX_SIG"
    and l: "length (sig_num q) = MAX_SIG" "length (s_pid q) = MAX_SIG"
    by (simp_all add: sigq_ok_def)
  show "sigq_ok (sig_put x q)" using ok by (simp add: sigq_ok_def sig_put_def)
  show "sigq_ok (sig_advance q)" using ok by (simp add: sigq_ok_def sig_advance_def)
  show "length (sig_items q) < MAX_SIG" by (simp add: length_sig_items ring_len_lt)
  show "sig_empty q = (sig_items q = [])" using ok by (simp add: sig_empty_def sig_items_Nil)
  show "sig_items (sig_put x q) = sig_items q @ [x]" if "Suc (length (sig_items q)) < MAX_SIG"
    using that b l by (simp add: sig_items_def sig_put_def ring_list_put)
  show "sig_items (sig_put x q) = []" if "Suc (length (sig_items q)) = MAX_SIG"
    using that b by (simp add: sig_items_def sig_put_def ring_list_put_full)
  show "sig_items (sig_advance q) = tl (sig_items q)" if "sig_items q \<noteq> []"
    using that b sig_items_Nil [OF ok]
    by (simp add: sig_items_def sig_advance_def ring_list_tl tl_zip_eq)
  show "length (sig_items (sig_advance q)) = MAX_SIG - 1" if "sig_items q = []"
    using that b sig_items_Nil [OF ok] by (simp add: length_sig_items sig_advance_def ring_len_Suc_head)
  show "sig_peek q = hd (sig_items q)" if "sig_items q \<noteq> []"
    using that b sig_items_Nil [OF ok]
    by (simp add: sig_items_def hd_zip_eq ring_list_Nil ring_list_hd sig_peek_def)
qed

subsection \<open>Unicast\<close>

text \<open>The body of the loop of \<^verbatim>\<open>send_mess\<close> at a matching entry.\<close>

definition send_to :: "int \<Rightarrow> byte list \<Rightarrow> nat \<Rightarrow> proc list \<Rightarrow> proc list" where
  "send_to sender m i ps =
     (let p = ps ! i in
      wakeup1 (p_chan p) (ps[i := p\<lparr>p_recv_queue := msg_put (sender, m) (p_recv_queue p)\<rparr>]))"

definition send_loop ::
  "int \<Rightarrow> int \<Rightarrow> byte list \<Rightarrow> nat list \<Rightarrow> proc list \<times> bool \<Rightarrow> proc list \<times> bool" where
  "send_loop sender rec m = fold (\<lambda>i (ps, ok).
     if p_pid (ps ! i) = rec then (send_to sender m i ps, True) else (ps, ok))"

definition send_mess ::
  "nat \<Rightarrow> int \<Rightarrow> int \<Rightarrow> uint \<Rightarrow> 'z kstate_scheme \<Rightarrow> (int, 'z kstate_scheme) kres" where
  "send_mess cur sender_pid rec_pid mess k =
     bindk (acquire_pt k) (\<lambda>_ k.
     bindk (let m = mem_read (k_umem k cur) mess MSGSIZE;
                (ps, ok) = send_loop sender_pid rec_pid m [0..<length (k_procs k)] (k_procs k, False)
            in Ok (if ok then 0 else -1) (k\<lparr>k_procs := ps\<rparr>)) (\<lambda>r k.
     bindk (release_pt k) (\<lambda>_ k. Ok r k)))"

text \<open>
  The scan of \<^verbatim>\<open>recv_mess\<close> over the rest of the table. At an empty queue the caller goes to sleep;
  when it is resumed the scan goes on at the same entry (\<open>recv_resume\<close>).
\<close>

fun recv_loop ::
  "nat \<Rightarrow> int \<Rightarrow> uint \<Rightarrow> nat list \<Rightarrow> bool \<Rightarrow> 'z kstate_scheme \<Rightarrow> (bool, 'z kstate_scheme) kres" where
  "recv_loop cur rec mess [] ok k = Ok ok k"
| "recv_loop cur rec mess (i # is) ok k =
     (if p_pid (k_procs k ! i) = rec then
        (let q = p_recv_queue (k_procs k ! i) in
         if mq_head q = mq_tail q
         then bindk (sleep_enter (ChRecv i) LkPtable k) (\<lambda>_ k. Sleep (ChRecv i) k)
         else recv_loop cur rec mess is True
           (procs_upd i (\<lambda>p. p\<lparr>p_recv_queue := msg_advance q\<rparr>)
             (k\<lparr>k_umem := (k_umem k)
                 (cur := mem_write (k_umem k cur) mess (messages q ! mq_head q))\<rparr>)))
      else recv_loop cur rec mess is ok k)"

definition recv_finish :: "bool \<Rightarrow> 'z kstate_scheme \<Rightarrow> (int, 'z kstate_scheme) kres" where
  "recv_finish ok k = bindk (release_pt k) (\<lambda>_ k. Ok (if ok then 0 else -1) k)"

definition recv_mess ::
  "nat \<Rightarrow> int \<Rightarrow> uint \<Rightarrow> 'z kstate_scheme \<Rightarrow> (int, 'z kstate_scheme) kres" where
  "recv_mess cur rec_pid mess k =
     bindk (acquire_pt k) (\<lambda>_ k.
     bindk (recv_loop cur rec_pid mess [0..<length (k_procs k)] False k) recv_finish)"

definition recv_resume ::
  "nat \<Rightarrow> int \<Rightarrow> uint \<Rightarrow> nat \<Rightarrow> bool \<Rightarrow> bool \<Rightarrow> 'z kstate_scheme \<Rightarrow> (int, 'z kstate_scheme) kres" where
  "recv_resume cur rec_pid mess i ok ie k =
     bindk (sleep_return cur ie LkPtable k) (\<lambda>_ k.
     bindk (recv_loop cur rec_pid mess [i..<length (k_procs k)] ok k) recv_finish)"

subsection \<open>Signals and multicast\<close>

definition set_signal :: "uint \<Rightarrow> 'z kstate_scheme \<Rightarrow> (unit, 'z kstate_scheme) kres" where
  "set_signal s k =
     bindk (myproc_k k) (\<lambda>p k.
     bindk (acquire_pt k) (\<lambda>_ k.
       (case p of None \<Rightarrow> Panic ''trap'' | Some p \<Rightarrow>
        release_pt (procs_upd p (\<lambda>x. x\<lparr>p_handler := s\<rparr>) k))))"

definition signal_to :: "int \<Rightarrow> int \<Rightarrow> nat \<Rightarrow> proc list \<Rightarrow> proc list" where
  "signal_to sender signum i ps =
     (let p = ps ! i in
      wakeup1 (p_chan p)
        (ps[i := p\<lparr>p_pending_signals := sig_put (signum, sender) (p_pending_signals p)\<rparr>]))"

definition signal_loop :: "int \<Rightarrow> int \<Rightarrow> int \<Rightarrow> nat list \<Rightarrow> proc list \<Rightarrow> proc list" where
  "signal_loop sender to_pid signum = fold (\<lambda>i ps.
     if p_pid (ps ! i) = to_pid then signal_to sender signum i ps else ps)"

definition send_signal :: "int \<Rightarrow> int \<Rightarrow> 'z kstate_scheme \<Rightarrow> (unit, 'z kstate_scheme) kres" where
  "send_signal to_pid signum k =
     bindk (myproc_k k) (\<lambda>p k.
       (case p of None \<Rightarrow> Panic ''trap'' | Some p \<Rightarrow>
        Ok () (k\<lparr>k_procs := signal_loop (p_pid (k_procs k ! p)) to_pid signum
                   [0..<length (k_procs k)] (k_procs k)\<rparr>)))"

definition multi_put :: "int \<Rightarrow> byte list \<Rightarrow> proc \<Rightarrow> proc" where
  "multi_put sender m p =
     p\<lparr>p_recv_multi_queue := msg_put (sender, m) (p_recv_multi_queue p)\<rparr>"

text \<open>The inner loop over the table, and the outer loop over the receivers.\<close>

fun multi_scan ::
  "int \<Rightarrow> int \<Rightarrow> byte list \<Rightarrow> nat list \<Rightarrow> bool \<Rightarrow> 'z kstate_scheme \<Rightarrow> (bool, 'z kstate_scheme) kres" where
  "multi_scan sender rec m [] ok k = Ok ok k"
| "multi_scan sender rec m (i # is) ok k =
     (if p_pid (k_procs k ! i) = rec then
        bindk (send_signal rec 1 (procs_upd i (multi_put sender m) k)) (\<lambda>_ k.
          multi_scan sender rec m is True k)
      else multi_scan sender rec m is ok k)"

fun multi_loop ::
  "nat \<Rightarrow> int \<Rightarrow> uint \<Rightarrow> uint \<Rightarrow> nat list \<Rightarrow> bool \<Rightarrow> 'z kstate_scheme \<Rightarrow> (bool, 'z kstate_scheme) kres" where
  "multi_loop cur sender rec_pids msg [] ok k = Ok ok k"
| "multi_loop cur sender rec_pids msg (j # js) ok k =
     bindk (acquire_pt k) (\<lambda>_ k.
     bindk (multi_scan sender (sint (ld32 (k_umem k cur) (rec_pids + 4 * of_nat j)))
              (mem_read (k_umem k cur) msg MSGSIZE) [0..<length (k_procs k)] ok k) (\<lambda>ok k.
     bindk (release_pt k) (\<lambda>_ k.
       multi_loop cur sender rec_pids msg js ok k)))"

definition send_multicast ::
  "nat \<Rightarrow> int \<Rightarrow> uint \<Rightarrow> uint \<Rightarrow> int \<Rightarrow> 'z kstate_scheme \<Rightarrow> (int, 'z kstate_scheme) kres" where
  "send_multicast cur sender_pid rec_pids msg len k =
     bindk (multi_loop cur sender_pid rec_pids msg [0..<nat len] False k)
       (\<lambda>ok k. Ok (if ok then 0 else -1) k)"

definition pause_signal :: "'z kstate_scheme \<Rightarrow> (unit, 'z kstate_scheme) kres" where
  "pause_signal k =
     bindk (myproc_k k) (\<lambda>p k.
     bindk (acquire_pt k) (\<lambda>_ k.
       (case p of None \<Rightarrow> Panic ''trap'' | Some p \<Rightarrow>
        let q = p_pending_signals (k_procs k ! p) in
        if sg_head q = sg_tail q
        then bindk (sleep_enter (ChSignals p) LkPtable k) (\<lambda>_ k. Sleep (ChSignals p) k)
        else release_pt k)))"

definition pause_resume :: "nat \<Rightarrow> bool \<Rightarrow> 'z kstate_scheme \<Rightarrow> (unit, 'z kstate_scheme) kres" where
  "pause_resume p ie k = bindk (sleep_return p ie LkPtable k) (\<lambda>_ k. release_pt k)"

subsection \<open>Lookup of a receiver\<close>

text \<open>\<open>sole pid j ps\<close>: entry \<open>j\<close> is the only one with this pid. \<open>absent pid ps\<close>: no entry has it.\<close>

definition sole :: "int \<Rightarrow> nat \<Rightarrow> proc list \<Rightarrow> bool" where
  "sole pid j ps \<longleftrightarrow> j < length ps \<and> p_pid (ps ! j) = pid
     \<and> (\<forall>i < length ps. p_pid (ps ! i) = pid \<longrightarrow> i = j)"

definition absent :: "int \<Rightarrow> proc list \<Rightarrow> bool" where
  "absent pid ps \<longleftrightarrow> (\<forall>i < length ps. p_pid (ps ! i) \<noteq> pid)"

lemma sole_lt: "sole pid j ps \<Longrightarrow> j < length ps"
  by (simp add: sole_def)

lemma sole_pid: "sole pid j ps \<Longrightarrow> p_pid (ps ! j) = pid"
  by (simp add: sole_def)

lemma sole_split:
  assumes "sole pid j ps"
  shows "[0..<length ps] = [0..<j] @ j # [Suc j..<length ps]"
    "\<forall>i \<in> set [0..<j]. p_pid (ps ! i) \<noteq> pid"
    "\<forall>i \<in> set [Suc j..<length ps]. p_pid (ps ! i) \<noteq> pid"
proof -
  have "[0..<length ps] = [0..<j] @ [j..<length ps]"
    using sole_lt [OF assms] upt_add_eq_append [of 0 j "length ps - j"] by simp
  then show "[0..<length ps] = [0..<j] @ j # [Suc j..<length ps]"
    using sole_lt [OF assms] by (simp add: upt_conv_Cons)
  show "\<forall>i \<in> set [0..<j]. p_pid (ps ! i) \<noteq> pid"
    using assms unfolding sole_def by (metis atLeastLessThan_iff less_irrefl less_trans set_upt)
  show "\<forall>i \<in> set [Suc j..<length ps]. p_pid (ps ! i) \<noteq> pid"
    using assms unfolding sole_def by (metis atLeastLessThan_iff Suc_n_not_le_n set_upt)
qed

lemma send_loop_skip:
  "\<forall>i \<in> set is. p_pid (ps ! i) \<noteq> rec \<Longrightarrow> send_loop sender rec m is (ps, ok) = (ps, ok)"
  by (induction "is") (auto simp: send_loop_def)

lemma signal_loop_skip:
  "\<forall>i \<in> set is. p_pid (ps ! i) \<noteq> rec \<Longrightarrow> signal_loop sender rec n is ps = ps"
  by (induction "is") (auto simp: signal_loop_def)

lemma p_pid_send_to [simp]:
  "i < length ps \<Longrightarrow> p_pid (send_to sender m j ps ! i) = p_pid (ps ! i)"
  by (cases "i = j") (simp_all add: send_to_def Let_def wakeup1_queues)

lemma p_pid_signal_to [simp]:
  "i < length ps \<Longrightarrow> p_pid (signal_to sender n j ps ! i) = p_pid (ps ! i)"
  by (cases "i = j") (simp_all add: signal_to_def Let_def wakeup1_queues)

lemma length_send_to [simp]: "length (send_to sender m j ps) = length ps"
  by (simp add: send_to_def Let_def)

lemma length_signal_to [simp]: "length (signal_to sender m j ps) = length ps"
  by (simp add: signal_to_def Let_def)

lemma send_loop_sole:
  assumes "sole rec j ps"
  shows "send_loop sender rec m [0..<length ps] (ps, ok) = (send_to sender m j ps, True)"
proof -
  have "send_loop sender rec m [0..<length ps] (ps, ok)
      = send_loop sender rec m [Suc j..<length ps] (send_loop sender rec m [j]
          (send_loop sender rec m [0..<j] (ps, ok)))"
    by (subst sole_split(1) [OF assms]) (simp add: send_loop_def)
  also have "\<dots> = send_loop sender rec m [Suc j..<length ps] (send_to sender m j ps, True)"
    using sole_pid [OF assms] by (simp add: send_loop_skip [OF sole_split(2) [OF assms]])
      (simp add: send_loop_def)
  also have "\<dots> = (send_to sender m j ps, True)"
    using sole_split(3) [OF assms] by (intro send_loop_skip) auto
  finally show ?thesis .
qed

lemma signal_loop_sole:
  assumes "sole rec j ps"
  shows "signal_loop sender rec n [0..<length ps] ps = signal_to sender n j ps"
proof -
  have "signal_loop sender rec n [0..<length ps] ps
      = signal_loop sender rec n [Suc j..<length ps] (signal_loop sender rec n [j]
          (signal_loop sender rec n [0..<j] ps))"
    by (subst sole_split(1) [OF assms]) (simp add: signal_loop_def)
  also have "\<dots> = signal_loop sender rec n [Suc j..<length ps] (signal_to sender n j ps)"
    using sole_pid [OF assms] by (simp add: signal_loop_skip [OF sole_split(2) [OF assms]])
      (simp add: signal_loop_def)
  also have "\<dots> = signal_to sender n j ps"
    using sole_split(3) [OF assms] by (intro signal_loop_skip) auto
  finally show ?thesis .
qed

lemma send_loop_absent:
  "absent rec ps \<Longrightarrow> send_loop sender rec m [0..<length ps] (ps, ok) = (ps, ok)"
  by (rule send_loop_skip) (simp add: absent_def)

lemma send_mess_ready:
  assumes "ready c k"
  shows "send_mess cur sender rec mess k =
    (let (ps, ok) = send_loop sender rec (mem_read (k_umem k cur) mess MSGSIZE)
                      [0..<length (k_procs k)] (k_procs k, False)
     in Ok (if ok then 0 else -1) (unlockpt c (k_mach k) ((lockpt c k)\<lparr>k_procs := ps\<rparr>)))"
  using assms
  by (cases "send_loop sender rec (mem_read (k_umem k cur) mess MSGSIZE)
               [0..<length (k_procs k)] (k_procs k, False)")
     (simp add: send_mess_def acquire_pt_ready [OF assms] ready_def release_pt_held [of c "k_mach k"])

lemma send_to_self:
  assumes "j < length ps"
  shows "send_to sender m j ps ! j =
    (let p = (ps ! j)\<lparr>p_recv_queue := msg_put (sender, m) (p_recv_queue (ps ! j))\<rparr> in
     if p_state (ps ! j) = SLEEPING then p\<lparr>p_state := RUNNABLE\<rparr> else p)"
  using assms by (simp add: send_to_def Let_def wakeup1_nth)

lemma send_to_other:
  assumes "i < length ps" "i \<noteq> j"
  shows "send_to sender m j ps ! i =
    (if p_state (ps ! i) = SLEEPING \<and> p_chan (ps ! i) = p_chan (ps ! j)
     then (ps ! i)\<lparr>p_state := RUNNABLE\<rparr> else ps ! i)"
  using assms by (simp add: send_to_def Let_def wakeup1_nth)

lemma recv_loop_skip:
  "\<forall>i \<in> set is. p_pid (k_procs k ! i) \<noteq> rec \<Longrightarrow>
   recv_loop cur rec mess (is @ js) ok k = recv_loop cur rec mess js ok k"
  by (induction "is") auto

definition recv_take :: "nat \<Rightarrow> uint \<Rightarrow> nat \<Rightarrow> 'z kstate_scheme \<Rightarrow> 'z kstate_scheme" where
  "recv_take cur mess j k = (let q = p_recv_queue (k_procs k ! j) in
     procs_upd j (\<lambda>p. p\<lparr>p_recv_queue := msg_advance q\<rparr>)
       (k\<lparr>k_umem := (k_umem k)(cur := mem_write (k_umem k cur) mess (snd (msg_peek q)))\<rparr>))"

lemma recv_take_simps [simp]:
  "k_mach (recv_take cur mess j k) = k_mach k"
  "k_ptlock (recv_take cur mess j k) = k_ptlock k"
  "length (k_procs (recv_take cur mess j k)) = length (k_procs k)"
  by (simp_all add: recv_take_def Let_def)

lemma recv_loop_from:
  assumes "sole rec j (k_procs k)" and "\<not> msg_empty (p_recv_queue (k_procs k ! j))"
  shows "recv_loop cur rec mess (j # [Suc j..<length (k_procs k)]) ok k
    = Ok True (recv_take cur mess j k)"
proof -
  let ?k = "recv_take cur mess j k"
  have "recv_loop cur rec mess (j # [Suc j..<length (k_procs k)]) ok k
      = recv_loop cur rec mess ([Suc j..<length (k_procs k)] @ []) True ?k"
    using assms sole_pid [OF assms(1)]
    by (simp add: Let_def msg_empty_def recv_take_def msg_peek_def)
  also have "\<dots> = recv_loop cur rec mess [] True ?k"
  proof (rule recv_loop_skip, intro ballI)
    fix i assume "i \<in> set [Suc j..<length (k_procs k)]"
    then show "p_pid (k_procs ?k ! i) \<noteq> rec"
      using sole_split(3) [OF assms(1)] by (simp add: recv_take_def Let_def)
  qed
  finally show ?thesis by simp
qed

lemma recv_loop_sole:
  assumes "sole rec j (k_procs k)"
  shows "recv_loop cur rec mess [0..<length (k_procs k)] ok k
    = recv_loop cur rec mess (j # [Suc j..<length (k_procs k)]) ok k"
  using sole_split(1) [OF assms] recv_loop_skip [OF sole_split(2) [OF assms]] by metis

lemma recv_mess_nonempty:
  assumes "ready c k" "sole rec j (k_procs k)" "\<not> msg_empty (p_recv_queue (k_procs k ! j))"
  shows "recv_mess cur rec mess k
    = Ok 0 (unlockpt c (k_mach k) (recv_take cur mess j (lockpt c k)))"
  using assms recv_loop_sole [of rec j "lockpt c k"] recv_loop_from [of rec j "lockpt c k"]
  by (simp add: recv_mess_def acquire_pt_ready [OF assms(1)] recv_finish_def
      release_pt_held [of c "k_mach k"] ready_def del: recv_loop.simps)

lemma recv_mess_empty:
  assumes "ready c k" "ncli (cpus (k_mach k) ! c) = 0" "cproc (cpus (k_mach k) ! c) = Some p"
    "p < length (k_procs k)"
    and "sole rec j (k_procs k)" "msg_empty (p_recv_queue (k_procs k ! j))"
  shows "recv_mess cur rec mess k = Sleep (ChRecv j)
    (procs_upd p (\<lambda>x. x\<lparr>p_chan := Some (ChRecv j), p_state := SLEEPING\<rparr>) (lockpt c k))"
  using assms recv_loop_sole [of rec j "lockpt c k"]
    sleep_enter_section [OF in_section_lockpt [OF assms(1-4)], of "ChRecv j"]
  by (simp add: recv_mess_def acquire_pt_ready [OF assms(1)] msg_empty_def sole_pid)

lemma recv_mess_absent:
  assumes "ready c k" "absent rec (k_procs k)"
  shows "recv_mess cur rec mess k = Ok (-1) (unlockpt c (k_mach k) (lockpt c k))"
  using assms recv_loop_skip [of "[0..<length (k_procs k)]" "lockpt c k" rec cur mess "[]"]
  by (simp add: recv_mess_def acquire_pt_ready [OF assms(1)] recv_finish_def absent_def
      release_pt_held [of c "k_mach k"] ready_def)

lemma sole_pids: "map p_pid ps = map p_pid ps' \<Longrightarrow> sole pid j ps = sole pid j ps'"
  by (metis (no_types, lifting) length_map nth_map sole_def)

lemma send_to_pids [simp]: "map p_pid (send_to sender m j ps) = map p_pid ps"
  by (rule nth_equalityI) simp_all

lemma signal_to_pids [simp]: "map p_pid (signal_to sender m j ps) = map p_pid ps"
  by (rule nth_equalityI) simp_all

lemma upd_pids [simp]:
  "p_pid (f (ps ! i)) = p_pid (ps ! i) \<Longrightarrow> map p_pid (ps[i := f (ps ! i)]) = map p_pid ps"
  by (simp add: map_update list_update_same_conv) (metis list_update_beyond list_update_id
      list_update_same_conv length_map nth_map not_less)

lemma sole_send_to [simp]: "sole pid i (send_to sender m j ps) = sole pid i ps"
  by (rule sole_pids) simp

lemma sole_signal_to [simp]: "sole pid i (signal_to sender m j ps) = sole pid i ps"
  by (rule sole_pids) simp

lemma sole_recv_take [simp]:
  "sole pid i (k_procs (recv_take cur mess j k)) = sole pid i (k_procs k)"
  unfolding recv_take_def Let_def
  by (rule sole_pids) (simp add: upd_pids [where f = "\<lambda>p. p\<lparr>p_recv_queue := q\<rparr>" for q])

lemma p_recv_queue_send_to:
  "i < length ps \<Longrightarrow> p_recv_queue (send_to sender m j ps ! i) =
     (if i = j then msg_put (sender, m) (p_recv_queue (ps ! i)) else p_recv_queue (ps ! i))"
  by (cases "i = j") (simp_all add: send_to_self send_to_other Let_def)

lemma send_mess_sole:
  assumes "ready c k" "sole rec j (k_procs k)"
  shows "send_mess cur sender rec mess k = Ok 0 (unlockpt c (k_mach k) ((lockpt c k)
    \<lparr>k_procs := send_to sender (mem_read (k_umem k cur) mess MSGSIZE) j (k_procs k)\<rparr>))"
  using assms by (simp add: send_mess_ready send_loop_sole)

subsection \<open>Runs of calls\<close>

text \<open>A run of sends to one receiver, each by the process \<open>cur\<close> with the sender id it passes.\<close>

fun sends ::
  "int \<Rightarrow> (nat \<times> int \<times> uint) list \<Rightarrow> 'z kstate_scheme \<Rightarrow> (unit, 'z kstate_scheme) kres" where
  "sends rec [] k = Ok () k"
| "sends rec ((cur, sender, mess) # xs) k =
     bindk (send_mess cur sender rec mess k) (\<lambda>_. sends rec xs)"

text \<open>A run of \<open>n\<close> receives into one buffer; the value is what the buffer held after each.\<close>

fun recvs ::
  "nat \<Rightarrow> int \<Rightarrow> uint \<Rightarrow> nat \<Rightarrow> 'z kstate_scheme \<Rightarrow> (byte list list, 'z kstate_scheme) kres" where
  "recvs cur rec mess 0 k = Ok [] k"
| "recvs cur rec mess (Suc n) k =
     bindk (recv_mess cur rec mess k) (\<lambda>_ k.
     bindk (recvs cur rec mess n k) (\<lambda>ms k'.
       Ok (mem_read (k_umem k cur) mess MSGSIZE # ms) k'))"

lemma sends_sole:
  assumes "ready c k" "sole rec j (k_procs k)"
  shows "\<exists>k'. sends rec xs k = Ok () k' \<and> ready c k' \<and> sole rec j (k_procs k')
    \<and> k_umem k' = k_umem k
    \<and> p_recv_queue (k_procs k' ! j) = fold msg_put
        (map (\<lambda>(cur, sender, mess). (sender, mem_read (k_umem k cur) mess MSGSIZE)) xs)
        (p_recv_queue (k_procs k ! j))"
  using assms
proof (induction xs arbitrary: k)
  case (Cons x xs)
  obtain cur sender mess where x: "x = (cur, sender, mess)" by (cases x)
  let ?k = "unlockpt c (k_mach k) ((lockpt c k)
    \<lparr>k_procs := send_to sender (mem_read (k_umem k cur) mess MSGSIZE) j (k_procs k)\<rparr>)"
  have "ready c ?k" "sole rec j (k_procs ?k)"
    using Cons.prems by (simp_all add: ready_after)
  from Cons.IH [OF this] show ?case
    using Cons.prems by (simp add: x send_mess_sole p_recv_queue_send_to sole_lt)
qed simp

lemma recvs_sole:
  assumes "ready c k" "sole rec j (k_procs k)" "msgq_ok (p_recv_queue (k_procs k ! j))"
    and "n \<le> length (msg_items (p_recv_queue (k_procs k ! j)))"
    and "\<forall>x \<in> set (msg_items (p_recv_queue (k_procs k ! j))). length (snd x) = MSGSIZE"
  shows "\<exists>k'. recvs cur rec mess n k
    = Ok (map snd (drain msg_peek msg_advance n (p_recv_queue (k_procs k ! j)))) k'"
  using assms
proof (induction n arbitrary: k)
  case (Suc n)
  let ?q = "p_recv_queue (k_procs k ! j)"
  let ?k = "unlockpt c (k_mach k) (recv_take cur mess j (lockpt c k))"
  have ne: "msg_items ?q \<noteq> []" using Suc.prems(4) by auto
  have q: "p_recv_queue (k_procs ?k ! j) = msg_advance ?q"
    using sole_lt [OF Suc.prems(2)] by (simp add: recv_take_def Let_def)
  have it: "msg_items (msg_advance ?q) = tl (msg_items ?q)"
    by (rule msgq.items_advance [OF Suc.prems(3) ne])
  have "\<exists>k'. recvs cur rec mess n ?k
    = Ok (map snd (drain msg_peek msg_advance n (p_recv_queue (k_procs ?k ! j)))) k'"
  proof (rule Suc.IH)
    show "ready c ?k" "sole rec j (k_procs ?k)"
      using Suc.prems by (simp_all add: ready_after)
    show "msgq_ok (p_recv_queue (k_procs ?k ! j))"
      unfolding q by (rule msgq.ok_advance [OF Suc.prems(3)])
    show "n \<le> length (msg_items (p_recv_queue (k_procs ?k ! j)))"
      unfolding q it using Suc.prems(4) by simp
    show "\<forall>x\<in>set (msg_items (p_recv_queue (k_procs ?k ! j))). length (snd x) = MSGSIZE"
      unfolding q it using Suc.prems(5) ne by (meson list.set_sel(2))
  qed
  moreover have "mem_read (k_umem ?k cur) mess MSGSIZE = snd (msg_peek ?q)"
  proof -
    have "length (snd (msg_peek ?q)) = MSGSIZE"
      using Suc.prems(5) ne msgq.peek_hd [OF Suc.prems(3) ne] by simp
    then show ?thesis
      by (simp add: recv_take_def Let_def mem_read_write_same MSGSIZE_def)
  qed
  moreover have "recv_mess cur rec mess k = Ok 0 ?k"
    using Suc.prems(1-3) ne by (intro recv_mess_nonempty) (simp_all add: msgq.is_empty_iff)
  ultimately show ?case unfolding q by auto
qed simp

subsection \<open>A receiver resumed after a wakeup\<close>

lemma sole_chan [simp]:
  "sole pid i (ps[j := (ps ! j)\<lparr>p_chan := ch\<rparr>]) = sole pid i ps"
  by (rule sole_pids) (simp add: upd_pids [where f = "\<lambda>p. p\<lparr>p_chan := ch\<rparr>"])

lemma recv_resume_nonempty:
  assumes "in_section c m j k" "sole rec j (k_procs k)" "msgq_ok (p_recv_queue (k_procs k ! j))"
    and "msg_items (p_recv_queue (k_procs k ! j)) = [(sender, bs)]" and "length bs = MSGSIZE"
  shows "\<exists>k'. recv_resume j rec buf j ok ie k = Ok 0 k'
    \<and> mem_read (k_umem k' j) buf MSGSIZE = bs \<and> p_chan (k_procs k' ! j) = None
    \<and> msg_items (p_recv_queue (k_procs k' ! j)) = []"
proof -
  let ?k = "(procs_upd j (\<lambda>x. x\<lparr>p_chan := None\<rparr>) k)\<lparr>k_mach := pushed c (m\<lparr>fl_if := ie\<rparr>)\<rparr>"
  let ?q = "p_recv_queue (k_procs k ! j)"
  note lt = sole_lt [OF assms(2)]
  have on: "on_cpu c (m\<lparr>fl_if := ie\<rparr>)" and lk: "locked (k_ptlock k)" "lk_cpu (k_ptlock k) = Some c"
    using assms(1) by (simp_all add: in_section_def on_cpu_def)
  have ne: "msg_items ?q \<noteq> []" and pk: "msg_peek ?q = (sender, bs)"
    using assms(3,4) msgq.peek_hd [of ?q] by simp_all
  have up: "[j..<length (k_procs k)] = j # [Suc j..<length (k_procs k)]"
    using lt by (simp add: upt_conv_Cons)
  have loop: "recv_loop j rec buf [j..<length (k_procs k)] ok ?k = Ok True (recv_take j buf j ?k)"
    unfolding up using recv_loop_from [of rec j ?k j buf ok] assms(2,3) ne lt
    by (simp add: msgq.is_empty_iff del: recv_loop.simps)
  have "recv_resume j rec buf j ok ie k
      = Ok 0 (unlockpt c (m\<lparr>fl_if := ie\<rparr>) (recv_take j buf j ?k))"
    using loop on lk
    by (simp add: recv_resume_def sleep_return_section [OF assms(1)] recv_finish_def
        release_pt_held [of c "m\<lparr>fl_if := ie\<rparr>"])
  moreover have "mem_read (k_umem (recv_take j buf j ?k) j) buf MSGSIZE = bs"
    using lt assms(5) pk
    by (simp add: recv_take_def Let_def mem_read_write_same MSGSIZE_def)
  moreover have "p_chan (k_procs (recv_take j buf j ?k) ! j) = None"
    "p_recv_queue (k_procs (recv_take j buf j ?k) ! j) = msg_advance ?q"
    using lt by (simp_all add: recv_take_def Let_def)
  ultimately show ?thesis
    using msgq.items_advance [OF assms(3) ne] assms(4) by simp
qed

subsection \<open>One receiver of a multicast\<close>

definition mcast_to :: "int \<Rightarrow> int \<Rightarrow> byte list \<Rightarrow> nat \<Rightarrow> proc list \<Rightarrow> proc list" where
  "mcast_to mypid sender m j ps = signal_to mypid 1 j (ps[j := multi_put sender m (ps ! j)])"

lemma p_pid_multi_put [simp]: "p_pid (multi_put sender m p) = p_pid p"
  by (simp add: multi_put_def)

lemma sole_multi_put [simp]:
  "sole pid i (ps[j := multi_put sender m (ps ! j)]) = sole pid i ps"
  by (rule sole_pids) simp

lemma mcast_to_pids [simp]: "map p_pid (mcast_to mypid sender m j ps) = map p_pid ps"
  by (simp add: mcast_to_def)

lemma length_mcast_to [simp]: "length (mcast_to mypid sender m j ps) = length ps"
  by (simp add: mcast_to_def)

lemma mcast_to_nth:
  assumes "i < length ps"
  shows "p_recv_multi_queue (mcast_to mypid sender m j ps ! i) =
      (if i = j then msg_put (sender, m) (p_recv_multi_queue (ps ! i)) else p_recv_multi_queue (ps ! i))"
    "p_pending_signals (mcast_to mypid sender m j ps ! i) =
      (if i = j then sig_put (1, mypid) (p_pending_signals (ps ! i)) else p_pending_signals (ps ! i))"
    "p_pid (mcast_to mypid sender m j ps ! i) = p_pid (ps ! i)"
    "p_state (ps ! i) \<noteq> SLEEPING \<Longrightarrow> p_state (mcast_to mypid sender m j ps ! i) \<noteq> SLEEPING"
    "p_state (mcast_to mypid sender m i ps ! i) \<noteq> SLEEPING"
  using assms
  by (cases "i = j"; simp add: mcast_to_def signal_to_def Let_def wakeup1_nth multi_put_def)+

lemma multi_scan_skip:
  "\<forall>i \<in> set is. p_pid (k_procs k ! i) \<noteq> rec \<Longrightarrow>
   multi_scan sender rec m (is @ js) ok k = multi_scan sender rec m js ok k"
  by (induction "is") auto

lemma multi_scan_sole:
  assumes "on_cpu c mc" "k_mach k = pushed c mc" "cproc (cpus mc ! c) = Some me"
    "sole rec j (k_procs k)"
  shows "multi_scan sender rec m [0..<length (k_procs k)] ok k
    = Ok True (k\<lparr>k_procs := mcast_to (p_pid (k_procs k ! me)) sender m j (k_procs k)\<rparr>)"
proof -
  let ?k = "k\<lparr>k_procs := mcast_to (p_pid (k_procs k ! me)) sender m j (k_procs k)\<rparr>"
  have pid: "p_pid ((k_procs k)[j := multi_put sender m (k_procs k ! j)] ! me) = p_pid (k_procs k ! me)"
    using sole_lt [OF assms(4)] by (cases "me = j") simp_all
  have "send_signal rec 1 (procs_upd j (multi_put sender m) k) = Ok () ?k"
    using assms signal_loop_sole [of rec j "(k_procs k)[j := multi_put sender m (k_procs k ! j)]"]
    by (simp add: send_signal_def myproc_k_locked [of c mc] mcast_to_def pid)
  then have "multi_scan sender rec m [0..<length (k_procs k)] ok k
      = multi_scan sender rec m ([Suc j..<length (k_procs k)] @ []) True ?k"
    using multi_scan_skip [OF sole_split(2) [OF assms(4)], of sender m] sole_pid [OF assms(4)]
    by (simp add: sole_split(1) [OF assms(4)])
  also have "\<dots> = multi_scan sender rec m [] True ?k"
    using sole_split(3) [OF assms(4)] by (intro multi_scan_skip) (auto simp: mcast_to_nth(3))
  finally show ?thesis by simp
qed

lemma multi_loop_sole:
  assumes "ready c k" "cproc (cpus (k_mach k) ! c) = Some me" "me < length (k_procs k)"
    and "list_all2 (\<lambda>i j. sole (sint (ld32 (k_umem k cur) (rec_pids + 4 * of_nat i))) j (k_procs k)) is js"
  shows "\<exists>k'. multi_loop cur sender rec_pids msg is ok k = Ok (ok \<or> is \<noteq> []) k'
    \<and> ready c k' \<and> k_umem k' = k_umem k
    \<and> k_procs k' = fold (mcast_to (p_pid (k_procs k ! me)) sender (mem_read (k_umem k cur) msg MSGSIZE))
        js (k_procs k)"
  using assms
proof (induction "is" arbitrary: js ok k)
  case (Cons i "is")
  then obtain j js' where js: "js = j # js'" and sj: "sole (sint (ld32 (k_umem k cur) (rec_pids + 4 * of_nat i))) j (k_procs k)"
    and rest: "list_all2 (\<lambda>i j. sole (sint (ld32 (k_umem k cur) (rec_pids + 4 * of_nat i))) j (k_procs k)) is js'"
    by (auto simp: list_all2_Cons1)
  let ?m = "mem_read (k_umem k cur) msg MSGSIZE"
  let ?ps = "mcast_to (p_pid (k_procs k ! me)) sender ?m j (k_procs k)"
  let ?k = "unlockpt c (k_mach k) ((lockpt c k)\<lparr>k_procs := ?ps\<rparr>)"
  have on: "on_cpu c (k_mach k)" using Cons.prems(1) by (simp add: ready_def)
  have step: "multi_loop cur sender rec_pids msg (i # is) ok k = multi_loop cur sender rec_pids msg is True ?k"
    using Cons.prems(2) sj on multi_scan_sole [of c "k_mach k" "lockpt c k" me _ j sender ?m ok]
    by (simp add: acquire_pt_ready [OF Cons.prems(1)] release_pt_held [of c "k_mach k"])
  have "\<exists>k'. multi_loop cur sender rec_pids msg is True ?k = Ok (True \<or> is \<noteq> []) k'
    \<and> ready c k' \<and> k_umem k' = k_umem ?k
    \<and> k_procs k' = fold (mcast_to (p_pid (k_procs ?k ! me)) sender (mem_read (k_umem ?k cur) msg MSGSIZE))
        js' (k_procs ?k)"
  proof (rule Cons.IH)
    show "ready c ?k" by (rule ready_after [OF Cons.prems(1)])
    show "cproc (cpus (k_mach ?k) ! c) = Some me" using Cons.prems(2) on by (simp add: cproc_settled)
    show "list_all2 (\<lambda>i j. sole (sint (ld32 (k_umem ?k cur) (rec_pids + 4 * of_nat i))) j (k_procs ?k)) is js'"
      using rest sole_pids [of ?ps "k_procs k"] by simp
  qed (use Cons.prems(3) in simp)
  then show ?case
    unfolding step using Cons.prems(3) by (simp add: js mcast_to_nth(3))
qed auto

lemma mcast_fold_other:
  "i \<notin> set js \<Longrightarrow> i < length ps \<Longrightarrow>
   p_recv_multi_queue (fold (mcast_to mypid sender m) js ps ! i) = p_recv_multi_queue (ps ! i)
   \<and> p_pending_signals (fold (mcast_to mypid sender m) js ps ! i) = p_pending_signals (ps ! i)
   \<and> (p_state (ps ! i) \<noteq> SLEEPING \<longrightarrow> p_state (fold (mcast_to mypid sender m) js ps ! i) \<noteq> SLEEPING)"
  by (induction js arbitrary: ps) (auto simp: mcast_to_nth)

lemma mcast_fold_in:
  "distinct js \<Longrightarrow> i \<in> set js \<Longrightarrow> i < length ps \<Longrightarrow>
   p_recv_multi_queue (fold (mcast_to mypid sender m) js ps ! i)
     = msg_put (sender, m) (p_recv_multi_queue (ps ! i))
   \<and> p_pending_signals (fold (mcast_to mypid sender m) js ps ! i)
     = sig_put (1, mypid) (p_pending_signals (ps ! i))
   \<and> p_state (fold (mcast_to mypid sender m) js ps ! i) \<noteq> SLEEPING"
proof (induction js arbitrary: ps)
  case (Cons j js)
  show ?case
  proof (cases "i = j")
    case True
    with Cons.prems show ?thesis
      using mcast_fold_other [of j js "mcast_to mypid sender m j ps" mypid sender m]
      by (simp add: mcast_to_nth)
  next
    case False
    with Cons.prems Cons.IH [of "mcast_to mypid sender m j ps"] show ?thesis
      by (simp add: mcast_to_nth)
  qed
qed simp

subsection \<open>Pausing\<close>

lemma pause_signal_pending:
  assumes "ready c k" "cproc (cpus (k_mach k) ! c) = Some p"
    "\<not> sig_empty (p_pending_signals (k_procs k ! p))"
  shows "\<exists>k'. pause_signal k = Ok () k' \<and> k_procs k' = k_procs k \<and> k_umem k' = k_umem k \<and> ready c k'"
proof -
  have on: "on_cpu c (k_mach k)" using assms(1) by (simp add: ready_def)
  let ?k = "k\<lparr>k_mach := settled c (k_mach k)\<rparr>"
  have r: "ready c ?k" using assms(1) by (simp add: ready_def on_cpu_settled)
  show ?thesis
    using assms on ready_after [OF r]
    by (simp add: pause_signal_def myproc_k_on_cpu acquire_pt_ready [OF r] sig_empty_def Let_def
        release_pt_held [of c "settled c (k_mach k)"] on_cpu_settled)
qed

lemma pause_signal_empty:
  assumes "ready c k" "ncli (cpus (k_mach k) ! c) = 0" "cproc (cpus (k_mach k) ! c) = Some p"
    "p < length (k_procs k)" "sig_empty (p_pending_signals (k_procs k ! p))"
  shows "\<exists>k'. pause_signal k = Sleep (ChSignals p) k'
    \<and> k_procs k' = (k_procs k)[p := (k_procs k ! p)\<lparr>p_chan := Some (ChSignals p), p_state := SLEEPING\<rparr>]"
proof -
  have on: "on_cpu c (k_mach k)" using assms(1) by (simp add: ready_def)
  let ?k = "k\<lparr>k_mach := settled c (k_mach k)\<rparr>"
  have r: "ready c ?k" using assms(1) by (simp add: ready_def on_cpu_settled)
  have "in_section c (k_mach ?k) p (lockpt c ?k)"
    using assms on by (intro in_section_lockpt [OF r]) (simp_all add: ncli_settled cproc_settled)
  from sleep_enter_section [OF this, of "ChSignals p"] show ?thesis
    using assms on
    by (simp add: pause_signal_def myproc_k_on_cpu acquire_pt_ready [OF r] sig_empty_def Let_def)
qed

lemma signal_to_self:
  assumes "j < length ps"
  shows "p_pending_signals (signal_to sender n j ps ! j) = sig_put (n, sender) (p_pending_signals (ps ! j))"
    "p_state (signal_to sender n j ps ! j)
      = (if p_state (ps ! j) = SLEEPING then RUNNABLE else p_state (ps ! j))"
  using assms by (simp_all add: signal_to_def Let_def wakeup1_nth)

lemma send_signal_sole:
  assumes "on_cpu c (k_mach k)" "cproc (cpus (k_mach k) ! c) = Some me" "sole to j (k_procs k)"
  shows "\<exists>k'. send_signal to n k = Ok () k'
    \<and> k_procs k' = signal_to (p_pid (k_procs k ! me)) n j (k_procs k)"
  using assms by (simp add: send_signal_def myproc_k_on_cpu signal_loop_sole)

subsection \<open>Properties\<close>

text \<open>A small table to run the operations on: the caller, a receiver and a third process.\<close>

definition empty_msgq :: message_list where
  "empty_msgq = \<lparr>sender_id = replicate NUM_MSG 0, messages = replicate NUM_MSG (replicate MSGSIZE 0),
     mq_head = 0, mq_tail = 0\<rparr>"

definition empty_sigq :: signals where
  "empty_sigq = \<lparr>sig_num = replicate MAX_SIG 0, s_pid = replicate MAX_SIG 0, sg_head = 0, sg_tail = 0\<rparr>"

definition demo_tf :: trapframe where
  "demo_tf = \<lparr>tf_edi = 1, tf_esi = 2, tf_ebp = 3, tf_oesp = 4, tf_ebx = 5, tf_edx = 6, tf_ecx = 7,
     tf_eax = 8, tf_gs = 0, tf_padding1 = 0, tf_fs = 0, tf_padding2 = 0, tf_es = 0x23,
     tf_padding3 = 0, tf_ds = 0x23, tf_padding4 = 0, tf_trapno = 64, tf_err = 0, tf_eip = 0x100,
     tf_cs = 0x1b, tf_padding5 = 0, tf_eflags = 0x200, tf_esp = 0x2f00, tf_ss = 0x23,
     tf_padding6 = 0\<rparr>"

definition demo_proc :: "int \<Rightarrow> procstate \<Rightarrow> proc" where
  "demo_proc pid st = \<lparr>p_sz = 0x3000, p_pgdir = 0x1000, p_kstack = 0x2000, p_state = st, p_pid = pid,
     p_parent = None, p_tf = demo_tf, p_chan = None, p_killed = False, p_ofile = [],
     p_cwd = None, p_name = [], p_recv_queue = empty_msgq, p_recv_multi_queue = empty_msgq,
     p_handler = 0x40, p_pending_signals = empty_sigq, p_handling = False\<rparr>"

definition demo_k :: kstate where
  "demo_k = \<lparr>k_mach = demo_mach, k_ptlock = initlock ''ptable'',
     k_procs = [demo_proc 1 RUNNING, demo_proc 2 RUNNABLE, demo_proc 3 RUNNABLE],
     k_nextpid = 4, k_initproc = Some 0, k_umem = (\<lambda>_ _. 7)\<rparr>"

lemma msgq_ok_empty [simp]: "msgq_ok empty_msgq" "msg_items empty_msgq = []" "msg_empty empty_msgq"
  by (simp_all add: empty_msgq_def msgq_ok_def msg_items_def ring_list_def ring_len_def msg_empty_def)

lemma sigq_ok_empty [simp]: "sigq_ok empty_sigq" "sig_items empty_sigq = []" "sig_empty empty_sigq"
  by (simp_all add: empty_sigq_def sigq_ok_def sig_items_def ring_list_def ring_len_def sig_empty_def)

lemma demo_proc_simps [simp]:
  "p_pid (demo_proc a st) = a" "p_state (demo_proc a st) = st"
  "p_recv_queue (demo_proc a st) = empty_msgq" "p_recv_multi_queue (demo_proc a st) = empty_msgq"
  "p_pending_signals (demo_proc a st) = empty_sigq" "p_tf (demo_proc a st) = demo_tf"
  "p_handling (demo_proc a st) = False" "p_chan (demo_proc a st) = None"
  "p_handler (demo_proc a st) = 0x40" "p_sz (demo_proc a st) = 0x3000"
  "p_pgdir (demo_proc a st) = 0x1000" "p_kstack (demo_proc a st) = 0x2000"
  by (simp_all add: demo_proc_def)

lemma demo_k_simps [simp]:
  "k_mach demo_k = demo_mach" "k_umem demo_k = (\<lambda>_ _. 7)"
  "k_procs demo_k = [demo_proc 1 RUNNING, demo_proc 2 RUNNABLE, demo_proc 3 RUNNABLE]"
  "ready 0 demo_k"
  by (simp_all add: demo_k_def ready_def initlock_def)

lemma demo_sole [simp]:
  "sole 1 0 [demo_proc 1 RUNNING, demo_proc 2 RUNNABLE, demo_proc 3 RUNNABLE]"
  "sole 2 (Suc 0) [demo_proc 1 RUNNING, demo_proc 2 RUNNABLE, demo_proc 3 RUNNABLE]"
  "sole 3 2 [demo_proc 1 RUNNING, demo_proc 2 RUNNABLE, demo_proc 3 RUNNABLE]"
  by (auto simp: sole_def less_Suc_eq numeral_3_eq_3)

text \<open>
  Claim C5. Messages arrive in order. Up to 31 messages sent with \<^verbatim>\<open>send_mess\<close> to a process whose
  queue is empty, by any processes, are all read back by as many calls of \<^verbatim>\<open>recv_mess\<close>, each with
  the eight bytes its sender had at the address it passed, in the order of sending.
\<close>

theorem send_recv_fifo:
  assumes "ready c k" and "sole rec j (k_procs k)"
    and "msgq_ok (p_recv_queue (k_procs k ! j))" and "msg_empty (p_recv_queue (k_procs k ! j))"
    and "length xs < NUM_MSG"
  shows "\<exists>k'. bindk (sends rec xs k) (\<lambda>_. recvs cur rec buf (length xs))
    = Ok (map (\<lambda>(cur, sender, mess). mem_read (k_umem k cur) mess MSGSIZE) xs) k'"
proof -
  let ?q = "p_recv_queue (k_procs k ! j)"
  define ys where "ys = map (\<lambda>(cur, sender, mess). (sender, mem_read (k_umem k cur) mess MSGSIZE)) xs"
  have len: "length ys = length xs" and sz: "\<forall>x \<in> set ys. length (snd x) = MSGSIZE"
    by (auto simp: ys_def)
  obtain k1 where k1: "sends rec xs k = Ok () k1" "ready c k1" "sole rec j (k_procs k1)"
    "p_recv_queue (k_procs k1 ! j) = fold msg_put ys ?q"
    using sends_sole [OF assms(1,2)] unfolding ys_def by blast
  have e: "msg_items ?q = []" using assms(3,4) by (simp add: msgq.is_empty_iff)
  have it: "msg_items (fold msg_put ys ?q) = ys"
    using msgq.items_fold_put [OF assms(3), of ys] e assms(5) len by simp
  have "\<exists>k'. recvs cur rec buf (length xs) k1
      = Ok (map snd (drain msg_peek msg_advance (length xs) (fold msg_put ys ?q))) k'"
    using recvs_sole [OF k1(2,3), of "length xs" cur buf] msgq.ok_fold_put [OF assms(3), of ys]
    by (simp add: k1(4) it len sz)
  moreover have "drain msg_peek msg_advance (length xs) (fold msg_put ys ?q) = ys"
    using msgq.fifo_order [OF assms(3) e, of ys] assms(5) len by simp
  moreover have "map snd ys = map (\<lambda>(cur, sender, mess). mem_read (k_umem k cur) mess MSGSIZE) xs"
    by (simp add: ys_def case_prod_unfold comp_def)
  ultimately show ?thesis by (simp add: k1(1))
qed

theorem send_recv_fifo_witness:
  "\<exists>k'. bindk (sends 2 [(0, 1, 0x10), (2, 3, 0x20)] demo_k) (\<lambda>_. recvs 1 2 0x80 2)
    = Ok [replicate 8 7, replicate 8 7] k'"
  using send_recv_fifo [of 0 demo_k 2 1 "[(0, 1, 0x10), (2, 3, 0x20)]" 1 "0x80"]
  by (simp add: mem_read_def MSGSIZE_def map_replicate_const NUM_MSG_def numeral_2_eq_2)

text \<open>
  Delivery. \<^verbatim>\<open>send_mess\<close> to an existing process whose queue has room returns 0, appends
  exactly the pair of the sender's pid and the eight bytes at \<^verbatim>\<open>mess\<close> to its queue, makes it
  runnable if it slept, and changes the queue of no other process, no user memory and no pid.
\<close>

theorem send_mess_delivers:
  assumes "ready c k" and "sole rec j (k_procs k)"
    and "msgq_ok (p_recv_queue (k_procs k ! j))"
    and "Suc (length (msg_items (p_recv_queue (k_procs k ! j)))) < NUM_MSG"
  shows "\<exists>k'. send_mess cur sender rec mess k = Ok 0 k' \<and> ready c k' \<and> k_umem k' = k_umem k
    \<and> map p_pid (k_procs k') = map p_pid (k_procs k)
    \<and> msg_items (p_recv_queue (k_procs k' ! j))
        = msg_items (p_recv_queue (k_procs k ! j)) @ [(sender, mem_read (k_umem k cur) mess MSGSIZE)]
    \<and> p_state (k_procs k' ! j) =
        (if p_state (k_procs k ! j) = SLEEPING then RUNNABLE else p_state (k_procs k ! j))
    \<and> (\<forall>i < length (k_procs k). i \<noteq> j \<longrightarrow> p_recv_queue (k_procs k' ! i) = p_recv_queue (k_procs k ! i))"
  using send_mess_sole [OF assms(1,2)] sole_lt [OF assms(2)] assms
  by (simp add: ready_after p_recv_queue_send_to msgq.items_put send_to_self Let_def)

theorem send_mess_delivers_witness:
  "\<exists>k'. send_mess 0 1 2 0x10 demo_k = Ok 0 k' \<and> ready 0 k'
    \<and> msg_items (p_recv_queue (k_procs k' ! 1)) = [(1, replicate 8 7)]"
  using send_mess_delivers [of 0 demo_k 2 1 0 1 "0x10"]
  by (auto simp: mem_read_def MSGSIZE_def map_replicate_const NUM_MSG_def)



text \<open>
  Claim C10. No lost wakeup. A process that calls \<^verbatim>\<open>recv_mess\<close> on its own empty queue goes to sleep
  (it does not return). A later \<^verbatim>\<open>send_mess\<close> to it, run while it sleeps, makes it runnable; and
  when the scheduler resumes it, its call returns 0 with the sender's eight bytes in its buffer and
  an empty queue.
\<close>

theorem recv_mess_blocks_until_sent:
  assumes "ready c k" and "ncli (cpus (k_mach k) ! c) = 0"
    and "cproc (cpus (k_mach k) ! c) = Some j" and "sole rec j (k_procs k)"
    and "msgq_ok (p_recv_queue (k_procs k ! j))" and "msg_empty (p_recv_queue (k_procs k ! j))"
  shows "\<exists>k1. recv_mess j rec buf k = Sleep (ChRecv j) k1 \<and> p_state (k_procs k1 ! j) = SLEEPING
    \<and> (\<forall>c2 k2 cur sender mess. ready c2 k2 \<and> map p_pid (k_procs k2) = map p_pid (k_procs k1)
          \<and> k_procs k2 ! j = k_procs k1 ! j \<longrightarrow>
       (\<exists>k3. send_mess cur sender rec mess k2 = Ok 0 k3 \<and> p_state (k_procs k3 ! j) = RUNNABLE
        \<and> (\<forall>c4 m4 k4 ie. in_section c4 m4 j k4 \<and> map p_pid (k_procs k4) = map p_pid (k_procs k3)
              \<and> k_procs k4 ! j = (k_procs k3 ! j)\<lparr>p_state := RUNNING\<rparr> \<longrightarrow>
           (\<exists>k5. recv_resume j rec buf j False ie k4 = Ok 0 k5
             \<and> mem_read (k_umem k5 j) buf MSGSIZE = mem_read (k_umem k2 cur) mess MSGSIZE
             \<and> msg_items (p_recv_queue (k_procs k5 ! j)) = []))))"
proof -
  note lt = sole_lt [OF assms(4)]
  let ?q = "p_recv_queue (k_procs k ! j)"
  let ?k1 = "procs_upd j (\<lambda>x. x\<lparr>p_chan := Some (ChRecv j), p_state := SLEEPING\<rparr>) (lockpt c k)"
  have it: "msg_items ?q = []" using assms(5,6) by (simp add: msgq.is_empty_iff)
  have pids: "map p_pid (k_procs ?k1) = map p_pid (k_procs k)"
    by (simp add: upd_pids [where f = "\<lambda>x. x\<lparr>p_chan := Some (ChRecv j), p_state := SLEEPING\<rparr>"])
  have "\<exists>k3. send_mess cur sender rec mess k2 = Ok 0 k3 \<and> p_state (k_procs k3 ! j) = RUNNABLE
      \<and> (\<forall>c4 m4 k4 ie. in_section c4 m4 j k4 \<and> map p_pid (k_procs k4) = map p_pid (k_procs k3)
            \<and> k_procs k4 ! j = (k_procs k3 ! j)\<lparr>p_state := RUNNING\<rparr> \<longrightarrow>
         (\<exists>k5. recv_resume j rec buf j False ie k4 = Ok 0 k5
           \<and> mem_read (k_umem k5 j) buf MSGSIZE = mem_read (k_umem k2 cur) mess MSGSIZE
           \<and> msg_items (p_recv_queue (k_procs k5 ! j)) = []))"
    if h: "ready c2 k2" "map p_pid (k_procs k2) = map p_pid (k_procs ?k1)"
      "k_procs k2 ! j = k_procs ?k1 ! j" for c2 k2 cur sender mess
  proof -
    let ?m = "mem_read (k_umem k2 cur) mess MSGSIZE"
    let ?k3 = "unlockpt c2 (k_mach k2) ((lockpt c2 k2)\<lparr>k_procs := send_to sender ?m j (k_procs k2)\<rparr>)"
    have s2: "sole rec j (k_procs k2)" using assms(4) h(2) pids sole_pids by metis
    have p2: "p_state (k_procs k2 ! j) = SLEEPING" "p_recv_queue (k_procs k2 ! j) = ?q"
      using h(3) lt by simp_all
    have q3: "p_recv_queue (k_procs ?k3 ! j) = msg_put (sender, ?m) ?q"
      "p_state (k_procs ?k3 ! j) = RUNNABLE"
      using sole_lt [OF s2] p2 by (simp_all add: p_recv_queue_send_to send_to_self Let_def)
    have i3: "msg_items (msg_put (sender, ?m) ?q) = [(sender, ?m)]"
      using msgq.items_put [OF assms(5)] it by (simp add: NUM_MSG_def)
    have "\<exists>k5. recv_resume j rec buf j False ie k4 = Ok 0 k5 \<and> mem_read (k_umem k5 j) buf MSGSIZE = ?m
        \<and> msg_items (p_recv_queue (k_procs k5 ! j)) = []"
      if h4: "in_section c4 m4 j k4" "map p_pid (k_procs k4) = map p_pid (k_procs ?k3)"
        "k_procs k4 ! j = (k_procs ?k3 ! j)\<lparr>p_state := RUNNING\<rparr>" for c4 m4 k4 ie
      using recv_resume_nonempty [OF h4(1), of rec sender ?m buf False ie] s2 h4(2,3) q3 i3
        msgq.ok_put [OF assms(5)] sole_pids [of "k_procs k4" "k_procs ?k3"] by auto
    then show ?thesis using send_mess_sole [OF h(1) s2] q3 by blast
  qed
  moreover have "p_state (k_procs ?k1 ! j) = SLEEPING" using lt by simp
  ultimately show ?thesis
    using recv_mess_empty [OF assms(1-3) lt assms(4,6), of j buf] by blast
qed

theorem recv_mess_blocks_until_sent_witness:
  "\<exists>k1. recv_mess 0 1 0x80 demo_k = Sleep (ChRecv 0) k1 \<and> p_state (k_procs k1 ! 0) = SLEEPING"
  using recv_mess_blocks_until_sent [of 0 demo_k 0 1 "0x80"] by auto


definition demo_mcast :: kstate where
  "demo_mcast = demo_k\<lparr>k_umem := (\<lambda>_. st32 (st32 (\<lambda>_. 7) 0x104 3) 0x100 2)\<rparr>"

lemma demo_mcast_simps [simp]:
  "k_mach demo_mcast = demo_mach" "ready 0 demo_mcast"
  "k_umem demo_mcast = (\<lambda>_. st32 (st32 (\<lambda>_. 7) 0x104 3) 0x100 2)"
  "k_procs demo_mcast = [demo_proc 1 RUNNING, demo_proc 2 RUNNABLE, demo_proc 3 RUNNABLE]"
  using demo_k_simps(4) by (simp_all add: demo_mcast_def ready_def del: demo_k_simps(4))




text \<open>
  Unknown pids. Sending to or receiving for a pid that no table entry has returns -1 and
  changes no process and no user memory.
\<close>

theorem send_recv_unknown_pid:
  assumes "ready c k" and "absent rec (k_procs k)"
  shows "\<exists>k'. send_mess cur sender rec mess k = Ok (-1) k' \<and> recv_mess cur rec mess k = Ok (-1) k'
    \<and> ready c k' \<and> k_procs k' = k_procs k \<and> k_umem k' = k_umem k"
proof -
  have same: "(lockpt c k)\<lparr>k_procs := k_procs k\<rparr> = lockpt c k" by (simp add: lockpt_def)
  show ?thesis
    using recv_mess_absent [OF assms] assms
    by (simp add: send_mess_ready send_loop_absent ready_after same)
qed

theorem send_recv_unknown_pid_witness:
  "absent 9 (k_procs demo_k)
   \<and> (\<exists>k'. send_mess 0 1 9 0 demo_k = Ok (-1) k' \<and> k_procs k' = k_procs demo_k)"
proof -
  have "absent 9 (k_procs demo_k)" by (auto simp: absent_def less_Suc_eq)
  with send_recv_unknown_pid [of 0 demo_k 9 0 1 0] show ?thesis by auto
qed

end
