(* ===== verification/Signal.thy ===== *)
theory Signal
  imports Ipc
begin

text \<open>
  Delivery of signals: \<^verbatim>\<open>handle_signals\<close>, which \<^verbatim>\<open>trapasm.S\<close> calls on every return from a trap, and
  \<^verbatim>\<open>ret_signal\<close>, which the code at the handler's return address reaches through a system call.

  \<^verbatim>\<open>handle_signals\<close> pushes the trapframe, the code of \<^verbatim>\<open>sigretcode.S\<close>, a message, a pointer to it and
  a return address on the user stack. The assembled code is a parameter \<open>code\<close>; \<^verbatim>\<open>memmove\<close> of a
  structure is a copy of its bytes.
\<close>

subsection \<open>The trapframe as bytes\<close>

definition tf_bytes :: "trapframe \<Rightarrow> byte list" where
  "tf_bytes tf = le_bytes (tf_edi tf) @ le_bytes (tf_esi tf) @ le_bytes (tf_ebp tf)
     @ le_bytes (tf_oesp tf) @ le_bytes (tf_ebx tf) @ le_bytes (tf_edx tf) @ le_bytes (tf_ecx tf)
     @ le_bytes (tf_eax tf)
     @ le16_bytes (tf_gs tf) @ le16_bytes (tf_padding1 tf) @ le16_bytes (tf_fs tf)
     @ le16_bytes (tf_padding2 tf) @ le16_bytes (tf_es tf) @ le16_bytes (tf_padding3 tf)
     @ le16_bytes (tf_ds tf) @ le16_bytes (tf_padding4 tf) @ le_bytes (tf_trapno tf)
     @ le_bytes (tf_err tf) @ le_bytes (tf_eip tf) @ le16_bytes (tf_cs tf)
     @ le16_bytes (tf_padding5 tf) @ le_bytes (tf_eflags tf)
     @ le_bytes (tf_esp tf) @ le16_bytes (tf_ss tf) @ le16_bytes (tf_padding6 tf)"

definition w32 :: "nat \<Rightarrow> byte list \<Rightarrow> uint" where
  "w32 n bs = of_le (take 4 (drop n bs))"

definition w16 :: "nat \<Rightarrow> byte list \<Rightarrow> ushort" where
  "w16 n bs = of_le16 (take 2 (drop n bs))"

definition tf_of_bytes :: "byte list \<Rightarrow> trapframe" where
  "tf_of_bytes bs = \<lparr>tf_edi = w32 0 bs, tf_esi = w32 4 bs, tf_ebp = w32 8 bs, tf_oesp = w32 12 bs,
     tf_ebx = w32 16 bs, tf_edx = w32 20 bs, tf_ecx = w32 24 bs, tf_eax = w32 28 bs,
     tf_gs = w16 32 bs, tf_padding1 = w16 34 bs, tf_fs = w16 36 bs, tf_padding2 = w16 38 bs,
     tf_es = w16 40 bs, tf_padding3 = w16 42 bs, tf_ds = w16 44 bs, tf_padding4 = w16 46 bs,
     tf_trapno = w32 48 bs, tf_err = w32 52 bs, tf_eip = w32 56 bs, tf_cs = w16 60 bs,
     tf_padding5 = w16 62 bs, tf_eflags = w32 64 bs, tf_esp = w32 68 bs, tf_ss = w16 72 bs,
     tf_padding6 = w16 74 bs\<rparr>"

definition TF_SIZE :: nat where "TF_SIZE = 76"

lemma length_tf_bytes [simp]: "length (tf_bytes tf) = TF_SIZE"
  by (simp add: tf_bytes_def TF_SIZE_def)

lemma w32_here: "w32 0 (le_bytes w @ bs) = w"
  by (simp add: w32_def)

lemma w16_here: "w16 0 (le16_bytes w @ bs) = w"
  by (simp add: w16_def)

lemma w32_skip:
  "4 \<le> n \<Longrightarrow> w32 n (le_bytes w @ bs) = w32 (n - 4) bs" "2 \<le> n \<Longrightarrow> w32 n (le16_bytes h @ bs) = w32 (n - 2) bs"
  by (simp_all add: w32_def)

lemma w16_skip:
  "4 \<le> n \<Longrightarrow> w16 n (le_bytes w @ bs) = w16 (n - 4) bs" "2 \<le> n \<Longrightarrow> w16 n (le16_bytes h @ bs) = w16 (n - 2) bs"
  by (simp_all add: w16_def)

lemma w16_last: "w16 0 (le16_bytes w) = w"
  by (simp add: w16_def)

lemma tf_of_bytes_tf_bytes [simp]: "tf_of_bytes (tf_bytes tf) = tf"
  by (simp add: tf_of_bytes_def tf_bytes_def w32_here w16_here w32_skip w16_skip w16_last)

subsection \<open>The operations\<close>

definition DPL_USER :: ushort where "DPL_USER = 3"

text \<open>The user stack that \<^verbatim>\<open>handle_signals\<close> builds below \<open>sp0\<close>, and the final stack pointer.\<close>

definition sig_frame ::
  "byte list \<Rightarrow> trapframe \<Rightarrow> byte list \<Rightarrow> mem \<Rightarrow> mem \<times> uint" where
  "sig_frame code tf msg um =
     (let sp1 = tf_esp tf - of_nat TF_SIZE;
          um = mem_write um sp1 (tf_bytes tf);
          sp2 = sp1 - of_nat (length code);
          code_pointer = sp2;
          um = mem_write um sp2 code;
          sp3 = sp2 - 8;
          um = mem_write um sp3 msg;
          um = st32 um (sp3 - 4) sp3;
          um = st32 um (sp3 - 8) code_pointer
      in (um, sp3 - 8))"

definition handle_signals ::
  "byte list \<Rightarrow> trapframe \<Rightarrow> 'z kstate_scheme \<Rightarrow> (unit, 'z kstate_scheme) kres" where
  "handle_signals code tf k =
     bindk (myproc_k k) (\<lambda>p k.
       (case p of None \<Rightarrow> Ok () k | Some p \<Rightarrow>
        let pr = k_procs k ! p; sq = p_pending_signals pr; mq = p_recv_multi_queue pr in
        if p_handling pr then Ok () k
        else if tf_cs tf AND 3 \<noteq> DPL_USER then Ok () k
        else if sg_head sq = sg_tail sq then Ok () k
        else
          let (um, sp) = sig_frame code (p_tf pr) (messages mq ! mq_head mq) (k_umem k p)
          in Ok () (procs_upd p (\<lambda>pr. pr\<lparr>p_handling := True,
                 p_recv_multi_queue := msg_advance mq,
                 p_tf := (p_tf pr)\<lparr>tf_esp := sp, tf_eip := p_handler pr\<rparr>,
                 p_pending_signals := sig_advance sq\<rparr>)
               (k\<lparr>k_umem := (k_umem k)(p := um)\<rparr>))))"

definition ret_signal :: "byte list \<Rightarrow> 'z kstate_scheme \<Rightarrow> (unit, 'z kstate_scheme) kres" where
  "ret_signal code k =
     bindk (acquire_pt k) (\<lambda>_ k.
     bindk (myproc_k k) (\<lambda>p k.
       (case p of None \<Rightarrow> Panic ''trap'' | Some p \<Rightarrow>
        let original = tf_esp (p_tf (k_procs k ! p)) + 12 + of_nat (length code) in
        release_pt (procs_upd p (\<lambda>pr. pr\<lparr>
            p_tf := tf_of_bytes (mem_read (k_umem k p) original TF_SIZE),
            p_handling := False\<rparr>) k))))"

subsection \<open>The stack frame\<close>

lemma sig_frame_esp:
  "snd (sig_frame code tf msg um) = tf_esp tf - of_nat TF_SIZE - of_nat (length code) - 16"
  by (simp add: sig_frame_def Let_def)

text \<open>What the handler finds, relative to the stack pointer \<open>sp\<close> it starts with.\<close>

definition frame_ok :: "byte list \<Rightarrow> trapframe \<Rightarrow> byte list \<Rightarrow> mem \<Rightarrow> uint \<Rightarrow> bool" where
  "frame_ok code tf msg um sp \<longleftrightarrow>
     ld32 um sp = sp + 16 \<and> mem_read um (sp + 16) (length code) = code
     \<and> ld32 um (sp + 4) = sp + 8 \<and> mem_read um (sp + 8) MSGSIZE = msg
     \<and> mem_read um (sp + 16 + of_nat (length code)) TF_SIZE = tf_bytes tf"

lemma frame_ok_sig_frame:
  assumes "length msg = MSGSIZE" "length code < 4096"
  shows "case_prod (frame_ok code tf msg) (sig_frame code tf msg um)"
proof -
  let ?n = "length code"
  define sp where "sp = tf_esp tf - of_nat TF_SIZE - of_nat ?n - 16"
  have e: "tf_esp tf - of_nat TF_SIZE = sp + 16 + of_nat ?n"
    "sp + 16 + of_nat ?n - of_nat ?n - 8 = sp + 8" "sp + 8 - 4 = sp + 4" "sp + 8 - 8 = sp"
    by (simp_all add: sp_def)
  define u1 where "u1 = mem_write um (sp + 16 + of_nat ?n) (tf_bytes tf)"
  define u2 where "u2 = mem_write u1 (sp + 16) code"
  define u3 where "u3 = mem_write u2 (sp + 8) msg"
  define u4 where "u4 = st32 u3 (sp + 4) (sp + 8)"
  define u5 where "u5 = st32 u4 sp (sp + 16)"
  have fr: "sig_frame code tf msg um = (u5, sp)"
    by (simp add: sig_frame_def Let_def e u1_def u2_def u3_def u4_def u5_def add.commute)
  have l3: "length msg = 8" using assms(1) by (simp add: MSGSIZE_def)
  have n32: "?n \<le> 2 ^ 32" using assms(2) by simp
  have ret: "ld32 u5 sp = sp + 16" by (simp add: u5_def)
  have ptr: "ld32 u5 (sp + 4) = sp + 8"
    using disjoint_ranges_offset [of 4 4 4 sp] by (simp add: u5_def u4_def ld32_st32_other)
  have "mem_read u5 (sp + 8) 8 = mem_read u3 (sp + 8) 8"
    by (simp add: u5_def u4_def mem_read_above_st32 [of _ _ 8] mem_read_above_st32 [of _ _ 4])
  then have msg: "mem_read u5 (sp + 8) MSGSIZE = msg"
    using l3 by (simp add: MSGSIZE_def u3_def mem_read_write_same)
  have "mem_read u5 (sp + 16) ?n = mem_read u2 (sp + 16) ?n"
    using assms(2) l3 by (simp add: u5_def u4_def u3_def mem_read_above_st32 [of _ _ 16]
        mem_read_above_st32 [of _ _ 12] mem_read_above [of _ _ 8])
  then have code: "mem_read u5 (sp + 16) ?n = code"
    using n32 by (simp add: u2_def mem_read_write_same)
  have "mem_read u5 (sp + 16 + of_nat ?n) TF_SIZE = mem_read u1 (sp + 16 + of_nat ?n) TF_SIZE"
    using assms(2) l3 by (simp add: u5_def u4_def u3_def u2_def TF_SIZE_def
        mem_read_above_st32 [of _ sp "16 + ?n"] mem_read_above_st32 [of _ "sp + 4" "12 + ?n"]
        mem_read_above [of _ "sp + 8" "8 + ?n"] mem_read_above [of _ "sp + 16" ?n])
  then have "mem_read u5 (sp + 16 + of_nat ?n) TF_SIZE = tf_bytes tf"
    by (simp add: u1_def mem_read_write_same TF_SIZE_def)
  then show ?thesis using fr ret ptr msg code by (simp add: frame_ok_def)
qed

subsection \<open>Delivery\<close>

lemma handle_signals_delivers:
  assumes "on_cpu c (k_mach k)" "cproc (cpus (k_mach k) ! c) = Some p" "p < length (k_procs k)"
    and "\<not> p_handling (k_procs k ! p)" "tf_cs tf AND 3 = DPL_USER"
    and "\<not> sig_empty (p_pending_signals (k_procs k ! p))"
    and "sig_frame code (p_tf (k_procs k ! p)) (snd (msg_peek (p_recv_multi_queue (k_procs k ! p))))
           (k_umem k p) = (um, sp)"
  shows "\<exists>k'. handle_signals code tf k = Ok () k' \<and> k_umem k' = (k_umem k)(p := um)
    \<and> k_procs k' = (k_procs k)[p := (k_procs k ! p)\<lparr>p_handling := True,
         p_recv_multi_queue := msg_advance (p_recv_multi_queue (k_procs k ! p)),
         p_tf := (p_tf (k_procs k ! p))\<lparr>tf_esp := sp, tf_eip := p_handler (k_procs k ! p)\<rparr>,
         p_pending_signals := sig_advance (p_pending_signals (k_procs k ! p))\<rparr>]"
  using assms
  by (simp add: handle_signals_def myproc_k_on_cpu Let_def sig_empty_def msg_peek_def)

lemma ret_signal_ready:
  assumes "ready c k" "cproc (cpus (k_mach k) ! c) = Some p" "p < length (k_procs k)"
  shows "\<exists>k'. ret_signal code k = Ok () k' \<and> k_umem k' = k_umem k
    \<and> k_procs k' = (k_procs k)[p := (k_procs k ! p)\<lparr>
        p_tf := tf_of_bytes (mem_read (k_umem k p)
          (tf_esp (p_tf (k_procs k ! p)) + 12 + of_nat (length code)) TF_SIZE),
        p_handling := False\<rparr>]"
  using assms
  by (simp add: ret_signal_def acquire_pt_ready [OF assms(1)] myproc_k_locked [of c "k_mach k"]
      ready_def Let_def release_pt_held [of c "k_mach k"])

text \<open>
  Claim C9. Delivering a signal and returning from the handler. \<^verbatim>\<open>handle_signals\<close>, for a process in
  user mode that is not handling a signal and has one pending, takes the signal and the oldest
  multicast message and starts the handler on a stack that holds, from its stack pointer up, the
  address of the sigret code, a pointer to the message, the message, the code and the interrupted
  trapframe. When the handler has returned into the code (one word popped) and the saved frame is
  intact, \<^verbatim>\<open>ret_signal\<close> restores the interrupted trapframe exactly and lets the next signal in.
\<close>

theorem signal_delivery_roundtrip:
  assumes "on_cpu c (k_mach k)" and "cproc (cpus (k_mach k) ! c) = Some p"
    and "p < length (k_procs k)" and "\<not> p_handling (k_procs k ! p)"
    and "tf_cs tf AND 3 = DPL_USER" and "length code < 4096"
    and "sigq_ok (p_pending_signals (k_procs k ! p))"
    and "sig_items (p_pending_signals (k_procs k ! p)) = s # ss"
    and "msgq_ok (p_recv_multi_queue (k_procs k ! p))"
    and "msg_items (p_recv_multi_queue (k_procs k ! p)) = (sender, msg) # ms"
    and "length msg = MSGSIZE"
  shows "\<exists>k1. handle_signals code tf k = Ok () k1
    \<and> tf_eip (p_tf (k_procs k1 ! p)) = p_handler (k_procs k ! p) \<and> p_handling (k_procs k1 ! p)
    \<and> sig_items (p_pending_signals (k_procs k1 ! p)) = ss
    \<and> msg_items (p_recv_multi_queue (k_procs k1 ! p)) = ms
    \<and> frame_ok code (p_tf (k_procs k ! p)) msg (k_umem k1 p) (tf_esp (p_tf (k_procs k1 ! p)))
    \<and> (\<forall>c2 k2. ready c2 k2 \<and> cproc (cpus (k_mach k2) ! c2) = Some p \<and> p < length (k_procs k2)
         \<and> tf_esp (p_tf (k_procs k2 ! p)) = tf_esp (p_tf (k_procs k1 ! p)) + 4
         \<and> frame_ok code (p_tf (k_procs k ! p)) msg (k_umem k2 p) (tf_esp (p_tf (k_procs k1 ! p))) \<longrightarrow>
        (\<exists>k3. ret_signal code k2 = Ok () k3 \<and> p_tf (k_procs k3 ! p) = p_tf (k_procs k ! p)
          \<and> \<not> p_handling (k_procs k3 ! p)))"
proof -
  let ?pr = "k_procs k ! p"
  obtain um sp where fr: "sig_frame code (p_tf ?pr) msg (k_umem k p) = (um, sp)" by fastforce
  have ok: "frame_ok code (p_tf ?pr) msg um sp"
    using frame_ok_sig_frame [OF assms(11,6), of "p_tf ?pr" "k_umem k p"] fr by simp
  have "msg_peek (p_recv_multi_queue ?pr) = (sender, msg)"
    using msgq.peek_hd [OF assms(9)] assms(10) by simp
  moreover have "\<not> sig_empty (p_pending_signals ?pr)"
    using assms(7,8) by (simp add: sigq.is_empty_iff)
  ultimately obtain k1 where k1: "handle_signals code tf k = Ok () k1"
    "k_umem k1 = (k_umem k)(p := um)"
    "k_procs k1 = (k_procs k)[p := ?pr\<lparr>p_handling := True,
         p_recv_multi_queue := msg_advance (p_recv_multi_queue ?pr),
         p_tf := (p_tf ?pr)\<lparr>tf_esp := sp, tf_eip := p_handler ?pr\<rparr>,
         p_pending_signals := sig_advance (p_pending_signals ?pr)\<rparr>]"
    using handle_signals_delivers [OF assms(1-5), of code um sp] fr by auto
  have q: "sig_items (sig_advance (p_pending_signals ?pr)) = ss"
    "msg_items (msg_advance (p_recv_multi_queue ?pr)) = ms"
    using sigq.items_advance [OF assms(7)] msgq.items_advance [OF assms(9)] assms(8,10) by simp_all
  have "\<exists>k3. ret_signal code k2 = Ok () k3 \<and> p_tf (k_procs k3 ! p) = p_tf ?pr \<and> \<not> p_handling (k_procs k3 ! p)"
    if h: "ready c2 k2" "cproc (cpus (k_mach k2) ! c2) = Some p" "p < length (k_procs k2)"
      "tf_esp (p_tf (k_procs k2 ! p)) = sp + 4" "frame_ok code (p_tf ?pr) msg (k_umem k2 p) sp"
    for c2 k2
  proof -
    have "mem_read (k_umem k2 p) (sp + 4 + 12 + of_nat (length code)) TF_SIZE = tf_bytes (p_tf ?pr)"
      using h(5) by (simp add: frame_ok_def add.commute)
    then show ?thesis using ret_signal_ready [OF h(1-3), of code] h(3,4) by auto
  qed
  then show ?thesis using k1 q ok assms(3) by auto
qed

text \<open>A process with one multicast message and its signal pending.\<close>

definition demo_sig :: kstate where
  "demo_sig = procs_upd 0 (\<lambda>p. multi_put 2 (replicate 8 9) (p\<lparr>p_pending_signals := sig_put (1, 2) empty_sigq\<rparr>)) demo_k"

lemma demo_sig_simps [simp]:
  "k_mach demo_sig = demo_mach" "length (k_procs demo_sig) = 3"
  "p_handling (k_procs demo_sig ! 0) = False" "p_handler (k_procs demo_sig ! 0) = 0x40"
  "p_pending_signals (k_procs demo_sig ! 0) = sig_put (1, 2) empty_sigq"
  "p_recv_multi_queue (k_procs demo_sig ! 0) = msg_put (2, replicate 8 9) empty_msgq"
  "p_tf (k_procs demo_sig ! 0) = demo_tf"
  by (simp_all add: demo_sig_def multi_put_def)

lemma demo_rings [simp]:
  "sigq_ok (sig_put (1, 2) empty_sigq)" "sig_items (sig_put (1, 2) empty_sigq) = [(1, 2)]"
  "msgq_ok (msg_put x empty_msgq)" "msg_items (msg_put x empty_msgq) = [x]"
  using sigq.items_put [OF sigq_ok_empty(1), of "(1, 2)"] msgq.items_put [OF msgq_ok_empty(1), of x]
  by (simp_all add: sigq.ok_put msgq.ok_put MAX_SIG_def NUM_MSG_def)

theorem signal_delivery_roundtrip_witness:
  "\<exists>k1. handle_signals [0xb8, 24, 0, 0, 0, 0xcd, 64] demo_tf demo_sig = Ok () k1
    \<and> tf_eip (p_tf (k_procs k1 ! 0)) = 0x40 \<and> sig_items (p_pending_signals (k_procs k1 ! 0)) = []"
  using signal_delivery_roundtrip [of 0 demo_sig 0 demo_tf "[0xb8, 24, 0, 0, 0, 0xcd, 64]"
      "(1, 2)" "[]" 2 "replicate 8 9" "[]"]
  by (auto simp: MSGSIZE_def DPL_USER_def demo_tf_def)

text \<open>
  No nested and no spurious delivery. While a process handles a signal, on a return to
  kernel mode, and when no signal is pending, \<^verbatim>\<open>handle_signals\<close> changes no process and no user
  memory.
\<close>

theorem handle_signals_guards:
  assumes "on_cpu c (k_mach k)" and "cproc (cpus (k_mach k) ! c) = Some p"
    and "sigq_ok (p_pending_signals (k_procs k ! p))"
    and "p_handling (k_procs k ! p) \<or> tf_cs tf AND 3 \<noteq> DPL_USER
       \<or> sig_items (p_pending_signals (k_procs k ! p)) = []"
  shows "\<exists>k'. handle_signals code tf k = Ok () k' \<and> k_procs k' = k_procs k \<and> k_umem k' = k_umem k"
  using assms sig_items_Nil [OF assms(3)]
  by (auto simp: handle_signals_def myproc_k_on_cpu Let_def)

theorem handle_signals_guards_witness:
  "\<exists>k'. handle_signals [] demo_tf demo_k = Ok () k' \<and> k_procs k' = k_procs demo_k"
  using handle_signals_guards [of 0 demo_k 0 demo_tf "[]"] by auto



end
