(* ===== verification/Strings.thy ===== *)
theory Strings
  imports Prelude
begin

text \<open>
  The kernel's \<^verbatim>\<open>string.c\<close> on byte memory. A counter that a loop decrements to zero is a natural
  number and the loop recurses on it; pointers are 32-bit words and move as in the code. The
  functions that return their first argument return the memory only.

  The names kept in kernel structures (a process's, a directory entry's) are short byte lists, so
  \<open>safestrcpy_buf\<close>, \<open>strncpy_buf\<close> and \<open>strncmp_buf\<close> give the same functions on lists, and the
  lemmas \<open>mem_read_safestrcpy\<close>, \<open>mem_read_strncpy\<close> and \<open>strncmp_mem\<close> relate the two.
\<close>

subsection \<open>The functions\<close>

fun stosb :: "mem \<Rightarrow> uint \<Rightarrow> byte \<Rightarrow> nat \<Rightarrow> mem" where
  "stosb m a c 0 = m"
| "stosb m a c (Suc n) = stosb (m(a := c)) (a + 1) c n"

fun stosl :: "mem \<Rightarrow> uint \<Rightarrow> uint \<Rightarrow> nat \<Rightarrow> mem" where
  "stosl m a v 0 = m"
| "stosl m a v (Suc n) = stosl (st32 m a v) (a + 4) v n"

definition memset :: "mem \<Rightarrow> uint \<Rightarrow> uint \<Rightarrow> uint \<Rightarrow> mem" where
  "memset m dst c n =
     (if dst mod 4 = 0 \<and> n mod 4 = 0 then
        let c = c AND 0xFF in
        stosl m dst (push_bit 24 c OR push_bit 16 c OR push_bit 8 c OR c) (unat (n div 4))
      else stosb m dst (ucast c) (unat n))"

fun memcmp :: "mem \<Rightarrow> uint \<Rightarrow> uint \<Rightarrow> nat \<Rightarrow> int" where
  "memcmp m s1 s2 0 = 0"
| "memcmp m s1 s2 (Suc n) =
     (if m s1 \<noteq> m s2 then int (unat (m s1)) - int (unat (m s2)) else memcmp m (s1 + 1) (s2 + 1) n)"

fun copy_up :: "mem \<Rightarrow> uint \<Rightarrow> uint \<Rightarrow> nat \<Rightarrow> mem" where
  "copy_up m d s 0 = m"
| "copy_up m d s (Suc n) = copy_up (m(d := m s)) (d + 1) (s + 1) n"

fun copy_down :: "mem \<Rightarrow> uint \<Rightarrow> uint \<Rightarrow> nat \<Rightarrow> mem" where
  "copy_down m d s 0 = m"
| "copy_down m d s (Suc n) = copy_down (m(d - 1 := m (s - 1))) (d - 1) (s - 1) n"

definition memmove :: "mem \<Rightarrow> uint \<Rightarrow> uint \<Rightarrow> uint \<Rightarrow> mem" where
  "memmove m dst src n =
     (if src < dst \<and> src + n > dst then copy_down m (dst + n) (src + n) (unat n)
      else copy_up m dst src (unat n))"

definition memcpy :: "mem \<Rightarrow> uint \<Rightarrow> uint \<Rightarrow> uint \<Rightarrow> mem" where
  "memcpy m dst src n = memmove m dst src n"

fun strncmp :: "mem \<Rightarrow> uint \<Rightarrow> uint \<Rightarrow> nat \<Rightarrow> int" where
  "strncmp m p q 0 = 0"
| "strncmp m p q (Suc n) =
     (if m p \<noteq> 0 \<and> m p = m q then strncmp m (p + 1) (q + 1) n
      else int (unat (m p)) - int (unat (m q)))"

text \<open>The second loop of \<^verbatim>\<open>strncpy\<close> pads with \<open>stosb\<close>-like stores; the first copies up to the nul.\<close>

fun strncpy_loop :: "mem \<Rightarrow> uint \<Rightarrow> uint \<Rightarrow> nat \<Rightarrow> mem" where
  "strncpy_loop m s t 0 = m"
| "strncpy_loop m s t (Suc n) =
     (let m = m(s := m t) in
      if m s \<noteq> 0 then strncpy_loop m (s + 1) (t + 1) n else stosb m (s + 1) 0 n)"

definition strncpy :: "mem \<Rightarrow> uint \<Rightarrow> uint \<Rightarrow> int \<Rightarrow> mem" where
  "strncpy m s t n = strncpy_loop m s t (nat n)"

fun safestrcpy_loop :: "mem \<Rightarrow> uint \<Rightarrow> uint \<Rightarrow> nat \<Rightarrow> mem \<times> uint" where
  "safestrcpy_loop m s t 0 = (m, s)"
| "safestrcpy_loop m s t (Suc n) =
     (let m = m(s := m t) in
      if m s \<noteq> 0 then safestrcpy_loop m (s + 1) (t + 1) n else (m, s + 1))"

definition safestrcpy :: "mem \<Rightarrow> uint \<Rightarrow> uint \<Rightarrow> int \<Rightarrow> mem" where
  "safestrcpy m s t n =
     (if n \<le> 0 then m
      else let (m, s) = safestrcpy_loop m s t (nat (n - 1)) in m(s := 0))"

partial_function (option) strlen_loop :: "mem \<Rightarrow> uint \<Rightarrow> nat \<Rightarrow> nat option" where
  "strlen_loop m s n = (if m (s + of_nat n) = 0 then Some n else strlen_loop m s (Suc n))"

definition strlen :: "mem \<Rightarrow> uint \<Rightarrow> nat option" where
  "strlen m s = strlen_loop m s 0"

subsection \<open>On lists\<close>

fun strncpy_buf :: "byte list \<Rightarrow> nat \<Rightarrow> byte list" where
  "strncpy_buf t 0 = []"
| "strncpy_buf t (Suc n) = (case t of [] \<Rightarrow> replicate (Suc n) 0
     | c # t \<Rightarrow> if c = 0 then replicate (Suc n) 0 else c # strncpy_buf t n)"

fun safestrcpy_buf :: "byte list \<Rightarrow> byte list \<Rightarrow> byte list" where
  "safestrcpy_buf [] t = []"
| "safestrcpy_buf [d] t = [0]"
| "safestrcpy_buf (d # d' # ds) t = (case t of [] \<Rightarrow> 0 # 0 # ds
     | c # t \<Rightarrow> if c = 0 then 0 # 0 # ds else c # safestrcpy_buf (d' # ds) t)"

text \<open>\<open>cstr\<close> is the text before the first nul.\<close>

definition cstr :: "byte list \<Rightarrow> byte list" where
  "cstr bs = takeWhile (\<lambda>b. b \<noteq> 0) bs"

fun strncmp_buf :: "byte list \<Rightarrow> byte list \<Rightarrow> nat \<Rightarrow> int" where
  "strncmp_buf p q 0 = 0"
| "strncmp_buf p q (Suc n) =
     (let a = (case p of [] \<Rightarrow> 0 | c # _ \<Rightarrow> c); b = (case q of [] \<Rightarrow> 0 | c # _ \<Rightarrow> c) in
      if a \<noteq> 0 \<and> a = b then strncmp_buf (tl p) (tl q) n else int (unat a) - int (unat b))"

subsection \<open>Stores\<close>

lemma mem_write_Cons:
  assumes "length bs < 2 ^ 32"
  shows "mem_write m a (b # bs) = mem_write (m(a := b)) (a + 1) bs"
proof
  fix x :: uint
  show "mem_write m a (b # bs) x = mem_write (m(a := b)) (a + 1) bs x"
  proof (cases "x = a")
    case True
    then have "x - (a + 1) = - 1" by simp
    moreover have "unat (- 1 :: uint) = 2 ^ 32 - 1"
      by (simp add: unsigned_minus_1_eq_mask mask_eq_exp_minus_1)
    ultimately have "unat (x - (a + 1)) = 2 ^ 32 - 1" by simp
    with assms True show ?thesis by (simp add: mem_write_def)
  next
    case False
    then have nz: "x - a \<noteq> 0" by simp
    then have "unat (x - a) \<noteq> unat (0 :: uint)" unfolding word_unat_eq_iff .
    then have "unat (x - a) = Suc (unat (x - a - 1))" using nz by (simp add: unat_minus_one)
    then show ?thesis using False by (simp add: mem_write_def diff_diff_add)
  qed
qed

lemma mem_write_append:
  "length bs + length cs \<le> 2 ^ 32 \<Longrightarrow>
   mem_write m a (bs @ cs) = mem_write (mem_write m a bs) (a + of_nat (length bs)) cs"
proof (induction bs arbitrary: m a)
  case (Cons b bs)
  then show ?case by (simp add: mem_write_Cons algebra_simps)
qed simp

lemma stosb_write: "n \<le> 2 ^ 32 \<Longrightarrow> stosb m a c n = mem_write m a (replicate n c)"
  by (induction n arbitrary: m a) (simp_all add: mem_write_Cons)

lemma copy_up_correct:
  assumes "unat s + n \<le> 2 ^ 32" "unat d + n \<le> 2 ^ 32" "d \<le> s \<or> unat s + n \<le> unat d"
  shows "copy_up m d s n = mem_write m d (mem_read m s n)"
  using assms
proof (induction n arbitrary: m d s)
  case (Suc n)
  show ?case
  proof (cases "n = 0")
    case True
    then show ?thesis by (simp add: mem_read_def mem_write_Cons)
  next
    case False
    then have us: "unat (s + 1) = Suc (unat s)" "unat (d + 1) = Suc (unat d)"
      using Suc.prems(1,2) by (simp_all add: unat_word_ariths)
    have "mem_read (m(d := m s)) (s + 1) n = mem_read m (s + 1) n"
    proof (rule nth_equalityI)
      fix i assume "i < length (mem_read (m(d := m s)) (s + 1) n)"
      then have i: "i < n" by simp
      have "unat (s + 1 + of_nat i) = unat s + 1 + i"
        using us i Suc.prems(1) by (simp add: unat_word_ariths unat_of_nat)
      then have "s + 1 + of_nat i \<noteq> d"
        using Suc.prems(3) i by (auto simp: word_le_nat_alt)
      then show "mem_read (m(d := m s)) (s + 1) n ! i = mem_read m (s + 1) n ! i"
        using i by simp
    qed simp
    moreover have "d + 1 \<le> s + 1 \<or> unat (s + 1) + n \<le> unat (d + 1)"
      using Suc.prems(3) us by (auto simp: word_le_nat_alt)
    moreover have "mem_read m s (Suc n) = m s # mem_read m (s + 1) n"
      by (rule nth_equalityI) (auto simp: nth_Cons algebra_simps split: nat.splits)
    moreover have "copy_up (m(d := m s)) (d + 1) (s + 1) n
        = mem_write (m(d := m s)) (d + 1) (mem_read (m(d := m s)) (s + 1) n)"
      using Suc.prems(1,2) us calculation(2) by (intro Suc.IH) simp_all
    ultimately show ?thesis using Suc.prems(1) by (simp add: mem_write_Cons)
  qed
qed (simp add: mem_read_def)

lemma mem_read_snoc: "mem_read m a (Suc n) = mem_read m a n @ [m (a + of_nat n)]"
  by (simp add: mem_read_def)

lemma mem_write_snoc_swap:
  assumes "length bs < 2 ^ 32"
  shows "mem_write m a (bs @ [b]) = mem_write (m(a + of_nat (length bs) := b)) a bs"
proof
  fix x :: uint
  have "unat (of_nat (length bs) :: uint) = length bs" using assms by (rule unat_uint_of_nat)
  moreover have "x - a = of_nat (length bs) \<longleftrightarrow> x = a + of_nat (length bs)"
    by (auto simp: algebra_simps)
  moreover from calculation(1) have "unat (x - a) = length bs \<longleftrightarrow> x - a = of_nat (length bs)"
    by (simp add: word_unat_eq_iff)
  ultimately show "mem_write m a (bs @ [b]) x = mem_write (m(a + of_nat (length bs) := b)) a bs x"
    by (auto simp: mem_write_def nth_append)
qed

lemma copy_down_correct:
  assumes "unat s + n \<le> 2 ^ 32" "unat d + n \<le> 2 ^ 32" "s \<le> d" and "n \<le> N" "N < 2 ^ 32"
  shows "copy_down m (d + of_nat n) (s + of_nat n) n = mem_write m d (mem_read m s n)"
  using assms
proof (induction n arbitrary: m)
  case (Suc n)
  let ?m = "m(d + of_nat n := m (s + of_nat n))"
  have "mem_read ?m s n = mem_read m s n"
  proof (rule nth_equalityI)
    fix i assume "i < length (mem_read ?m s n)"
    then have i: "i < n" by simp
    have "unat (s + of_nat i) = unat s + i" "unat (d + of_nat n) = unat d + n"
      using i Suc.prems(1,2) by (simp_all add: unat_add_of_nat)
    then have "s + of_nat i \<noteq> d + of_nat n"
      using Suc.prems(3) i by (auto simp: word_le_nat_alt)
    then show "mem_read ?m s n ! i = mem_read m s n ! i" using i by simp
  qed simp
  moreover have "copy_down ?m (d + of_nat n) (s + of_nat n) n = mem_write ?m d (mem_read ?m s n)"
    using Suc.prems by (intro Suc.IH) simp_all
  moreover have "d + of_nat (Suc n) - 1 = d + of_nat n" "s + of_nat (Suc n) - 1 = s + of_nat n"
    by simp_all
  ultimately have "copy_down m (d + of_nat (Suc n)) (s + of_nat (Suc n)) (Suc n)
      = mem_write ?m d (mem_read m s n)"
    by (simp only: copy_down.simps)
  then show ?case
    using Suc.prems(4,5) by (simp add: mem_read_snoc mem_write_snoc_swap del: of_nat_Suc copy_down.simps)
qed (simp add: mem_read_def)

lemma mem_read_Cons: "mem_read m a (Suc n) = m a # mem_read m (a + 1) n"
  by (rule nth_equalityI) (auto simp: nth_Cons algebra_simps split: nat.splits)

lemma mem_read_upd_disjoint:
  assumes "disjoint_ranges t n s (Suc k)"
  shows "mem_read (m(s := c)) t n = mem_read m t n"
proof (rule nth_equalityI)
  fix i assume "i < length (mem_read (m(s := c)) t n)"
  then have "i < n" by simp
  then have "Suc k \<le> unat (t + of_nat i - s)" using assms by (simp add: disjoint_ranges_def)
  then have "t + of_nat i \<noteq> s" by auto
  with \<open>i < n\<close> show "mem_read (m(s := c)) t n ! i = mem_read m t n ! i" by simp
qed simp

lemma disjoint_ranges_tl:
  assumes "disjoint_ranges t (Suc n) s (Suc k)" "Suc k < 2 ^ 32"
  shows "disjoint_ranges (t + 1) n (s + 1) k"
  unfolding disjoint_ranges_def
proof (intro allI impI)
  fix i assume i: "i < n"
  have "Suc k \<le> unat (t + of_nat (Suc i) - s)"
    using assms(1) i unfolding disjoint_ranges_def by blast
  moreover have "t + of_nat (Suc i) = t + 1 + of_nat i" by simp
  ultimately have k: "Suc k \<le> unat (t + 1 + of_nat i - s)" by (simp only:)
  then have "t + 1 + of_nat i - s \<noteq> 0" by auto
  then have "unat (t + 1 + of_nat i - s - 1) = unat (t + 1 + of_nat i - s) - 1"
    by (rule unat_minus_one)
  with k show "k \<le> unat (t + 1 + of_nat i - (s + 1))" by (simp add: algebra_simps)
qed

fun safestrcpy_out :: "nat \<Rightarrow> byte list \<Rightarrow> byte list" where
  "safestrcpy_out 0 t = [0]"
| "safestrcpy_out (Suc n) t = (case t of [] \<Rightarrow> [0, 0]
     | c # t \<Rightarrow> if c = 0 then [0, 0] else c # safestrcpy_out n t)"

lemma length_safestrcpy_out: "length (safestrcpy_out n t) \<le> Suc n" "safestrcpy_out n t \<noteq> []"
  by (induction n t rule: safestrcpy_out.induct) (auto split: list.splits)

lemma safestrcpy_loop_out:
  assumes "Suc n < 2 ^ 32" "disjoint_ranges t (Suc n) s (Suc n)"
  shows "(case safestrcpy_loop m s t n of (m, s) \<Rightarrow> m(s := 0))
    = mem_write m s (safestrcpy_out n (mem_read m t n))"
  using assms
proof (induction n arbitrary: m s t)
  case (Suc n)
  let ?m = "m(s := m t)"
  have d: "disjoint_ranges (t + 1) (Suc n) (s + 1) (Suc n)"
    using disjoint_ranges_tl Suc.prems by blast
  have r: "mem_read ?m (t + 1) n = mem_read m (t + 1) n"
  proof -
    have "disjoint_ranges (t + 1) n s (Suc (Suc n))"
      unfolding disjoint_ranges_def
    proof (intro allI impI)
      fix i assume "i < n"
      then have "Suc (Suc n) \<le> unat (t + of_nat (Suc i) - s)"
        using Suc.prems(2) unfolding disjoint_ranges_def by (meson Suc_mono less_SucI)
      then show "Suc (Suc n) \<le> unat (t + 1 + of_nat i - s)" by (simp add: algebra_simps)
    qed
    then show ?thesis by (rule mem_read_upd_disjoint)
  qed
  have b: "length (safestrcpy_out n (mem_read m (t + 1) n)) < 2 ^ 32"
    using length_safestrcpy_out(1) [of n "mem_read m (t + 1) n"] Suc.prems(1) by simp
  have IH: "(case safestrcpy_loop ?m (s + 1) (t + 1) n of (m, s) \<Rightarrow> m(s := 0))
      = mem_write ?m (s + 1) (safestrcpy_out n (mem_read ?m (t + 1) n))"
    using Suc.prems(1) by (intro Suc.IH d) simp
  show ?case
  proof (cases "m t = 0")
    case True
    then show ?thesis by (simp add: mem_read_Cons mem_write_Cons Let_def)
  next
    case False
    with IH r b show ?thesis
      by (cases "safestrcpy_loop ?m (s + 1) (t + 1) n")
         (simp add: mem_read_Cons mem_write_Cons Let_def fun_upd_def)
  qed
qed (simp add: mem_write_Cons)

lemma mem_read_overlay:
  assumes "length bs \<le> n" "n < 2 ^ 32"
  shows "mem_read (mem_write m s bs) s n = bs @ drop (length bs) (mem_read m s n)"
proof (rule nth_equalityI)
  fix i assume "i < length (mem_read (mem_write m s bs) s n)"
  then have i: "i < n" by simp
  then have "unat (of_nat i :: uint) = i" using assms(2) by (intro unat_uint_of_nat) simp
  then show "mem_read (mem_write m s bs) s n ! i = (bs @ drop (length bs) (mem_read m s n)) ! i"
    using i assms(1) by (simp add: mem_write_def nth_append)
qed (use assms in simp)

lemma safestrcpy_buf_out:
  "safestrcpy_buf d t = (if d = [] then []
     else safestrcpy_out (length d - 1) t @ drop (length (safestrcpy_out (length d - 1) t)) d)"
  by (induction d t rule: safestrcpy_buf.induct) (auto split: list.splits)

lemma safestrcpy_out_take: "n \<le> length t \<Longrightarrow> safestrcpy_out n (take n t) = safestrcpy_out n t"
  by (induction n t rule: safestrcpy_out.induct) (auto split: list.splits)

lemma mem_read_safestrcpy:
  assumes "0 < n" "n < 2 ^ 31" "disjoint_ranges t (nat n) s (nat n)"
  shows "mem_read (safestrcpy m s t n) s (nat n)
    = safestrcpy_buf (mem_read m s (nat n)) (mem_read m t (nat n))"
proof -
  obtain k where k: "nat n = Suc k" "nat (n - 1) = k" "Suc k < 2 ^ 32"
    using assms(1,2) by (cases "nat n") auto
  have "safestrcpy m s t n = mem_write m s (safestrcpy_out k (mem_read m t k))"
    using safestrcpy_loop_out [OF k(3), of t s m] assms(1,3) k by (simp add: safestrcpy_def)
  moreover have "safestrcpy_out k (mem_read m t k) = safestrcpy_out k (mem_read m t (Suc k))"
    using safestrcpy_out_take [of k "mem_read m t (Suc k)"] by (simp add: mem_read_def take_map)
  moreover have "mem_read m s (Suc k) \<noteq> []" by (metis length_0_conv length_mem_read nat.simps(3))
  ultimately show ?thesis
    using length_safestrcpy_out(1) [of k "mem_read m t (Suc k)"] k(1,3)
    by (simp add: mem_read_overlay safestrcpy_buf_out)
qed

lemma length_strncpy_buf [simp]: "length (strncpy_buf t n) = n"
  by (induction t n rule: strncpy_buf.induct) (auto split: list.splits)

lemma strncpy_loop_buf:
  assumes "n < 2 ^ 32" "disjoint_ranges t n s n"
  shows "strncpy_loop m s t n = mem_write m s (strncpy_buf (mem_read m t n) n)"
  using assms
proof (induction n arbitrary: m s t)
  case (Suc n)
  let ?m = "m(s := m t)"
  show ?case
  proof (cases "m t = 0")
    case True
    then show ?thesis
      using Suc.prems(1) by (simp add: mem_read_Cons mem_write_Cons Let_def stosb_write)
  next
    case False
    have "disjoint_ranges (t + 1) n s (Suc n)"
      unfolding disjoint_ranges_def
    proof (intro allI impI)
      fix i assume "i < n"
      then have "Suc n \<le> unat (t + of_nat (Suc i) - s)"
        using Suc.prems(2) unfolding disjoint_ranges_def by (meson Suc_mono)
      then show "Suc n \<le> unat (t + 1 + of_nat i - s)" by (simp add: algebra_simps)
    qed
    then have "mem_read ?m (t + 1) n = mem_read m (t + 1) n" by (rule mem_read_upd_disjoint)
    moreover have "strncpy_loop ?m (s + 1) (t + 1) n
        = mem_write ?m (s + 1) (strncpy_buf (mem_read ?m (t + 1) n) n)"
      using Suc.prems by (intro Suc.IH disjoint_ranges_tl) simp_all
    ultimately show ?thesis
      using False Suc.prems(1) by (simp add: mem_read_Cons mem_write_Cons Let_def)
  qed
qed simp

lemma mem_read_strncpy:
  assumes "0 \<le> n" "n < 2 ^ 31" "disjoint_ranges t (nat n) s (nat n)"
  shows "mem_read (strncpy m s t n) s (nat n) = strncpy_buf (mem_read m t (nat n)) (nat n)"
  using assms by (simp add: strncpy_def strncpy_loop_buf mem_read_write_same)

lemma strncmp_mem: "strncmp m p q n = strncmp_buf (mem_read m p n) (mem_read m q n) n"
  by (induction n arbitrary: p q) (simp_all add: mem_read_Cons Let_def)

lemma strlen_loop_at:
  assumes "m (s + of_nat n) = 0" "\<forall>i < n. m (s + of_nat i) \<noteq> 0" "k \<le> n"
  shows "strlen_loop m s k = Some n"
  using assms(3)
proof (induction "n - k" arbitrary: k)
  case 0
  then show ?case using assms(1) by (subst strlen_loop.simps) simp
next
  case (Suc d)
  then have "m (s + of_nat k) \<noteq> 0" using assms(2) by simp
  moreover have "strlen_loop m s (Suc k) = Some n" using Suc by simp
  ultimately show ?case by (subst strlen_loop.simps) simp
qed

lemma strncmp_buf_zero:
  "strncmp_buf p q n = 0 \<longleftrightarrow> cstr (take n p) = cstr (take n q)"
proof (induction n arbitrary: p q)
  case (Suc n)
  have u: "uint a = uint b \<longleftrightarrow> a = b" for a b :: byte by (metis word_uint_eq_iff)
  with Suc show ?case by (cases p; cases q) (auto simp: cstr_def Let_def uint_0_iff u)
qed (simp add: cstr_def)

lemma cstr_safestrcpy_out:
  "n \<le> length t \<Longrightarrow> cstr (safestrcpy_out n t @ zs) = cstr (take n t) \<and> 0 \<in> set (safestrcpy_out n t)"
  by (induction n t rule: safestrcpy_out.induct) (auto simp: cstr_def split: list.splits)

lemma safestrcpy_write:
  assumes "0 < n" "n < 2 ^ 31" "disjoint_ranges t (nat n) s (nat n)"
  shows "safestrcpy m s t n = mem_write m s (safestrcpy_out (nat n - 1) (mem_read m t (nat n)))"
proof -
  obtain k where k: "nat n = Suc k" "nat (n - 1) = k" "Suc k < 2 ^ 32"
    using assms(1,2) by (cases "nat n") auto
  moreover have "safestrcpy_out k (mem_read m t k) = safestrcpy_out k (mem_read m t (Suc k))"
    using safestrcpy_out_take [of k "mem_read m t (Suc k)"] by (simp add: mem_read_def take_map)
  ultimately show ?thesis
    using safestrcpy_loop_out [OF k(3), of t s m] assms(1,3) by (simp add: safestrcpy_def)
qed

subsection \<open>Properties\<close>

text \<open>
  Claim C15. \<^verbatim>\<open>memmove\<close> copies correctly even when the two ranges overlap: the destination ends up
  with the bytes the source held before the call, and nothing else changes.
\<close>

theorem memmove_correct:
  assumes "unat src + unat n < 2 ^ 32" and "unat dst + unat n < 2 ^ 32"
  shows "memmove m dst src n = mem_write m dst (mem_read m src (unat n))"
proof (cases "src < dst \<and> src + n > dst")
  case True
  then have "src \<le> dst" by (auto intro: less_imp_le)
  then have "copy_down m (dst + n) (src + n) (unat n) = mem_write m dst (mem_read m src (unat n))"
    using copy_down_correct [of src "unat n" dst "unat n" m] assms by simp
  with True show ?thesis by (simp add: memmove_def)
next
  case False
  have "unat (src + n) = unat src + unat n" using assms(1) by (simp add: unat_word_ariths)
  then have "dst \<le> src \<or> unat src + unat n \<le> unat dst"
    using False by (auto simp: word_le_nat_alt word_less_nat_alt)
  then have "copy_up m dst src (unat n) = mem_write m dst (mem_read m src (unat n))"
    using copy_up_correct [of src "unat n" dst m] assms by simp
  with False show ?thesis by (auto simp: memmove_def)
qed

theorem memmove_correct_witness:
  "memmove (\<lambda>a. ucast a) 102 100 4 = mem_write (\<lambda>a. ucast a) 102 [100, 101, 102, 103]"
  using memmove_correct [of 100 4 102 "\<lambda>a. ucast a"] by (simp add: mem_read_def upt_rec)

lemma le_bytes_fill:
  fixes c :: uint
  defines "b \<equiv> c AND 0xFF"
  shows "le_bytes (push_bit 24 b OR push_bit 16 b OR push_bit 8 b OR b) = replicate 4 (ucast c)"
proof -
  have ff: "bit (0xFF :: uint) n \<longleftrightarrow> n < 8" for n
    using bit_mask_iff [where 'a = uint, of 8 n] by (auto simp: mask_eq_exp_minus_1)
  let ?w = "push_bit 24 b OR push_bit 16 b OR push_bit 8 b OR b"
  have bb: "bit b n \<longleftrightarrow> bit c n \<and> n < 8" for n by (simp only: b_def bit_and_iff ff)
  have "ucast ?w = (ucast c :: byte)" by (rule bit_word_eqI) (simp add: bit_simps bb)
  moreover have "ucast (drop_bit 8 ?w) = (ucast c :: byte)"
    by (rule bit_word_eqI) (auto simp: bit_simps bb)
  moreover have "ucast (drop_bit 16 ?w) = (ucast c :: byte)"
    by (rule bit_word_eqI) (auto simp: bit_simps bb)
  moreover have "ucast (drop_bit 24 ?w) = (ucast c :: byte)"
    by (rule bit_word_eqI) (auto simp: bit_simps bb)
  ultimately show ?thesis by (simp add: le_bytes_def numeral_eq_Suc)
qed

lemma stosl_write:
  "4 * n \<le> 2 ^ 32 \<Longrightarrow> le_bytes v = replicate 4 b \<Longrightarrow> stosl m a v n = mem_write m a (replicate (4 * n) b)"
proof (induction n arbitrary: m a)
  case (Suc n)
  have "stosl m a v (Suc n) = mem_write (st32 m a v) (a + 4) (replicate (4 * n) b)"
    using Suc.IH [of "st32 m a v" "a + 4"] Suc.prems by auto
  also have "\<dots> = mem_write m a (replicate 4 b @ replicate (4 * n) b)"
    using Suc.prems mem_write_append [of "replicate 4 b" "replicate (4 * n) b" m a]
    by (simp add: st32_def)
  also have "replicate 4 b @ replicate (4 * n) b = replicate (4 * Suc n) b"
    by (simp flip: replicate_add)
  finally show ?case .
qed simp

lemma memset_write:
  "memset m dst c n = mem_write m dst (replicate (unat n) (ucast c))"
proof (cases "dst mod 4 = 0 \<and> n mod 4 = 0")
  case True
  have "4 * unat (n div 4) + unat (n mod 4) = unat n" by (simp add: unat_div unat_mod)
  then have n: "4 * unat (n div 4) = unat n" using True by simp
  then have "4 * unat (n div 4) \<le> 2 ^ 32" using unsigned_less [of n, where 'a = nat] by simp
  then show ?thesis
    unfolding memset_def Let_def using True stosl_write [OF _ le_bytes_fill] n by (simp only: simp_thms if_True)
next
  case False
  have "unat n \<le> 2 ^ 32" using unsigned_less [of n, where 'a = nat] by simp
  then show ?thesis
    unfolding memset_def using False by (simp only: if_False stosb_write)
qed
text \<open>
  Claim C29. The word-wise fast path of \<^verbatim>\<open>memset\<close> is equivalent to filling byte by byte, for every
  address and length.
\<close>

theorem memset_fills: "memset m dst c n = stosb m dst (ucast c) (unat n)"
proof -
  have "unat n \<le> 2 ^ 32" using unsigned_less [of n, where 'a = nat] by simp
  then show ?thesis by (simp add: memset_write stosb_write)
qed

text \<open>
  \<^verbatim>\<open>strncmp\<close> returns 0 exactly when the two strings agree up to their terminator or up to
  \<^verbatim>\<open>n\<close> bytes.
\<close>

theorem strncmp_zero_iff:
  "strncmp m p q n = 0 \<longleftrightarrow> cstr (mem_read m p n) = cstr (mem_read m q n)"
  by (simp add: strncmp_mem strncmp_buf_zero)

text \<open>
  Claim C16. \<^verbatim>\<open>safestrcpy\<close> into a buffer of \<^verbatim>\<open>n > 0\<close> bytes writes only that buffer, leaves a
  terminated string in it, and the string is the source's, cut at \<^verbatim>\<open>n - 1\<close> bytes.
\<close>

theorem safestrcpy_terminates:
  assumes "0 < n" and "n < 2 ^ 31" and "disjoint_ranges t (nat n) s (nat n)"
  shows "cstr (mem_read (safestrcpy m s t n) s (nat n)) = cstr (take (nat n - 1) (mem_read m t (nat n)))
    \<and> 0 \<in> set (mem_read (safestrcpy m s t n) s (nat n))
    \<and> (\<forall>x. nat n \<le> unat (x - s) \<longrightarrow> safestrcpy m s t n x = m x)"
proof -
  let ?o = "safestrcpy_out (nat n - 1) (mem_read m t (nat n))"
  have l: "length ?o \<le> nat n"
    using length_safestrcpy_out(1) [of "nat n - 1"] assms(1) by (metis Suc_pred' zero_less_nat_eq)
  have "mem_read (safestrcpy m s t n) s (nat n) = ?o @ drop (length ?o) (mem_read m s (nat n))"
    unfolding safestrcpy_write [OF assms] using l assms(2) by (intro mem_read_overlay) simp_all
  moreover have "\<forall>x. nat n \<le> unat (x - s) \<longrightarrow> safestrcpy m s t n x = m x"
    unfolding safestrcpy_write [OF assms] using l by (simp add: mem_write_def)
  ultimately show ?thesis
    using cstr_safestrcpy_out [of "nat n - 1" "mem_read m t (nat n)"] by simp
qed

theorem safestrcpy_terminates_witness:
  "0 \<in> set (mem_read (safestrcpy (\<lambda>_. 65) 0 16 16) 0 (nat 16))"
proof -
  have "disjoint_ranges 16 (nat 16) (0 :: uint) (nat 16)"
    using disjoint_ranges_offset [of 16 16 16 0] by simp
  then show ?thesis using safestrcpy_terminates [of 16 16 0 "\<lambda>_. 65"] by simp
qed

end
