(* ===== verification/Proclife.thy ===== *)
theory Proclife
  imports Signal Strings
begin

text \<open>
  The life of a process: \<^verbatim>\<open>pinit\<close>, \<^verbatim>\<open>allocproc\<close>, \<^verbatim>\<open>userinit\<close>, \<^verbatim>\<open>growproc\<close>, \<^verbatim>\<open>fork\<close>, \<^verbatim>\<open>exit\<close>, \<^verbatim>\<open>wait\<close>, the
  scheduler loop, \<^verbatim>\<open>forkret\<close>, \<^verbatim>\<open>procdump\<close> and \<^verbatim>\<open>ps\<close> of \<^verbatim>\<open>proc.c\<close>.

  Calls into the memory and file layers appear in two ways. A call whose result decides a branch
  (\<^verbatim>\<open>kalloc\<close>, \<^verbatim>\<open>copyuvm\<close>, \<^verbatim>\<open>setupkvm\<close>, \<^verbatim>\<open>allocuvm\<close>, \<^verbatim>\<open>deallocuvm\<close>, \<^verbatim>\<open>namei\<close>) has its result as an
  argument, so every theorem holds for success and failure alike. A call made for its effect on
  those layers is recorded, in order, in the trace \<open>k_calls\<close>. The kernel register save area
  \<^verbatim>\<open>struct context\<close> is not represented.
\<close>

subsection \<open>State\<close>

datatype pcall = CKfree uint | CFreevm uint | CFiledup nat | CIdup "nat option"
  | CFileclose nat | CBeginOp | CIput "nat option" | CEndOp | CIinit | CInitlog

record pstate = kstate +
  k_first :: bool
  k_calls :: "pcall list"

definition call :: "pcall \<Rightarrow> 'z pstate_scheme \<Rightarrow> 'z pstate_scheme" where
  "call c k = k\<lparr>k_calls := k_calls k @ [c]\<rparr>"

subsection \<open>Creation\<close>

definition pinit :: "'z kstate_scheme \<Rightarrow> 'z kstate_scheme" where
  "pinit k = k\<lparr>k_ptlock := initlock ''ptable''\<rparr>"

text \<open>What \<^verbatim>\<open>allocproc\<close> sets once it has a kernel stack; \<open>tf0\<close> is what the top of that page held.\<close>

definition alloc_init :: "trapframe \<Rightarrow> proc \<Rightarrow> proc" where
  "alloc_init tf0 p = p\<lparr>p_tf := tf0, p_handler := 0,
     p_pending_signals := (p_pending_signals p)\<lparr>sg_head := 0, sg_tail := 0\<rparr>,
     p_handling := False,
     p_recv_queue := (p_recv_queue p)\<lparr>mq_head := 0, mq_tail := 0\<rparr>,
     p_recv_multi_queue := (p_recv_multi_queue p)\<lparr>mq_head := 0, mq_tail := 0\<rparr>\<rparr>"

definition allocproc ::
  "uint \<Rightarrow> trapframe \<Rightarrow> 'z kstate_scheme \<Rightarrow> (nat option, 'z kstate_scheme) kres" where
  "allocproc ks tf0 k =
     bindk (acquire_pt k) (\<lambda>_ k.
       (case find_idx (\<lambda>p. p_state p = UNUSED) (k_procs k) of
          None \<Rightarrow> bindk (release_pt k) (\<lambda>_ k. Ok None k)
        | Some i \<Rightarrow>
           bindk (release_pt (procs_upd i (\<lambda>p. p\<lparr>p_state := EMBRYO, p_pid := k_nextpid k\<rparr>)
                    (k\<lparr>k_nextpid := k_nextpid k + 1\<rparr>))) (\<lambda>_ k.
             if ks = 0 then Ok None (procs_upd i (\<lambda>p. p\<lparr>p_kstack := 0, p_state := UNUSED\<rparr>) k)
             else Ok (Some i) (procs_upd i (\<lambda>p. alloc_init tf0 (p\<lparr>p_kstack := ks\<rparr>)) k))))"

definition SEG_UCODE :: ushort where "SEG_UCODE = 3"
definition SEG_UDATA :: ushort where "SEG_UDATA = 4"
definition FL_IF :: uint where "FL_IF = 0x200"
definition PGSIZE :: uint where "PGSIZE = 4096"

definition zero_tf :: trapframe where
  "zero_tf = tf_of_bytes (replicate TF_SIZE 0)"

definition user_tf :: trapframe where
  "user_tf = zero_tf\<lparr>tf_cs := push_bit 3 SEG_UCODE OR DPL_USER,
     tf_ds := push_bit 3 SEG_UDATA OR DPL_USER, tf_es := push_bit 3 SEG_UDATA OR DPL_USER,
     tf_ss := push_bit 3 SEG_UDATA OR DPL_USER, tf_eflags := FL_IF, tf_esp := PGSIZE, tf_eip := 0\<rparr>"

text \<open>\<open>initcode\<close> is the text of \<^verbatim>\<open>"initcode"\<close> as \<^verbatim>\<open>safestrcpy\<close> reads it, \<open>code\<close> the linked binary.\<close>

definition str_bytes :: "string \<Rightarrow> byte list" where
  "str_bytes s = map (\<lambda>c. of_nat (of_char c)) s"

definition userinit ::
  "uint \<Rightarrow> trapframe \<Rightarrow> uint \<Rightarrow> byte list \<Rightarrow> nat option \<Rightarrow> 'z kstate_scheme \<Rightarrow> (unit, 'z kstate_scheme) kres"
where
  "userinit ks tf0 pg code root k =
     bindk (allocproc ks tf0 k) (\<lambda>p k.
       let k = k\<lparr>k_initproc := p\<rparr> in
       (case p of None \<Rightarrow> Panic ''trap'' | Some p \<Rightarrow>
        if pg = 0 then Panic ''userinit: out of memory?''
        else if length code \<ge> unat PGSIZE then Panic ''inituvm: more than a page''
        else
          let k = k\<lparr>k_umem := (k_umem k)(p := mem_write (mem_write (k_umem k p) 0
                    (replicate (unat PGSIZE) 0)) 0 code)\<rparr>;
              k = procs_upd p (\<lambda>p. p\<lparr>p_pgdir := pg, p_sz := PGSIZE, p_tf := user_tf,
                    p_name := safestrcpy_buf (p_name p) (str_bytes ''initcode''),
                    p_cwd := root\<rparr>) k
          in bindk (acquire_pt k) (\<lambda>_ k.
             release_pt (procs_upd p (\<lambda>p. p\<lparr>p_state := RUNNABLE\<rparr>) k))))"

subsection \<open>Growing\<close>

text \<open>
  \<^verbatim>\<open>switchuvm\<close> checks its argument and loads segment and page-table registers between a
  \<^verbatim>\<open>pushcli\<close> and a \<^verbatim>\<open>popcli\<close>; the registers themselves are not part of the state.
\<close>

definition switchuvm :: "nat option \<Rightarrow> 'z kstate_scheme \<Rightarrow> (unit, 'z kstate_scheme) kres" where
  "switchuvm p k =
     (case p of None \<Rightarrow> Panic ''switchuvm: no process'' | Some p \<Rightarrow>
      if p_kstack (k_procs k ! p) = 0 then Panic ''switchuvm: no kstack''
      else if p_pgdir (k_procs k ! p) = 0 then Panic ''switchuvm: no pgdir''
      else bindk (zoomk (\<lambda>m. k\<lparr>k_mach := m\<rparr>) (pushcli (k_mach k))) (\<lambda>_ k.
           zoomk (\<lambda>m. k\<lparr>k_mach := m\<rparr>) (popcli (k_mach k))))"

text \<open>\<open>alloc\<close> and \<open>dealloc\<close> are the results \<^verbatim>\<open>allocuvm\<close> and \<^verbatim>\<open>deallocuvm\<close> give for the old and new size.\<close>

definition growproc ::
  "(uint \<Rightarrow> uint \<Rightarrow> uint) \<Rightarrow> (uint \<Rightarrow> uint \<Rightarrow> uint) \<Rightarrow> int \<Rightarrow> 'z kstate_scheme \<Rightarrow> (int, 'z kstate_scheme) kres"
where
  "growproc alloc dealloc n k =
     bindk (myproc_k k) (\<lambda>p k.
       (case p of None \<Rightarrow> Panic ''trap'' | Some p \<Rightarrow>
        let sz = p_sz (k_procs k ! p);
            sz' = (if n > 0 then alloc sz (sz + of_int n)
                   else if n < 0 then dealloc sz (sz + of_int n) else sz)
        in if n \<noteq> 0 \<and> sz' = 0 then Ok (-1) k
           else bindk (switchuvm (Some p) (procs_upd p (\<lambda>p. p\<lparr>p_sz := sz'\<rparr>) k)) (\<lambda>_ k. Ok 0 k)))"

subsection \<open>Fork\<close>

text \<open>The loop over the open files: the child's table, and the duplications in order.\<close>

definition dup_files :: "nat option list \<Rightarrow> nat option list \<Rightarrow> nat option list" where
  "dup_files src dst = map (\<lambda>i. if src ! i = None then dst ! i else src ! i) [0..<NOFILE]"

definition dup_calls :: "nat option list \<Rightarrow> pcall list" where
  "dup_calls src = map CFiledup (List.map_filter (\<lambda>i. src ! i) [0..<NOFILE])"

definition fork_copy :: "nat \<Rightarrow> uint \<Rightarrow> proc \<Rightarrow> proc \<Rightarrow> proc" where
  "fork_copy cur pg par np = np\<lparr>p_pgdir := pg, p_sz := p_sz par, p_parent := Some cur,
     p_tf := (p_tf par)\<lparr>tf_eax := 0\<rparr>,
     p_ofile := dup_files (p_ofile par) (p_ofile np), p_cwd := p_cwd par,
     p_name := safestrcpy_buf (p_name np) (p_name par), p_handler := p_handler par\<rparr>"

definition fork ::
  "uint \<Rightarrow> trapframe \<Rightarrow> uint \<Rightarrow> 'z pstate_scheme \<Rightarrow> (int, 'z pstate_scheme) kres" where
  "fork ks tf0 pg k =
     bindk (myproc_k k) (\<lambda>cur k.
     bindk (allocproc ks tf0 k) (\<lambda>np k.
       (case np of None \<Rightarrow> Ok (-1) k | Some np \<Rightarrow>
        (case cur of None \<Rightarrow> Panic ''trap'' | Some cur \<Rightarrow>
         if pg = 0 then
           let k = call (CKfree (p_kstack (k_procs k ! np))) k
           in Ok (-1) (procs_upd np (\<lambda>p. p\<lparr>p_pgdir := 0, p_kstack := 0, p_state := UNUSED\<rparr>) k)
         else
           let par = k_procs k ! cur;
               k = k\<lparr>k_calls := k_calls k @ dup_calls (p_ofile par) @ [CIdup (p_cwd par)]\<rparr>;
               k = k\<lparr>k_umem := (k_umem k)(np := k_umem k cur)\<rparr>;
               k = procs_upd np (fork_copy cur pg par) k;
               pid = p_pid (k_procs k ! np)
           in bindk (acquire_pt k) (\<lambda>_ k.
              bindk (release_pt (procs_upd np (\<lambda>p. p\<lparr>p_state := RUNNABLE\<rparr>) k)) (\<lambda>_ k.
              Ok pid k))))))"

subsection \<open>Exit and wait\<close>

definition close_calls :: "nat option list \<Rightarrow> pcall list" where
  "close_calls fs = map CFileclose (List.map_filter (\<lambda>i. fs ! i) [0..<NOFILE])"

definition reparent1 :: "nat \<Rightarrow> nat option \<Rightarrow> nat \<Rightarrow> proc list \<Rightarrow> proc list" where
  "reparent1 cur ini i ps =
     (if p_parent (ps ! i) = Some cur then
        let ps = ps[i := (ps ! i)\<lparr>p_parent := ini\<rparr>] in
        if p_state (ps ! i) = ZOMBIE then wakeup1 (map_option ChProc ini) ps else ps
      else ps)"

definition exit_enter :: "'z pstate_scheme \<Rightarrow> (bool, 'z pstate_scheme) kres" where
  "exit_enter k =
     bindk (myproc_k k) (\<lambda>cur k.
       if cur = k_initproc k then Panic ''init exiting'' else
       (case cur of None \<Rightarrow> Panic ''trap'' | Some cur \<Rightarrow>
        let k = k\<lparr>k_calls := k_calls k @ close_calls (p_ofile (k_procs k ! cur))
                 @ [CBeginOp, CIput (p_cwd (k_procs k ! cur)), CEndOp]\<rparr>;
            k = procs_upd cur (\<lambda>p. p\<lparr>p_ofile := replicate NOFILE None, p_cwd := None\<rparr>) k
        in bindk (acquire_pt k) (\<lambda>_ k.
             let ps = wakeup1 (map_option ChProc (p_parent (k_procs k ! cur))) (k_procs k);
                 ps = fold (reparent1 cur (k_initproc k)) [0..<length ps] ps;
                 ps = ps[cur := (ps ! cur)\<lparr>p_state := ZOMBIE\<rparr>]
             in sched_enter (k\<lparr>k_procs := ps\<rparr>))))"

text \<open>The scan of \<^verbatim>\<open>wait\<close>: the first zombie child, and whether there is any child.\<close>

definition zombie_child :: "nat \<Rightarrow> proc \<Rightarrow> bool" where
  "zombie_child cur p \<longleftrightarrow> p_parent p = Some cur \<and> p_state p = ZOMBIE"

definition reap :: "proc \<Rightarrow> proc" where
  "reap p = p\<lparr>p_kstack := 0, p_pid := 0, p_parent := None, p_name := (p_name p)[0 := 0],
     p_killed := False, p_state := UNUSED\<rparr>"

definition wait_body :: "nat \<Rightarrow> 'z pstate_scheme \<Rightarrow> (int, 'z pstate_scheme) kres" where
  "wait_body cur k =
     (case find_idx (zombie_child cur) (k_procs k) of
        Some i \<Rightarrow>
          let p = k_procs k ! i;
              k = k\<lparr>k_calls := k_calls k @ [CKfree (p_kstack p), CFreevm (p_pgdir p)]\<rparr>
          in bindk (release_pt (procs_upd i reap k)) (\<lambda>_ k. Ok (p_pid p) k)
      | None \<Rightarrow>
          if \<not> (\<exists>p \<in> set (k_procs k). p_parent p = Some cur) \<or> p_killed (k_procs k ! cur)
          then bindk (release_pt k) (\<lambda>_ k. Ok (-1) k)
          else bindk (sleep_enter (ChProc cur) LkPtable k) (\<lambda>_ k. Sleep (ChProc cur) k))"

definition wait :: "'z pstate_scheme \<Rightarrow> (int, 'z pstate_scheme) kres" where
  "wait k =
     bindk (myproc_k k) (\<lambda>cur k.
     bindk (acquire_pt k) (\<lambda>_ k.
       (case cur of None \<Rightarrow> Panic ''trap'' | Some cur \<Rightarrow> wait_body cur k)))"

definition wait_resume :: "nat \<Rightarrow> bool \<Rightarrow> 'z pstate_scheme \<Rightarrow> (int, 'z pstate_scheme) kres" where
  "wait_resume cur ie k = bindk (sleep_return cur ie LkPtable k) (\<lambda>_ k. wait_body cur k)"

subsection \<open>The scheduler\<close>

text \<open>
  One pass of \<^verbatim>\<open>scheduler\<close> over the table. \<open>run i\<close> stands for what happens between the \<^verbatim>\<open>swtch\<close> to
  process \<open>i\<close> and the \<^verbatim>\<open>swtch\<close> back: the process runs, releases the table lock and takes it again.
  The value of a pass is the list of processes that ran.
\<close>

definition scheduler_start :: "'z kstate_scheme \<Rightarrow> (nat, 'z kstate_scheme) kres" where
  "scheduler_start k =
     bindk (mycpu_k k) (\<lambda>c k. Ok c (k\<lparr>k_mach := upd_cpu c (\<lambda>x. x\<lparr>cproc := None\<rparr>) (k_mach k)\<rparr>))"

definition dispatch :: "nat \<Rightarrow> nat \<Rightarrow> 'z kstate_scheme \<Rightarrow> (unit, 'z kstate_scheme) kres" where
  "dispatch c i k =
     bindk (switchuvm (Some i) (k\<lparr>k_mach := upd_cpu c (\<lambda>x. x\<lparr>cproc := Some i\<rparr>) (k_mach k)\<rparr>))
       (\<lambda>_ k. Ok () (procs_upd i (\<lambda>p. p\<lparr>p_state := RUNNING\<rparr>) k))"

definition switch_back :: "nat \<Rightarrow> 'z kstate_scheme \<Rightarrow> 'z kstate_scheme" where
  "switch_back c k = k\<lparr>k_mach := upd_cpu c (\<lambda>x. x\<lparr>cproc := None\<rparr>) (k_mach k)\<rparr>"

fun sched_loop ::
  "(nat \<Rightarrow> 'z kstate_scheme \<Rightarrow> 'z kstate_scheme) \<Rightarrow> nat \<Rightarrow> nat list \<Rightarrow> 'z kstate_scheme
     \<Rightarrow> (nat list, 'z kstate_scheme) kres" where
  "sched_loop run c [] k = Ok [] k"
| "sched_loop run c (i # is) k =
     (if p_state (k_procs k ! i) \<noteq> RUNNABLE then sched_loop run c is k
      else bindk (dispatch c i k) (\<lambda>_ k.
           bindk (sched_loop run c is (switch_back c (run i k))) (\<lambda>ran k. Ok (i # ran) k)))"

definition scheduler_pass ::
  "(nat \<Rightarrow> 'z kstate_scheme \<Rightarrow> 'z kstate_scheme) \<Rightarrow> nat \<Rightarrow> 'z kstate_scheme
     \<Rightarrow> (nat list, 'z kstate_scheme) kres" where
  "scheduler_pass run c k =
     (let k = k\<lparr>k_mach := sti (k_mach k)\<rparr> in
      bindk (acquire_pt k) (\<lambda>_ k.
      bindk (sched_loop run c [0..<length (k_procs k)] k) (\<lambda>ran k.
      bindk (release_pt k) (\<lambda>_ k. Ok ran k))))"

definition forkret :: "'z pstate_scheme \<Rightarrow> (unit, 'z pstate_scheme) kres" where
  "forkret k = bindk (release_pt k) (\<lambda>_ k.
     Ok () (if k_first k then call CInitlog (call CIinit (k\<lparr>k_first := False\<rparr>)) else k))"

subsection \<open>Listings\<close>

definition ps_listing :: "'z kstate_scheme \<Rightarrow> (int \<times> byte list) list" where
  "ps_listing k = map (\<lambda>p. (p_pid p, cstr (p_name p))) (filter (\<lambda>p. p_state p \<noteq> UNUSED) (k_procs k))"

fun state_name :: "procstate \<Rightarrow> string" where
  "state_name UNUSED = ''unused''"
| "state_name EMBRYO = ''embryo''"
| "state_name SLEEPING = ''sleep ''"
| "state_name RUNNABLE = ''runble''"
| "state_name RUNNING = ''run   ''"
| "state_name ZOMBIE = ''zombie''"

text \<open>\<open>pcs p\<close> is the return-address trace \<^verbatim>\<open>getcallerpcs\<close> reads off the stack of \<open>p\<close>.\<close>

definition procdump ::
  "(proc \<Rightarrow> uint list) \<Rightarrow> 'z kstate_scheme \<Rightarrow> (int \<times> string \<times> byte list \<times> uint list) list" where
  "procdump pcs k =
     map (\<lambda>p. (p_pid p, state_name (p_state p), cstr (p_name p),
            if p_state p = SLEEPING then takeWhile (\<lambda>pc. pc \<noteq> 0) (take 10 (pcs p)) else []))
       (filter (\<lambda>p. p_state p \<noteq> UNUSED) (k_procs k))"

subsection \<open>The table invariant\<close>

text \<open>
  Pids are below \<^verbatim>\<open>nextpid\<close>, no two entries share a non-zero pid, and the rings are well formed.
\<close>

definition pids_ok :: "int list \<Rightarrow> int \<Rightarrow> bool" where
  "pids_ok l np \<longleftrightarrow> 0 < np \<and> (\<forall>x \<in> set l. 0 \<le> x \<and> x < np)
     \<and> (\<forall>i < length l. \<forall>j < length l. l ! i = l ! j \<and> l ! i \<noteq> 0 \<longrightarrow> i = j)"

definition entry_ok :: "proc \<Rightarrow> bool" where
  "entry_ok p \<longleftrightarrow> msgq_ok (p_recv_queue p) \<and> msgq_ok (p_recv_multi_queue p)
     \<and> sigq_ok (p_pending_signals p)"

definition entries_ok :: "proc list \<Rightarrow> bool" where
  "entries_ok ps \<longleftrightarrow> (\<forall>p \<in> set ps. entry_ok p)"

definition ptable_ok :: "'z kstate_scheme \<Rightarrow> bool" where
  "ptable_ok k \<longleftrightarrow> pids_ok (map p_pid (k_procs k)) (k_nextpid k) \<and> entries_ok (k_procs k)"

lemma sole_of_pids_ok:
  "pids_ok (map p_pid ps) np \<Longrightarrow> j < length ps \<Longrightarrow> p_pid (ps ! j) \<noteq> 0 \<Longrightarrow>
   sole (p_pid (ps ! j)) j ps"
  by (auto simp: pids_ok_def sole_def)

lemma pids_ok_fresh: "pids_ok l np \<Longrightarrow> pids_ok (l[i := np]) (np + 1)"
  unfolding pids_ok_def
proof (elim conjE, intro conjI allI ballI impI, goal_cases)
  case (2 x)
  then show ?case using set_update_subset_insert [of l i np] by auto
next
  case (3 x)
  then show ?case using set_update_subset_insert [of l i np] by force
next
  case (4 a b)
  have "l ! b \<noteq> np" if "b < length l" for b using 4(2) that by fastforce
  then show ?case using 4 by (cases "a = i"; cases "b = i") auto
qed simp

lemma pids_ok_zero: "pids_ok l np \<Longrightarrow> pids_ok (l[i := 0]) np"
  unfolding pids_ok_def
proof (elim conjE, intro conjI allI ballI impI, goal_cases)
  case (2 x)
  then show ?case using set_update_subset_insert [of l i 0] by auto
next
  case (3 x)
  then show ?case using set_update_subset_insert [of l i 0] by auto
next
  case (4 a b)
  then show ?case by (cases "a = i"; cases "b = i") auto
qed simp

lemma entries_upd: "entries_ok ps \<Longrightarrow> entry_ok p \<Longrightarrow> entries_ok (ps[i := p])"
  unfolding entries_ok_def using set_update_subset_insert by fastforce

lemma entry_ok_nth: "entries_ok ps \<Longrightarrow> i < length ps \<Longrightarrow> entry_ok (ps ! i)"
  by (simp add: entries_ok_def)

lemma entry_ok_wakeup1: "entries_ok ps \<Longrightarrow> entries_ok (wakeup1 ch ps)"
  by (auto simp: wakeup1_def entries_ok_def entry_ok_def)

subsection \<open>A pass of the scheduler\<close>

lemma pushed_set_cproc:
  assumes "on_cpu c m"
  shows "upd_cpu c (\<lambda>x. x\<lparr>cproc := v\<rparr>) (pushed c m) = pushed c (upd_cpu c (\<lambda>x. x\<lparr>cproc := v\<rparr>) m)"
    "on_cpu c (upd_cpu c (\<lambda>x. x\<lparr>cproc := v\<rparr>) m)"
  using on_cpu_lt [OF assms] assms
  by (auto simp: upd_cpu_def pushed_def find_cpu_upd on_cpu_def [of c "m\<lparr>cpus := cs\<rparr>" for cs]
      intro!: mach.equality arg_cong [of _ _ "list_update _ _"]) (auto simp: on_cpu_def)

definition sched_held :: "nat \<Rightarrow> 'z kstate_scheme \<Rightarrow> bool" where
  "sched_held c k \<longleftrightarrow> (\<exists>m. on_cpu c m \<and> k_mach k = pushed c m)
     \<and> locked (k_ptlock k) \<and> lk_cpu (k_ptlock k) = Some c"

definition runnable_ok :: "'z kstate_scheme \<Rightarrow> bool" where
  "runnable_ok k \<longleftrightarrow> (\<forall>p \<in> set (k_procs k).
     p_state p = RUNNABLE \<or> p_state p = RUNNING \<longrightarrow> p_kstack p \<noteq> 0 \<and> p_pgdir p \<noteq> 0)"

text \<open>What a process may do while it runs: anything but stop another runnable process.\<close>

definition runs_fair :: "nat \<Rightarrow> (nat \<Rightarrow> 'z kstate_scheme \<Rightarrow> 'z kstate_scheme) \<Rightarrow> bool" where
  "runs_fair c run \<longleftrightarrow> (\<forall>i k. sched_held c k \<and> runnable_ok k \<longrightarrow>
     sched_held c (run i k) \<and> runnable_ok (run i k)
     \<and> length (k_procs (run i k)) = length (k_procs k)
     \<and> (\<forall>j < length (k_procs k). j \<noteq> i \<and> p_state (k_procs k ! j) = RUNNABLE \<longrightarrow>
          p_state (k_procs (run i k) ! j) = RUNNABLE))"

lemma switchuvm_held:
  assumes "on_cpu c m" "k_mach k = pushed c m"
    "p_kstack (k_procs k ! i) \<noteq> 0" "p_pgdir (k_procs k ! i) \<noteq> 0"
  shows "switchuvm (Some i) k = Ok () k"
proof -
  have on: "on_cpu c (pushed c m)" by (rule on_cpu_pushed [OF assms(1)])
  have "pushcli (pushed c m) = Ok () (pushed c (pushed c m))" by (rule pushcli_on_cpu [OF on])
  moreover have "popcli (pushed c (pushed c m)) = Ok () (pushed c m)"
    using popcli_pushed [OF on] assms(1) by simp
  moreover have "k\<lparr>k_mach := pushed c m\<rparr> = k" using assms(2) by simp
  ultimately show ?thesis using assms by (simp add: switchuvm_def)
qed

lemma dispatch_held:
  assumes "sched_held c k" "runnable_ok k" "i < length (k_procs k)" "p_state (k_procs k ! i) = RUNNABLE"
  shows "\<exists>k'. dispatch c i k = Ok () k' \<and> sched_held c k' \<and> runnable_ok k'
    \<and> k_procs k' = (k_procs k)[i := (k_procs k ! i)\<lparr>p_state := RUNNING\<rparr>]"
proof -
  from assms(1) obtain m where m: "on_cpu c m" "k_mach k = pushed c m"
    by (auto simp: sched_held_def)
  let ?m = "upd_cpu c (\<lambda>x. x\<lparr>cproc := Some i\<rparr>) m"
  let ?k = "k\<lparr>k_mach := upd_cpu c (\<lambda>x. x\<lparr>cproc := Some i\<rparr>) (k_mach k)\<rparr>"
  have km: "on_cpu c ?m" "k_mach ?k = pushed c ?m"
    using pushed_set_cproc [OF m(1)] m(2) by simp_all
  have "p_kstack (k_procs ?k ! i) \<noteq> 0" "p_pgdir (k_procs ?k ! i) \<noteq> 0"
    using assms(2-4) by (simp_all add: runnable_ok_def)
  moreover from this have "runnable_ok (procs_upd i (\<lambda>p. p\<lparr>p_state := RUNNING\<rparr>) k)"
    using assms(2,3) unfolding runnable_ok_def by (auto dest!: set_update_subset_insert [THEN subsetD])
  ultimately show ?thesis
    using switchuvm_held [OF km] assms(1) km
    by (auto simp: dispatch_def sched_held_def runnable_ok_def)
qed

lemma sched_held_back: "sched_held c k \<Longrightarrow> sched_held c (switch_back c k)"
  using pushed_set_cproc by (fastforce simp: sched_held_def switch_back_def)

lemma switch_back_procs [simp]: "k_procs (switch_back c k) = k_procs k"
  by (simp add: switch_back_def)

lemma sched_loop_fair:
  assumes "runs_fair c run" "sched_held c k" "runnable_ok k" "sorted_wrt (<) is"
    "\<forall>i \<in> set is. i < length (k_procs k)"
  shows "\<exists>ran k'. sched_loop run c is k = Ok ran k' \<and> sched_held c k' \<and> sorted_wrt (<) ran
    \<and> set ran \<subseteq> set is \<and> (\<forall>j \<in> set is. p_state (k_procs k ! j) = RUNNABLE \<longrightarrow> j \<in> set ran)"
  using assms(2-5)
proof (induction "is" arbitrary: k)
  case (Cons i "is")
  show ?case
  proof (cases "p_state (k_procs k ! i) = RUNNABLE")
    case False
    with Cons.IH [of k] Cons.prems show ?thesis by fastforce
  next
    case True
    then obtain k1 where k1: "dispatch c i k = Ok () k1" "sched_held c k1" "runnable_ok k1"
      "k_procs k1 = (k_procs k)[i := (k_procs k ! i)\<lparr>p_state := RUNNING\<rparr>]"
      using dispatch_held Cons.prems by force
    let ?k = "switch_back c (run i k1)"
    have fair: "sched_held c (run i k1)" "runnable_ok (run i k1)"
      "length (k_procs (run i k1)) = length (k_procs k1)"
      "\<And>j. j < length (k_procs k1) \<Longrightarrow> j \<noteq> i \<Longrightarrow> p_state (k_procs k1 ! j) = RUNNABLE \<Longrightarrow>
         p_state (k_procs (run i k1) ! j) = RUNNABLE"
      using assms(1) k1(2,3) unfolding runs_fair_def by blast+
    have keep: "\<And>j. j \<in> set is \<Longrightarrow> p_state (k_procs k ! j) = RUNNABLE \<Longrightarrow> p_state (k_procs ?k ! j) = RUNNABLE"
      using fair(4) Cons.prems(3,4) k1(4) by fastforce
    have "\<exists>ran k'. sched_loop run c is ?k = Ok ran k' \<and> sched_held c k' \<and> sorted_wrt (<) ran
      \<and> set ran \<subseteq> set is \<and> (\<forall>j \<in> set is. p_state (k_procs ?k ! j) = RUNNABLE \<longrightarrow> j \<in> set ran)"
      using fair(1-3) Cons.prems(3,4) k1(4)
      by (intro Cons.IH) (simp_all add: sched_held_back runnable_ok_def)
    then obtain ran k' where r: "sched_loop run c is ?k = Ok ran k'" "sched_held c k'"
      "sorted_wrt (<) ran" "set ran \<subseteq> set is"
      "\<forall>j \<in> set is. p_state (k_procs ?k ! j) = RUNNABLE \<longrightarrow> j \<in> set ran" by blast
    have "sorted_wrt (<) (i # ran)" using r(3,4) Cons.prems(3) by auto
    then show ?thesis using True k1(1) r keep by auto
  qed
qed simp

lemma release_sched_held:
  "sched_held c k \<Longrightarrow> \<exists>m. release_pt k = Ok () (unlockpt c m k)"
  using release_pt_held by (fastforce simp: sched_held_def)


text \<open>A process that only gives up the CPU again.\<close>

definition run_yield :: "nat \<Rightarrow> kstate \<Rightarrow> kstate" where
  "run_yield i k = (if i < length (k_procs k) \<and> p_state (k_procs k ! i) = RUNNING
     then procs_upd i (\<lambda>p. p\<lparr>p_state := RUNNABLE\<rparr>) k else k)"

lemma runs_fair_yield: "runs_fair c run_yield"
  unfolding runs_fair_def run_yield_def sched_held_def runnable_ok_def
  by (auto dest!: set_update_subset_insert [THEN subsetD])


subsection \<open>Every operation keeps the table invariant\<close>

lemma ptable_ok_blind: "lock_blind ptable_ok"
  by (simp add: lock_blind_def ptable_ok_def)

lemmas pt_lock = lock_blindD [OF ptable_ok_blind]

lemma ptable_ok_upd:
  assumes "ptable_ok k"
    and "i < length (k_procs k) \<Longrightarrow> p_pid (f (k_procs k ! i)) = p_pid (k_procs k ! i)"
    and "i < length (k_procs k) \<Longrightarrow> entry_ok (k_procs k ! i) \<Longrightarrow> entry_ok (f (k_procs k ! i))"
  shows "ptable_ok (procs_upd i f k)"
proof (cases "i < length (k_procs k)")
  case True
  then have "map p_pid ((k_procs k)[i := f (k_procs k ! i)]) = map p_pid (k_procs k)"
    using assms(2) by (intro upd_pids) simp
  with True assms(1,3) show ?thesis by (simp add: ptable_ok_def entries_upd entry_ok_nth)
qed (use assms(1) in \<open>simp add: ptable_ok_def list_update_beyond\<close>)

lemma ptable_ok_frame [simp]:
  "ptable_ok (k\<lparr>k_umem := u\<rparr>) = ptable_ok k" "ptable_ok (k\<lparr>k_initproc := q\<rparr>) = ptable_ok k"
  "ptable_ok (pk\<lparr>k_calls := cs\<rparr>) = ptable_ok pk" "ptable_ok (call cl pk) = ptable_ok pk"
  "ptable_ok (pk\<lparr>k_first := b\<rparr>) = ptable_ok pk"
  by (simp_all add: ptable_ok_def call_def)

lemma queue_reset_ok:
  "msgq_ok q \<Longrightarrow> msgq_ok (q\<lparr>mq_head := 0, mq_tail := 0\<rparr>)"
  "sigq_ok s \<Longrightarrow> sigq_ok (s\<lparr>sg_head := 0, sg_tail := 0\<rparr>)"
  by (simp_all add: msgq_ok_def sigq_ok_def)

definition fresh_slot :: "nat option \<Rightarrow> 'z kstate_scheme \<Rightarrow> bool" where
  "fresh_slot r k \<longleftrightarrow> ptable_ok k \<and> (\<forall>i. r = Some i \<longrightarrow> i < length (k_procs k)
     \<and> p_state (k_procs k ! i) = EMBRYO \<and> p_kstack (k_procs k ! i) \<noteq> 0)"

lemma allocproc_post:
  assumes "ptable_ok k"
  shows "kpost fresh_slot ptable_ok (allocproc ks tf0 k)"
  unfolding allocproc_def
proof (rule kpost_bind [OF pt_lock(1) [OF assms]])
  fix k :: "'a kstate_scheme"
  assume ok: "ptable_ok k"
  show "kpost fresh_slot ptable_ok (case find_idx (\<lambda>p. p_state p = UNUSED) (k_procs k) of
          None \<Rightarrow> bindk (release_pt k) (\<lambda>_ k. Ok None k)
        | Some i \<Rightarrow>
           bindk (release_pt (procs_upd i (\<lambda>p. p\<lparr>p_state := EMBRYO, p_pid := k_nextpid k\<rparr>)
                    (k\<lparr>k_nextpid := k_nextpid k + 1\<rparr>))) (\<lambda>_ k.
             if ks = 0 then Ok None (procs_upd i (\<lambda>p. p\<lparr>p_kstack := 0, p_state := UNUSED\<rparr>) k)
             else Ok (Some i) (procs_upd i (\<lambda>p. alloc_init tf0 (p\<lparr>p_kstack := ks\<rparr>)) k)))"
  proof (cases "find_idx (\<lambda>p. p_state p = UNUSED) (k_procs k)")
    case None
    show ?thesis unfolding None option.case
      by (rule kpost_bind [OF pt_lock(2) [OF ok]]) (simp add: fresh_slot_def)
  next
    case (Some i)
    let ?k = "procs_upd i (\<lambda>p. p\<lparr>p_state := EMBRYO, p_pid := k_nextpid k\<rparr>)
                (k\<lparr>k_nextpid := k_nextpid k + 1\<rparr>)"
    have lt: "i < length (k_procs k)" by (rule find_idx_lt [OF Some])
    have "0 < k_nextpid k" using ok by (simp add: ptable_ok_def pids_ok_def)
    then have "entry_ok ((k_procs k ! i)\<lparr>p_state := EMBRYO, p_pid := k_nextpid k\<rparr>)"
      using ok lt entry_ok_nth [of "k_procs k" i] by (simp add: ptable_ok_def entry_ok_def)
    then have "ptable_ok ?k"
      using ok by (simp add: ptable_ok_def map_update pids_ok_fresh entries_upd)
    then have "kpost (\<lambda>_ k. ptable_ok k \<and> i < length (k_procs k) \<and> p_state (k_procs k ! i) = EMBRYO)
        ptable_ok (release_pt ?k)"
      using lt by (intro release_pt_post) (simp_all add: ptable_ok_def)
    then show ?thesis unfolding Some option.case
    proof (rule kpost_bind)
      fix k :: "'a kstate_scheme"
      assume h: "ptable_ok k \<and> i < length (k_procs k) \<and> p_state (k_procs k ! i) = EMBRYO"
      have "ptable_ok (procs_upd i (\<lambda>p. p\<lparr>p_kstack := 0, p_state := UNUSED\<rparr>) k)"
        using h by (intro ptable_ok_upd) (auto simp: entry_ok_def)
      moreover have "ptable_ok (procs_upd i (\<lambda>p. alloc_init tf0 (p\<lparr>p_kstack := ks\<rparr>)) k)"
        using h by (intro ptable_ok_upd) (auto simp: entry_ok_def alloc_init_def queue_reset_ok)
      ultimately show "kpost fresh_slot ptable_ok
          (if ks = 0 then Ok None (procs_upd i (\<lambda>p. p\<lparr>p_kstack := 0, p_state := UNUSED\<rparr>) k)
           else Ok (Some i) (procs_upd i (\<lambda>p. alloc_init tf0 (p\<lparr>p_kstack := ks\<rparr>)) k))"
        using h by (simp add: fresh_slot_def alloc_init_def)
    qed
  qed
qed

lemma fork_post:
  assumes "ptable_ok k"
  shows "kpost (\<lambda>_. ptable_ok) ptable_ok (fork ks tf0 pg k)"
  unfolding fork_def
proof (rule kpost_bind [OF pt_lock(3) [OF assms]], rule kpost_bind [OF allocproc_post], assumption)
  fix cur np and k :: "'a pstate_scheme"
  assume h: "fresh_slot np k"
  let ?rel = "\<lambda>np k. procs_upd np (\<lambda>p. p\<lparr>p_state := RUNNABLE\<rparr>) k"
  show "kpost (\<lambda>_. ptable_ok) ptable_ok
      (case np of None \<Rightarrow> Ok (-1) k | Some np \<Rightarrow>
        (case cur of None \<Rightarrow> Panic ''trap'' | Some cur \<Rightarrow>
         if pg = 0 then
           let k = call (CKfree (p_kstack (k_procs k ! np))) k
           in Ok (-1) (procs_upd np (\<lambda>p. p\<lparr>p_pgdir := 0, p_kstack := 0, p_state := UNUSED\<rparr>) k)
         else
           let par = k_procs k ! cur;
               k = k\<lparr>k_calls := k_calls k @ dup_calls (p_ofile par) @ [CIdup (p_cwd par)]\<rparr>;
               k = k\<lparr>k_umem := (k_umem k)(np := k_umem k cur)\<rparr>;
               k = procs_upd np (fork_copy cur pg par) k;
               pid = p_pid (k_procs k ! np)
           in bindk (acquire_pt k) (\<lambda>_ k. bindk (release_pt (?rel np k)) (\<lambda>_ k. Ok pid k))))"
  proof (cases np; cases cur)
    fix i c assume some: "np = Some i" "cur = Some c"
    let ?k = "k\<lparr>k_calls := k_calls k @ dup_calls (p_ofile (k_procs k ! c)) @ [CIdup (p_cwd (k_procs k ! c))],
               k_umem := (k_umem k)(i := k_umem k c)\<rparr>"
    let ?k2 = "procs_upd i (fork_copy c pg (k_procs k ! c)) ?k"
    have ok: "ptable_ok k" "i < length (k_procs k)" "p_state (k_procs k ! i) = EMBRYO"
      "p_kstack (k_procs k ! i) \<noteq> 0" using h some by (simp_all add: fresh_slot_def)
    have fail: "ptable_ok (procs_upd i (\<lambda>p. p\<lparr>p_pgdir := 0, p_kstack := 0, p_state := UNUSED\<rparr>) (call cl k))" for cl
      using ok by (intro ptable_ok_upd) (auto simp: entry_ok_def)
    have "ptable_ok ?k2" if "pg \<noteq> 0"
      using ok that by (intro ptable_ok_upd) (auto simp: entry_ok_def fork_copy_def ptable_ok_def)
    moreover have "p_state (k_procs ?k2 ! i) = EMBRYO" "p_kstack (k_procs ?k2 ! i) \<noteq> 0"
      "p_pgdir (k_procs ?k2 ! i) = pg" using ok by (simp_all add: fork_copy_def)
    ultimately have "kpost (\<lambda>_ k. ptable_ok (?rel i k)) ptable_ok (acquire_pt ?k2)" if "pg \<noteq> 0"
      using that pt_lock(6) by (intro acquire_pt_post ptable_ok_upd) (auto simp: entry_ok_def ptable_ok_def)
    then have "kpost (\<lambda>_. ptable_ok) ptable_ok
       (bindk (acquire_pt ?k2) (\<lambda>_ k. bindk (release_pt (?rel i k)) (\<lambda>_ k. Ok pid k)))" if "pg \<noteq> 0" for pid
      using that by (auto intro!: kpost_bind [where Q = "\<lambda>_ k. ptable_ok (?rel i k)"]
          kpost_bind [OF pt_lock(2)])
    with fail show ?thesis by (auto simp: some Let_def)
  qed (use h in \<open>simp_all add: fresh_slot_def\<close>)
qed

definition pt_keep :: "(proc list \<Rightarrow> proc list) \<Rightarrow> bool" where
  "pt_keep f \<longleftrightarrow> (\<forall>ps. map p_pid (f ps) = map p_pid ps \<and> (entries_ok ps \<longrightarrow> entries_ok (f ps)))"

lemma pt_keepI:
  "(\<And>ps. map p_pid (f ps) = map p_pid ps) \<Longrightarrow> (\<And>ps. entries_ok ps \<Longrightarrow> entries_ok (f ps)) \<Longrightarrow> pt_keep f"
  by (simp add: pt_keep_def)

lemma pt_keepD:
  "pt_keep f \<Longrightarrow> map p_pid (f ps) = map p_pid ps" "pt_keep f \<Longrightarrow> entries_ok ps \<Longrightarrow> entries_ok (f ps)"
  by (simp_all add: pt_keep_def)

lemma ptable_ok_keep: "pt_keep f \<Longrightarrow> ptable_ok k \<Longrightarrow> ptable_ok (k\<lparr>k_procs := f (k_procs k)\<rparr>)"
  by (simp add: ptable_ok_def pt_keepD)

lemma pt_keep_comp: "pt_keep f \<Longrightarrow> pt_keep g \<Longrightarrow> pt_keep (\<lambda>ps. f (g ps))"
  by (rule pt_keepI) (simp_all add: pt_keepD)

lemma pt_keep_if: "pt_keep f \<Longrightarrow> pt_keep g \<Longrightarrow> pt_keep (\<lambda>ps. if c ps then f ps else g ps)"
  by (rule pt_keepI) (simp_all add: pt_keepD)

lemma pt_keep_id: "pt_keep (\<lambda>ps. ps)"
  by (simp add: pt_keep_def)

lemma pt_keep_fold:
  assumes "\<And>i. pt_keep (f i)"
  shows "pt_keep (fold f is)"
proof (induction "is")
  case (Cons i "is")
  from pt_keep_comp [OF this assms [of i]] show ?case by (simp add: comp_def)
qed (simp add: pt_keep_def)

lemma pt_keep_wakeup_at: "pt_keep f \<Longrightarrow> pt_keep (\<lambda>ps. wakeup1 (g ps) (f ps))"
  by (rule pt_keepI) (simp_all add: pt_keepD entry_ok_wakeup1)

lemma pt_keep_upd:
  assumes "\<And>p. p_pid (f p) = p_pid p" "\<And>p. entry_ok p \<Longrightarrow> entry_ok (f p)"
  shows "pt_keep (\<lambda>ps. ps[i := f (ps ! i)])"
proof (rule pt_keepI)
  fix ps assume ok: "entries_ok ps"
  show "entries_ok (ps[i := f (ps ! i)])"
    using ok assms(2) entry_ok_nth [OF ok]
    by (cases "i < length ps") (simp_all add: list_update_beyond entries_upd)
qed (simp add: assms(1))

lemma pt_keep_reparent1: "pt_keep (reparent1 cur ini i)"
proof -
  let ?f = "\<lambda>ps. ps[i := (ps ! i)\<lparr>p_parent := ini\<rparr>]"
  have k: "pt_keep ?f" by (rule pt_keep_upd [where f = "\<lambda>p. p\<lparr>p_parent := ini\<rparr>"]) (simp_all add: entry_ok_def)
  from pt_keep_if [OF pt_keep_if [OF pt_keep_wakeup_at [OF k, of "\<lambda>_. map_option ChProc ini"] k,
      of "\<lambda>ps. p_state (?f ps ! i) = ZOMBIE"] pt_keep_id, of "\<lambda>ps. p_parent (ps ! i) = Some cur"]
  show ?thesis unfolding reparent1_def Let_def .
qed

lemma pt_keep_send_to: "pt_keep (send_to sender m i)"
  unfolding send_to_def Let_def
  by (rule pt_keep_wakeup_at, rule pt_keep_upd [where f = "\<lambda>p. p\<lparr>p_recv_queue := msg_put (sender, m) (p_recv_queue p)\<rparr>"])
     (simp_all add: entry_ok_def msgq.ok_put)

lemma pt_keep_signal_to: "pt_keep (signal_to sender n i)"
  unfolding signal_to_def Let_def
  by (rule pt_keep_wakeup_at, rule pt_keep_upd [where f = "\<lambda>p. p\<lparr>p_pending_signals := sig_put (n, sender) (p_pending_signals p)\<rparr>"])
     (simp_all add: entry_ok_def sigq.ok_put)

lemma pt_keep_signal_loop: "pt_keep (signal_loop sender to n is)"
  unfolding signal_loop_def
  by (rule pt_keep_fold, rule pt_keep_if [OF pt_keep_signal_to pt_keep_id])

lemma pt_keep_send_loop: "pt_keep (\<lambda>ps. fst (send_loop sender rec m is (ps, ok)))"
proof (induction "is" arbitrary: ok)
  case (Cons i "is")
  have "(\<lambda>ps. fst (send_loop sender rec m (i # is) (ps, ok))) =
      (\<lambda>ps. if p_pid (ps ! i) = rec then fst (send_loop sender rec m is (send_to sender m i ps, True))
       else fst (send_loop sender rec m is (ps, ok)))" by (rule ext) (simp add: send_loop_def)
  then show ?case
    using pt_keep_if [OF pt_keep_comp [OF Cons.IH [of True] pt_keep_send_to] Cons.IH [of ok],
        of "\<lambda>ps. p_pid (ps ! i) = rec"] by simp
qed (simp add: send_loop_def pt_keep_id)

lemma pt_upd_any:
  assumes "ptable_ok k" "\<And>p. p_pid (f p) = p_pid p" "\<And>p. entry_ok p \<Longrightarrow> entry_ok (f p)"
  shows "ptable_ok (procs_upd i f k)"
  using assms by (intro ptable_ok_upd) simp_all

lemma pt_sleep: "ptable_ok k \<Longrightarrow> ptable_ok (procs_upd p (\<lambda>x. x\<lparr>p_chan := Some ch, p_state := SLEEPING\<rparr>) k)"
  by (erule pt_upd_any) (simp_all add: entry_ok_def)

lemma pt_wake: "ptable_ok k \<Longrightarrow> ptable_ok (procs_upd p (\<lambda>x. x\<lparr>p_chan := None\<rparr>) k)"
  by (erule pt_upd_any) (simp_all add: entry_ok_def)

lemma pt_sched:
  assumes "ptable_ok k"
  shows "kpost (\<lambda>_. ptable_ok) ptable_ok (sched_enter k)"
    "kpost (\<lambda>_. ptable_ok) ptable_ok (sleep_enter ch LkPtable k)"
    "kpost (\<lambda>_. ptable_ok) ptable_ok (sleep_return p ie LkPtable k)"
  using assms by (auto intro: sched_enter_post sleep_enter_post sleep_return_post ptable_ok_blind pt_sleep pt_wake)

lemma exit_enter_post:
  assumes "ptable_ok k"
  shows "kpost (\<lambda>_. ptable_ok) ptable_ok (exit_enter k)"
  unfolding exit_enter_def Let_def
proof (rule kpost_bind [OF pt_lock(3) [OF assms]])
  fix cur and k :: "'a pstate_scheme"
  assume ok: "ptable_ok k"
  let ?f = "\<lambda>cur k. (fold (reparent1 cur (k_initproc k)) [0..<length (wakeup1 (map_option ChProc (p_parent (k_procs k ! cur))) (k_procs k))]
      (wakeup1 (map_option ChProc (p_parent (k_procs k ! cur))) (k_procs k)))"
  have f: "ptable_ok (k\<lparr>k_procs := (?f c k)[c := (?f c k ! c)\<lparr>p_state := ZOMBIE\<rparr>]\<rparr>)"
    if "ptable_ok k" for c and k :: "'a pstate_scheme"
  proof -
    let ?ch = "map_option ChProc (p_parent (k_procs k ! c))" and ?is = "[0..<length (k_procs k)]"
    have "pt_keep (\<lambda>ps. fold (reparent1 c (k_initproc k)) ?is (wakeup1 ?ch ps))"
      by (rule pt_keep_comp [OF pt_keep_fold [OF pt_keep_reparent1] pt_keep_wakeup_at [OF pt_keep_id]])
    then have "ptable_ok (k\<lparr>k_procs := ?f c k\<rparr>)" using ptable_ok_keep [OF _ that] by simp
    from pt_upd_any [OF this, of "\<lambda>p. p\<lparr>p_state := ZOMBIE\<rparr>" c] show ?thesis by (simp add: entry_ok_def)
  qed
  have cl: "ptable_ok (procs_upd c (\<lambda>p. p\<lparr>p_ofile := fs, p_cwd := None\<rparr>) (k\<lparr>k_calls := cs\<rparr>))" for c fs cs
    using ok by (intro pt_upd_any) (simp_all add: entry_ok_def)
  show "kpost (\<lambda>_. ptable_ok) ptable_ok
     (if cur = k_initproc k then Panic ''init exiting'' else
       (case cur of None \<Rightarrow> Panic ''trap'' | Some cur \<Rightarrow>
        bindk (acquire_pt (procs_upd cur (\<lambda>p. p\<lparr>p_ofile := replicate NOFILE None, p_cwd := None\<rparr>)
                (k\<lparr>k_calls := k_calls k @ close_calls (p_ofile (k_procs k ! cur))
                 @ [CBeginOp, CIput (p_cwd (k_procs k ! cur)), CEndOp]\<rparr>)))
         (\<lambda>_ k. sched_enter (k\<lparr>k_procs := (?f cur k)[cur := (?f cur k ! cur)\<lparr>p_state := ZOMBIE\<rparr>]\<rparr>))))"
  proof (cases cur)
    case (Some c)
    have "kpost (\<lambda>_. ptable_ok) ptable_ok
        (bindk (acquire_pt (procs_upd c (\<lambda>p. p\<lparr>p_ofile := replicate NOFILE None, p_cwd := None\<rparr>)
                (k\<lparr>k_calls := k_calls k @ close_calls (p_ofile (k_procs k ! c))
                 @ [CBeginOp, CIput (p_cwd (k_procs k ! c)), CEndOp]\<rparr>)))
         (\<lambda>_ k. sched_enter (k\<lparr>k_procs := (?f c k)[c := (?f c k ! c)\<lparr>p_state := ZOMBIE\<rparr>]\<rparr>)))"
      by (rule kpost_bind [OF pt_lock(1) [OF cl]]) (rule pt_sched(1), rule f)
    then show ?thesis unfolding Some option.case by (simp only: if_split kpost_simps simp_thms)
  qed simp
qed

lemma wait_body_post:
  assumes "ptable_ok k"
  shows "kpost (\<lambda>_. ptable_ok) ptable_ok (wait_body cur k)"
proof -
  have reap: "ptable_ok (procs_upd i reap (k\<lparr>k_calls := cs\<rparr>))" for i cs
  proof (cases "i < length (k_procs k)")
    case True
    then show ?thesis
      using assms entry_ok_nth [of "k_procs k" i]
      by (simp add: ptable_ok_def map_update reap_def pids_ok_zero entries_upd entry_ok_def)
  qed (use assms in \<open>simp add: ptable_ok_def list_update_beyond\<close>)
  show ?thesis
  proof (cases "find_idx (zombie_child cur) (k_procs k)")
    case (Some i)
    show ?thesis unfolding wait_body_def Some option.case Let_def
      by (rule kpost_bind [OF pt_lock(2) [OF reap]]) simp
  next
    case None
    have "kpost (\<lambda>_. ptable_ok) ptable_ok (bindk (release_pt k) (\<lambda>_ k. Ok (-1) k))"
      by (rule kpost_bind [OF pt_lock(2) [OF assms]]) simp
    moreover have "kpost (\<lambda>_. ptable_ok) ptable_ok
        (bindk (sleep_enter (ChProc cur) LkPtable k) (\<lambda>_ k. Sleep (ChProc cur) k))"
      by (rule kpost_bind [OF pt_sched(2) [OF assms]]) simp
    ultimately show ?thesis by (auto simp: wait_body_def None)
  qed
qed

lemma wait_post: "ptable_ok k \<Longrightarrow> kpost (\<lambda>_. ptable_ok) ptable_ok (wait k)"
  unfolding wait_def
  by (rule kpost_bind [OF pt_lock(3)], assumption, rule kpost_bind [OF pt_lock(1)], assumption)
     (simp add: wait_body_post split: option.splits)

lemma wait_resume_post: "ptable_ok k \<Longrightarrow> kpost (\<lambda>_. ptable_ok) ptable_ok (wait_resume cur ie k)"
  unfolding wait_resume_def by (rule kpost_bind [OF pt_sched(3)]) (auto intro: wait_body_post)

lemma kill_post: "ptable_ok k \<Longrightarrow> kpost (\<lambda>_. ptable_ok) ptable_ok (kill pid k)"
  unfolding kill_def
proof (rule kpost_bind [OF pt_lock(1)], assumption)
  fix k :: "'a kstate_scheme"
  assume ok: "ptable_ok k"
  have "ptable_ok (procs_upd j kill_mark k)" for j
    using ok by (rule pt_upd_any) (simp_all add: kill_mark_def Let_def entry_ok_def)
  then show "kpost (\<lambda>_. ptable_ok) ptable_ok
      (bindk (case find_idx (\<lambda>p. p_pid p = pid) (k_procs k) of
              Some j \<Rightarrow> Ok 0 (procs_upd j kill_mark k) | None \<Rightarrow> Ok (-1) k) (\<lambda>r k.
       bindk (release_pt k) (\<lambda>_ k. Ok r k)))"
    using ok by (intro kpost_bind [where Q = "\<lambda>_. ptable_ok"] kpost_bind [OF pt_lock(2)])
      (simp_all split: option.splits)
qed

lemma wakeup_post: "ptable_ok k \<Longrightarrow> kpost (\<lambda>_. ptable_ok) ptable_ok (wakeup ch k)"
  unfolding wakeup_def
  by (rule kpost_bind [OF pt_lock(1)], assumption, rule pt_lock(2),
      rule ptable_ok_keep [OF pt_keep_wakeup_at [OF pt_keep_id]])

lemma send_mess_post: "ptable_ok k \<Longrightarrow> kpost (\<lambda>_. ptable_ok) ptable_ok (send_mess cur sender rec mess k)"
  unfolding send_mess_def
proof (rule kpost_bind [OF pt_lock(1)], assumption)
  fix k :: "'a kstate_scheme"
  assume ok: "ptable_ok k"
  let ?r = "send_loop sender rec (mem_read (k_umem k cur) mess MSGSIZE) [0..<length (k_procs k)] (k_procs k, False)"
  have "ptable_ok (k\<lparr>k_procs := fst ?r\<rparr>)" by (rule ptable_ok_keep [OF pt_keep_send_loop ok])
  then have "kpost (\<lambda>_. ptable_ok) ptable_ok (let m = mem_read (k_umem k cur) mess MSGSIZE;
                (ps, ok) = send_loop sender rec m [0..<length (k_procs k)] (k_procs k, False)
            in Ok (if ok then 0 else -1) (k\<lparr>k_procs := ps\<rparr>))"
    by (cases ?r) simp
  then show "kpost (\<lambda>_. ptable_ok) ptable_ok
      (bindk (let m = mem_read (k_umem k cur) mess MSGSIZE;
                (ps, ok) = send_loop sender rec m [0..<length (k_procs k)] (k_procs k, False)
            in Ok (if ok then 0 else -1) (k\<lparr>k_procs := ps\<rparr>)) (\<lambda>r k. bindk (release_pt k) (\<lambda>_ k. Ok r k)))"
    by (rule kpost_bind) (rule kpost_bind [OF pt_lock(2)], simp_all)
qed

lemma recv_loop_post: "ptable_ok k \<Longrightarrow> kpost (\<lambda>_. ptable_ok) ptable_ok (recv_loop cur rec mess is ok k)"
proof (induction "is" arbitrary: ok k)
  case (Cons i "is")
  have adv: "ptable_ok (procs_upd i (\<lambda>p. p\<lparr>p_recv_queue := msg_advance (p_recv_queue (k_procs k ! i))\<rparr>)
      (k\<lparr>k_umem := u\<rparr>))" for u
    using Cons.prems by (intro ptable_ok_upd) (simp_all add: entry_ok_def msgq.ok_advance)
  have slp: "kpost (\<lambda>_. ptable_ok) ptable_ok (bindk (sleep_enter (ChRecv i) LkPtable k) (\<lambda>_ k. Sleep (ChRecv i) k))"
    by (rule kpost_bind [OF pt_sched(2) [OF Cons.prems]]) simp
  show ?case using Cons.IH [OF adv] Cons.IH [OF Cons.prems] slp by (auto simp: Let_def)
qed simp

lemma recv_post:
  "ptable_ok k \<Longrightarrow> kpost (\<lambda>_. ptable_ok) ptable_ok (recv_mess cur rec mess k)"
  "ptable_ok k \<Longrightarrow> kpost (\<lambda>_. ptable_ok) ptable_ok (recv_resume cur rec mess i ok ie k)"
proof -
  have fin: "ptable_ok k \<Longrightarrow> kpost (\<lambda>_. ptable_ok) ptable_ok (recv_finish ok k)"
    for ok and k :: "'a kstate_scheme"
    unfolding recv_finish_def by (rule kpost_bind [OF pt_lock(2)]) simp_all
  show "ptable_ok k \<Longrightarrow> kpost (\<lambda>_. ptable_ok) ptable_ok (recv_mess cur rec mess k)"
    unfolding recv_mess_def
    by (rule kpost_bind [OF pt_lock(1)], assumption, rule kpost_bind [OF recv_loop_post], assumption, rule fin)
  show "ptable_ok k \<Longrightarrow> kpost (\<lambda>_. ptable_ok) ptable_ok (recv_resume cur rec mess i ok ie k)"
    unfolding recv_resume_def
    by (rule kpost_bind [OF pt_sched(3)], assumption, rule kpost_bind [OF recv_loop_post], assumption, rule fin)
qed

lemma send_signal_post: "ptable_ok k \<Longrightarrow> kpost (\<lambda>_. ptable_ok) ptable_ok (send_signal to n k)"
  unfolding send_signal_def
  by (rule kpost_bind [OF pt_lock(3)], assumption)
     (simp add: ptable_ok_keep [OF pt_keep_signal_loop] split: option.splits)

lemma multi_scan_post:
  "ptable_ok k \<Longrightarrow> kpost (\<lambda>_. ptable_ok) ptable_ok (multi_scan sender rec m is ok k)"
proof (induction "is" arbitrary: ok k)
  case (Cons i "is")
  have "ptable_ok (procs_upd i (multi_put sender m) k)"
    using Cons.prems by (rule pt_upd_any) (simp_all add: multi_put_def entry_ok_def msgq.ok_put)
  then have "kpost (\<lambda>_. ptable_ok) ptable_ok
      (bindk (send_signal rec 1 (procs_upd i (multi_put sender m) k)) (\<lambda>_ k. multi_scan sender rec m is True k))"
    by (rule kpost_bind [OF send_signal_post]) (rule Cons.IH)
  with Cons.IH [OF Cons.prems] show ?case by auto
qed simp

lemma multi_loop_post:
  "ptable_ok k \<Longrightarrow> kpost (\<lambda>_. ptable_ok) ptable_ok (multi_loop cur sender rec_pids msg js ok k)"
proof (induction js arbitrary: ok k)
  case (Cons j js)
  show ?case unfolding multi_loop.simps
    by (rule kpost_bind [OF pt_lock(1) [OF Cons.prems]], rule kpost_bind [OF multi_scan_post], assumption,
        rule kpost_bind [OF pt_lock(2)], assumption, rule Cons.IH)
qed simp

lemma send_multicast_post:
  "ptable_ok k \<Longrightarrow> kpost (\<lambda>_. ptable_ok) ptable_ok (send_multicast cur sender rec_pids msg len k)"
  unfolding send_multicast_def by (rule kpost_bind [OF multi_loop_post]) simp_all

lemma handle_signals_post:
  "ptable_ok k \<Longrightarrow> kpost (\<lambda>_. ptable_ok) ptable_ok (handle_signals code tf k)"
  unfolding handle_signals_def
proof (rule kpost_bind [OF pt_lock(3)], assumption)
  fix p and k :: "'a kstate_scheme"
  assume ok: "ptable_ok k"
  have "ptable_ok (procs_upd p (\<lambda>pr. pr\<lparr>p_handling := True,
       p_recv_multi_queue := msg_advance (p_recv_multi_queue (k_procs k ! p)),
       p_tf := (p_tf pr)\<lparr>tf_esp := sp, tf_eip := p_handler pr\<rparr>,
       p_pending_signals := sig_advance (p_pending_signals (k_procs k ! p))\<rparr>) (k\<lparr>k_umem := u\<rparr>))" for p sp u
    using ok by (intro ptable_ok_upd) (simp_all add: entry_ok_def msgq.ok_advance sigq.ok_advance)
  then show "kpost (\<lambda>_. ptable_ok) ptable_ok
     (case p of None \<Rightarrow> Ok () k | Some p \<Rightarrow>
        let pr = k_procs k ! p; sq = p_pending_signals pr; mq = p_recv_multi_queue pr in
        if p_handling pr then Ok () k
        else if tf_cs tf AND 3 \<noteq> DPL_USER then Ok () k
        else if sg_head sq = sg_tail sq then Ok () k
        else
          let (um, sp) = sig_frame code (p_tf pr) (messages mq ! mq_head mq) (k_umem k p)
          in Ok () (procs_upd p (\<lambda>pr. pr\<lparr>p_handling := True,
                 p_recv_multi_queue := msg_advance mq,
                 p_tf := (p_tf pr)\<lparr>tf_esp := sp, tf_eip := p_handler pr\<rparr>,
                 p_pending_signals := sig_advance sq\<rparr>)
               (k\<lparr>k_umem := (k_umem k)(p := um)\<rparr>)))"
    using ok by (simp add: Let_def split: option.splits prod.splits)
qed

lemma ret_signal_post: "ptable_ok k \<Longrightarrow> kpost (\<lambda>_. ptable_ok) ptable_ok (ret_signal code k)"
  unfolding ret_signal_def
  by (rule kpost_bind [OF pt_lock(1)], assumption, rule kpost_bind [OF pt_lock(3)], assumption)
     (simp add: Let_def split: option.splits,
      auto intro!: pt_lock(2) pt_upd_any [where f = "\<lambda>pr. pr\<lparr>p_tf := t, p_handling := False\<rparr>" for t] simp: entry_ok_def)

lemma pause_signal_post:
  "ptable_ok k \<Longrightarrow> kpost (\<lambda>_. ptable_ok) ptable_ok (pause_signal k)"
  "ptable_ok k \<Longrightarrow> kpost (\<lambda>_. ptable_ok) ptable_ok (pause_resume p ie k)"
proof -
  have slp: "ptable_ok k \<Longrightarrow> kpost (\<lambda>_. ptable_ok) ptable_ok
      (bindk (sleep_enter ch LkPtable k) (\<lambda>_ k. Sleep ch k))" for ch and k :: "'a kstate_scheme"
    by (rule kpost_bind [OF pt_sched(2)]) simp_all
  show "ptable_ok k \<Longrightarrow> kpost (\<lambda>_. ptable_ok) ptable_ok (pause_signal k)"
    unfolding pause_signal_def
    by (rule kpost_bind [OF pt_lock(3)], assumption, rule kpost_bind [OF pt_lock(1)], assumption)
       (auto simp: Let_def pt_lock(2) slp split: option.splits)
  show "ptable_ok k \<Longrightarrow> kpost (\<lambda>_. ptable_ok) ptable_ok (pause_resume p ie k)"
    unfolding pause_resume_def by (rule kpost_bind [OF pt_sched(3)]) (auto intro: pt_lock(2))
qed

lemma set_signal_post: "ptable_ok k \<Longrightarrow> kpost (\<lambda>_. ptable_ok) ptable_ok (set_signal s k)"
  unfolding set_signal_def
  by (rule kpost_bind [OF pt_lock(3)], assumption, rule kpost_bind [OF pt_lock(1)], assumption)
     (auto intro!: pt_lock(2) pt_upd_any [where f = "\<lambda>x. x\<lparr>p_handler := s\<rparr>"] simp: entry_ok_def split: option.splits)

subsection \<open>Reachable tables\<close>

definition yields :: "('a, 's) kres \<Rightarrow> 's \<Rightarrow> bool" where
  "yields r k \<longleftrightarrow> (\<exists>a. r = Ok a k) \<or> (\<exists>ch. r = Sleep ch k)"

lemma kpost_yields: "kpost (\<lambda>_. P) P r \<Longrightarrow> yields r k \<Longrightarrow> P k"
  by (auto simp: yields_def)

text \<open>
  The steps of the kernel on the process table: every operation, run on any CPU, whether it returns
  or goes to sleep, and steps that touch neither the table nor \<^verbatim>\<open>nextpid\<close>.
\<close>

inductive kstep :: "pstate \<Rightarrow> pstate \<Rightarrow> bool" where
  "yields (fork ks tf0 pg k) k' \<Longrightarrow> kstep k k'"
| "yields (exit_enter k) k' \<Longrightarrow> kstep k k'"
| "yields (wait k) k' \<Longrightarrow> kstep k k'"
| "yields (wait_resume cur ie k) k' \<Longrightarrow> kstep k k'"
| "yields (kill pid k) k' \<Longrightarrow> kstep k k'"
| "yields (wakeup ch k) k' \<Longrightarrow> kstep k k'"
| "yields (send_mess cur sender rec mess k) k' \<Longrightarrow> kstep k k'"
| "yields (recv_mess cur rec mess k) k' \<Longrightarrow> kstep k k'"
| "yields (recv_resume cur rec mess i ok ie k) k' \<Longrightarrow> kstep k k'"
| "yields (send_multicast cur sender rec_pids msg len k) k' \<Longrightarrow> kstep k k'"
| "yields (send_signal to n k) k' \<Longrightarrow> kstep k k'"
| "yields (set_signal s k) k' \<Longrightarrow> kstep k k'"
| "yields (pause_signal k) k' \<Longrightarrow> kstep k k'"
| "yields (pause_resume p ie k) k' \<Longrightarrow> kstep k k'"
| "yields (handle_signals code tf k) k' \<Longrightarrow> kstep k k'"
| "yields (ret_signal code k) k' \<Longrightarrow> kstep k k'"
| "kstep k (procs_upd i (\<lambda>p. p\<lparr>p_state := st\<rparr>) k)"
| "k_procs k' = k_procs k \<Longrightarrow> k_nextpid k' = k_nextpid k \<Longrightarrow> kstep k k'"

lemmas op_posts = fork_post exit_enter_post wait_post wait_resume_post kill_post wakeup_post
  send_mess_post recv_post send_multicast_post send_signal_post set_signal_post pause_signal_post
  handle_signals_post ret_signal_post

lemma kstep_ptable_ok: "kstep k k' \<Longrightarrow> ptable_ok k \<Longrightarrow> ptable_ok k'"
proof (induction rule: kstep.induct)
  case (17 k i st)
  then show ?case by (rule pt_upd_any) (simp_all add: entry_ok_def)
next
  case (18 k' k)
  then show ?case by (simp add: ptable_ok_def)
qed (erule kpost_yields [rotated], erule op_posts)+

lemma kreach_ptable_ok: "kstep\<^sup>*\<^sup>* k0 k \<Longrightarrow> ptable_ok k0 \<Longrightarrow> ptable_ok k"
  by (induction rule: rtranclp_induct) (auto intro: kstep_ptable_ok)


definition demo_p :: pstate where
  "demo_p = kstate.extend demo_k \<lparr>k_first = False, k_calls = []\<rparr>"

lemma demo_p_simps [simp]:
  "k_procs demo_p = k_procs demo_k" "k_mach demo_p = demo_mach" "k_umem demo_p = k_umem demo_k"
  "k_nextpid demo_p = 4" "k_initproc demo_p = Some 0" "k_calls demo_p = []"
  "k_ptlock demo_p = initlock ''ptable''"
  by (simp_all add: demo_p_def kstate.extend_def demo_k_def)

lemma ready_demo_p [simp]: "ready 0 demo_p"
  by (simp add: ready_def initlock_def)

lemma ptable_ok_demo_p [simp]: "ptable_ok demo_p"
  by (auto simp: ptable_ok_def pids_ok_def entries_ok_def entry_ok_def less_Suc_eq)


subsection \<open>Fork, exit and wait\<close>

lemma lock_calls [simp]:
  "k_calls (lockpt c k) = k_calls k" "k_calls (unlockpt c m k) = k_calls k"
  by (simp_all add: lockpt_def unlockpt_def)

definition alloc_slot :: "uint \<Rightarrow> trapframe \<Rightarrow> int \<Rightarrow> proc \<Rightarrow> proc" where
  "alloc_slot ks tf0 pid p = alloc_init tf0 (p\<lparr>p_state := EMBRYO, p_pid := pid, p_kstack := ks\<rparr>)"

lemma allocproc_ready:
  assumes "ready c k" "find_idx (\<lambda>p. p_state p = UNUSED) (k_procs k) = Some i" "ks \<noteq> 0"
  shows "allocproc ks tf0 k = Ok (Some i) (unlockpt c (k_mach k)
    ((lockpt c k)\<lparr>k_nextpid := k_nextpid k + 1,
       k_procs := (k_procs k)[i := alloc_slot ks tf0 (k_nextpid k) (k_procs k ! i)]\<rparr>))"
  using assms find_idx_lt [OF assms(2)]
  by (simp add: allocproc_def acquire_pt_ready [OF assms(1)] release_pt_held [of c "k_mach k"]
      ready_def alloc_slot_def) (simp add: unlockpt_def)

lemma msg_items_reset [simp]: "msg_items (q\<lparr>mq_head := 0, mq_tail := 0\<rparr>) = []"
  by (simp add: msg_items_def ring_list_def ring_len_def)

lemma sig_items_reset [simp]: "sig_items (q\<lparr>sg_head := 0, sg_tail := 0\<rparr>) = []"
  by (simp add: sig_items_def ring_list_def ring_len_def)

lemma fork_ready:
  assumes "ready c k" "cproc (cpus (k_mach k) ! c) = Some cur"
    and "find_idx (\<lambda>p. p_state p = UNUSED) (k_procs k) = Some i" "i \<noteq> cur" "ks \<noteq> 0" "pg \<noteq> 0"
  shows "\<exists>k'. fork ks tf0 pg k = Ok (k_nextpid k) k' \<and> ready c k' \<and> k_nextpid k' = k_nextpid k + 1
    \<and> k_umem k' = (k_umem k)(i := k_umem k cur)
    \<and> k_calls k' = k_calls k @ dup_calls (p_ofile (k_procs k ! cur)) @ [CIdup (p_cwd (k_procs k ! cur))]
    \<and> k_procs k' = (k_procs k)[i := (fork_copy cur pg (k_procs k ! cur)
        (alloc_slot ks tf0 (k_nextpid k) (k_procs k ! i)))\<lparr>p_state := RUNNABLE\<rparr>]"
proof -
  have on: "on_cpu c (k_mach k)" and lt: "i < length (k_procs k)"
    using assms(1) find_idx_lt [OF assms(3)] by (simp_all add: ready_def)
  let ?k0 = "k\<lparr>k_mach := settled c (k_mach k)\<rparr>"
  have r0: "ready c ?k0" using assms(1) on by (simp add: ready_def on_cpu_settled)
  let ?k1 = "unlockpt c (k_mach ?k0) ((lockpt c ?k0)\<lparr>k_nextpid := k_nextpid k + 1,
       k_procs := (k_procs k)[i := alloc_slot ks tf0 (k_nextpid k) (k_procs k ! i)]\<rparr>)"
  have a: "allocproc ks tf0 ?k0 = Ok (Some i) ?k1"
    using allocproc_ready [OF r0, of i ks tf0] assms(3,5) by simp
  define k2 where "k2 = ?k1\<lparr>k_calls := k_calls k @ dup_calls (p_ofile (k_procs k ! cur)) @ [CIdup (p_cwd (k_procs k ! cur))],
     k_umem := (k_umem k)(i := k_umem k cur),
     k_procs := (k_procs k)[i := fork_copy cur pg (k_procs k ! cur) (alloc_slot ks tf0 (k_nextpid k) (k_procs k ! i))]\<rparr>"
  have r2: "ready c k2" using on by (simp add: k2_def ready_def on_cpu_settled)
  then have on2: "on_cpu c (k_mach k2)" by (simp add: ready_def)
  have "fork ks tf0 pg k = bindk (acquire_pt k2) (\<lambda>_ k.
      bindk (release_pt (procs_upd i (\<lambda>p. p\<lparr>p_state := RUNNABLE\<rparr>) k)) (\<lambda>_ k. Ok (p_pid (k_procs k2 ! i)) k))"
    using assms(2,4,6) lt a
    by (simp add: fork_def myproc_k_on_cpu [OF on] Let_def k2_def unlockpt_def)
  also have "\<dots> = Ok (p_pid (k_procs k2 ! i))
      (unlockpt c (k_mach k2) (procs_upd i (\<lambda>p. p\<lparr>p_state := RUNNABLE\<rparr>) (lockpt c k2)))"
    using on2 by (simp add: acquire_pt_ready [OF r2] release_pt_held [of c "k_mach k2"])
  finally show ?thesis
    using lt ready_after [OF r2]
    by (simp add: k2_def fork_copy_def alloc_slot_def alloc_init_def)
qed


definition demo_fork :: pstate where
  "demo_fork = demo_p\<lparr>k_procs := [(demo_proc 1 RUNNING)\<lparr>p_ofile := replicate NOFILE (Some 0)\<rparr>,
     (demo_proc 0 UNUSED)\<lparr>p_ofile := replicate NOFILE None\<rparr>]\<rparr>"

lemma demo_fork_simps [simp]:
  "k_procs demo_fork = [(demo_proc 1 RUNNING)\<lparr>p_ofile := replicate NOFILE (Some 0)\<rparr>,
     (demo_proc 0 UNUSED)\<lparr>p_ofile := replicate NOFILE None\<rparr>]"
  "k_mach demo_fork = demo_mach" "ready 0 demo_fork" "k_nextpid demo_fork = 4"
  by (simp_all add: demo_fork_def ready_def initlock_def)


text \<open>What the loop of \<^verbatim>\<open>exit\<close> over the table does to an entry.\<close>

lemma reparent1_nth:
  assumes "j < length ps"
  shows "p_parent (reparent1 cur ini i ps ! j) =
      (if j = i \<and> p_parent (ps ! j) = Some cur then ini else p_parent (ps ! j))"
    "p_state (ps ! j) \<noteq> SLEEPING \<Longrightarrow> p_state (reparent1 cur ini i ps ! j) = p_state (ps ! j)"
    "p_pid (reparent1 cur ini i ps ! j) = p_pid (ps ! j)"
    "p_kstack (reparent1 cur ini i ps ! j) = p_kstack (ps ! j)"
    "length (reparent1 cur ini i ps) = length ps"
  using assms by (cases "j = i"; auto simp: reparent1_def Let_def wakeup1_nth)+

lemma reparent_all:
  assumes "distinct is" "j < length ps"
  shows "p_parent (fold (reparent1 cur ini) is ps ! j) =
      (if j \<in> set is \<and> p_parent (ps ! j) = Some cur \<and> ini \<noteq> Some cur then ini else p_parent (ps ! j))
    \<and> (p_state (ps ! j) \<noteq> SLEEPING \<longrightarrow> p_state (fold (reparent1 cur ini) is ps ! j) = p_state (ps ! j))
    \<and> p_pid (fold (reparent1 cur ini) is ps ! j) = p_pid (ps ! j)
    \<and> length (fold (reparent1 cur ini) is ps) = length ps"
  using assms by (induction "is" arbitrary: ps) (auto simp: reparent1_nth)

definition exit_table :: "nat \<Rightarrow> nat option \<Rightarrow> proc list \<Rightarrow> proc list" where
  "exit_table cur ini ps =
     (let ps = ps[cur := (ps ! cur)\<lparr>p_ofile := replicate NOFILE None, p_cwd := None\<rparr>];
          ps = wakeup1 (map_option ChProc (p_parent (ps ! cur))) ps;
          ps = fold (reparent1 cur ini) [0..<length ps] ps
      in ps[cur := (ps ! cur)\<lparr>p_state := ZOMBIE\<rparr>])"

lemma exit_enter_ready:
  assumes "ready c k" "ncli (cpus (k_mach k) ! c) = 0" "cproc (cpus (k_mach k) ! c) = Some cur"
    "cur < length (k_procs k)" "k_initproc k \<noteq> Some cur"
  shows "\<exists>ie k'. exit_enter k = Ok ie k' \<and> k_procs k' = exit_table cur (k_initproc k) (k_procs k)
    \<and> k_calls k' = k_calls k @ close_calls (p_ofile (k_procs k ! cur))
        @ [CBeginOp, CIput (p_cwd (k_procs k ! cur)), CEndOp]"
proof -
  have on: "on_cpu c (k_mach k)" using assms(1) by (simp add: ready_def)
  define k1 where "k1 = k\<lparr>k_mach := settled c (k_mach k),
     k_calls := k_calls k @ close_calls (p_ofile (k_procs k ! cur)) @ [CBeginOp, CIput (p_cwd (k_procs k ! cur)), CEndOp],
     k_procs := (k_procs k)[cur := (k_procs k ! cur)\<lparr>p_ofile := replicate NOFILE None, p_cwd := None\<rparr>]\<rparr>"
  have r1: "ready c k1" using assms(1) on by (simp add: k1_def ready_def on_cpu_settled)
  define k2 where "k2 = (lockpt c k1)\<lparr>k_procs := exit_table cur (k_initproc k) (k_procs k)\<rparr>"
  have len: "length (exit_table cur (k_initproc k) (k_procs k)) = length (k_procs k)"
    using assms(4) reparent_all [of "[0..<length (k_procs k)]" cur] by (simp add: exit_table_def Let_def)
  then have "in_section c (k_mach k1) cur k2" "p_state (k_procs k2 ! cur) \<noteq> RUNNING"
    using r1 assms(2-4) on
    by (simp_all add: in_section_def k2_def ready_def k1_def ncli_settled cproc_settled exit_table_def Let_def)
  then have "sched_enter k2 = Ok (fl_if (k_mach k1)) k2" by (rule sched_enter_section)
  moreover have "exit_enter k = bindk (acquire_pt k1) (\<lambda>_ k.
      let ps = wakeup1 (map_option ChProc (p_parent (k_procs k ! cur))) (k_procs k);
          ps = fold (reparent1 cur (k_initproc k)) [0..<length ps] ps;
          ps = ps[cur := (ps ! cur)\<lparr>p_state := ZOMBIE\<rparr>]
      in sched_enter (k\<lparr>k_procs := ps\<rparr>))"
    using assms(3,5) by (simp add: exit_enter_def myproc_k_on_cpu [OF on] k1_def Let_def)
  ultimately have "exit_enter k = Ok (fl_if (k_mach k1)) k2"
    by (simp add: acquire_pt_ready [OF r1] k2_def exit_table_def Let_def) (simp add: k1_def)
  then show ?thesis by (simp add: k2_def k1_def)
qed

lemma wait_body_reaps:
  assumes "on_cpu c m" "k_mach k = pushed c m" "locked (k_ptlock k)" "lk_cpu (k_ptlock k) = Some c"
    and "find_idx (zombie_child cur) (k_procs k) = Some i"
  shows "\<exists>k'. wait_body cur k = Ok (p_pid (k_procs k ! i)) k'
    \<and> k_procs k' = (k_procs k)[i := reap (k_procs k ! i)]
    \<and> k_calls k' = k_calls k @ [CKfree (p_kstack (k_procs k ! i)), CFreevm (p_pgdir (k_procs k ! i))]"
  using assms by (simp add: wait_body_def Let_def release_pt_held [of c m])

lemma wait_resume_reaps:
  assumes "in_section c m cur k" "find_idx (zombie_child cur) (k_procs k) = Some i" "i \<noteq> cur"
  shows "\<exists>k'. wait_resume cur ie k = Ok (p_pid (k_procs k ! i)) k'
    \<and> k_procs k' ! i = reap (k_procs k ! i)"
proof -
  let ?k = "(procs_upd cur (\<lambda>x. x\<lparr>p_chan := None\<rparr>) k)\<lparr>k_mach := pushed c (m\<lparr>fl_if := ie\<rparr>)\<rparr>"
  have s: "in_section c (m\<lparr>fl_if := ie\<rparr>) cur ?k"
    using assms(1) by (simp add: in_section_def on_cpu_def)
  have "find_idx (zombie_child cur) (k_procs ?k) = Some i"
    using assms(1,2) find_idx_upd [of cur "k_procs k" "zombie_child cur"]
    by (simp add: zombie_child_def in_section_def)
  from wait_body_reaps [OF _ _ _ _ this, of c "m\<lparr>fl_if := ie\<rparr>"] s
  show ?thesis
    using assms(3) find_idx_lt [OF assms(2)]
    by (auto simp: in_section_def wait_resume_def sleep_return_section [OF assms(1)])
qed

text \<open>
  Claim C19. \<^verbatim>\<open>exit\<close> and \<^verbatim>\<open>wait\<close>. A process that exits becomes a zombie, its parent, asleep in
  \<^verbatim>\<open>wait\<close>, becomes runnable, and its children are handed to the init process. When the parent is
  resumed and the process is the first zombie child it finds, \<^verbatim>\<open>wait\<close> returns its pid and the table
  entry is free again.
\<close>

theorem exit_wait_handshake:
  assumes "ready c k" and "ncli (cpus (k_mach k) ! c) = 0" and "cproc (cpus (k_mach k) ! c) = Some ch"
    and "ch < length (k_procs k)" and "k_initproc k \<noteq> Some ch"
    and "p_parent (k_procs k ! ch) = Some par" and "par < length (k_procs k)" and "par \<noteq> ch"
    and "p_state (k_procs k ! par) = SLEEPING" and "p_chan (k_procs k ! par) = Some (ChProc par)"
  shows "\<exists>ie k1. exit_enter k = Ok ie k1
    \<and> p_state (k_procs k1 ! ch) = ZOMBIE \<and> p_state (k_procs k1 ! par) = RUNNABLE
    \<and> (\<forall>j < length (k_procs k). p_parent (k_procs k ! j) = Some ch \<longrightarrow>
         p_parent (k_procs k1 ! j) = k_initproc k)
    \<and> (\<forall>c2 m2 k2 ie2. in_section c2 m2 par k2 \<and> k_procs k2 ! ch = k_procs k1 ! ch
         \<and> find_idx (zombie_child par) (k_procs k2) = Some ch \<longrightarrow>
        (\<exists>k3. wait_resume par ie2 k2 = Ok (p_pid (k_procs k ! ch)) k3
          \<and> p_state (k_procs k3 ! ch) = UNUSED \<and> p_pid (k_procs k3 ! ch) = 0))"
proof -
  let ?ps = "(k_procs k)[ch := (k_procs k ! ch)\<lparr>p_ofile := replicate NOFILE None, p_cwd := None\<rparr>]"
  let ?w = "wakeup1 (Some (ChProc par)) ?ps"
  let ?r = "fold (reparent1 ch (k_initproc k)) [0..<length (k_procs k)] ?w"
  obtain ie k1 where k1: "exit_enter k = Ok ie k1" "k_procs k1 = exit_table ch (k_initproc k) (k_procs k)"
    using exit_enter_ready [OF assms(1-5)] by blast
  have t: "k_procs k1 = ?r[ch := (?r ! ch)\<lparr>p_state := ZOMBIE\<rparr>]"
    using assms(4,6) by (simp add: k1(2) exit_table_def Let_def)
  have r: "p_parent (?r ! j) = (if p_parent (?w ! j) = Some ch then k_initproc k else p_parent (?w ! j))"
    "p_state (?w ! j) \<noteq> SLEEPING \<Longrightarrow> p_state (?r ! j) = p_state (?w ! j)"
    "p_pid (?r ! j) = p_pid (?w ! j)" "length ?r = length (k_procs k)" if "j < length (k_procs k)" for j
    using reparent_all [of "[0..<length (k_procs k)]" j ?w ch "k_initproc k"] that assms(5) by auto
  have w: "p_parent (?w ! j) = p_parent (k_procs k ! j)" "p_pid (?w ! j) = p_pid (k_procs k ! j)"
    if "j < length (k_procs k)" for j
    using that by (cases "j = ch"; simp add: wakeup1_nth)+
  have "p_state (?w ! par) = RUNNABLE" using assms(7-10) by (simp add: wakeup1_nth)
  then have par: "p_state (k_procs k1 ! par) = RUNNABLE" using r(2) [OF assms(7)] assms(7,8) t by simp
  have pid: "p_pid (k_procs k1 ! ch) = p_pid (k_procs k ! ch)" "p_state (k_procs k1 ! ch) = ZOMBIE"
    using r(3,4) [OF assms(4)] w(2) [OF assms(4)] assms(4) t by simp_all
  have kids: "p_parent (k_procs k1 ! j) = k_initproc k"
    if "j < length (k_procs k)" "p_parent (k_procs k ! j) = Some ch" for j
    using that r(1) [OF that(1)] w(1) [OF that(1)] r(4) [OF that(1)] t by (cases "j = ch") simp_all
  have "\<exists>k3. wait_resume par ie2 k2 = Ok (p_pid (k_procs k ! ch)) k3
      \<and> p_state (k_procs k3 ! ch) = UNUSED \<and> p_pid (k_procs k3 ! ch) = 0"
    if "in_section c2 m2 par k2" "k_procs k2 ! ch = k_procs k1 ! ch"
      "find_idx (zombie_child par) (k_procs k2) = Some ch" for c2 m2 k2 ie2
    using wait_resume_reaps [OF that(1,3)] assms(8) that(2) pid(1) by (fastforce simp: reap_def)
  then show ?thesis using k1(1) par pid(2) kids by blast
qed

definition demo_exit :: pstate where
  "demo_exit = demo_p\<lparr>k_initproc := Some 1, k_procs := [(demo_proc 5 RUNNING)\<lparr>p_parent := Some 1\<rparr>,
     (demo_proc 1 SLEEPING)\<lparr>p_chan := Some (ChProc 1)\<rparr>]\<rparr>"

theorem exit_wait_handshake_witness:
  "\<exists>ie k1. exit_enter demo_exit = Ok ie k1
    \<and> p_state (k_procs k1 ! 0) = ZOMBIE \<and> p_state (k_procs k1 ! 1) = RUNNABLE"
proof -
  have "ready 0 demo_exit" "k_mach demo_exit = demo_mach" "k_initproc demo_exit = Some 1"
    "k_procs demo_exit = [(demo_proc 5 RUNNING)\<lparr>p_parent := Some 1\<rparr>,
       (demo_proc 1 SLEEPING)\<lparr>p_chan := Some (ChProc 1)\<rparr>]"
    by (simp_all add: demo_exit_def ready_def initlock_def)
  then show ?thesis using exit_wait_handshake [of 0 demo_exit 0 1] by auto
qed

end
