(* ===== verification/Syscall.thy ===== *)
theory Syscall
  imports Proclife
begin

text \<open>
  System calls and traps: the argument fetching and dispatch of \<^verbatim>\<open>syscall.c\<close>, the calls of
  \<^verbatim>\<open>sysproc.c\<close> and \<^verbatim>\<open>trap\<close> of \<^verbatim>\<open>trap.c\<close>.

  A fetch returns \<open>None\<close> where the code returns -1, and the word it stores through its pointer
  otherwise. Several calls ignore that result and go on with an uninitialised local; its value is an
  argument \<open>junk\<close> of the call here. A system call returns the word that ends up in \<^verbatim>\<open>eax\<close>.
\<close>

text \<open>Lines printed on the console by the code of this theory.\<close>

datatype kline = LCount "byte list" int | LPs int "byte list" | LUnknown int "byte list" int
  | LSpurious nat ushort uint | LKill int "byte list" uint uint uint

record sysstate = pstate +
  s_count :: "int list"
  s_toggle :: int
  s_ticks :: uint
  s_tickslock :: spinlock
  s_out :: "kline list"

subsection \<open>Fetching arguments\<close>

definition fetchint :: "uint \<Rightarrow> 'z kstate_scheme \<Rightarrow> (uint option, 'z kstate_scheme) kres" where
  "fetchint addr k =
     bindk (myproc_k k) (\<lambda>p k.
       (case p of None \<Rightarrow> Panic ''trap'' | Some p \<Rightarrow>
        let sz = p_sz (k_procs k ! p) in
        if addr \<ge> sz \<or> addr + 4 > sz then Ok None k
        else Ok (Some (ld32 (k_umem k p) addr)) k))"

function fetchstr_loop :: "mem \<Rightarrow> uint \<Rightarrow> uint \<Rightarrow> uint option" where
  "fetchstr_loop m s ep =
     (if s < ep then if m s = 0 then Some s else fetchstr_loop m (s + 1) ep else None)"
  by auto

lemma fetchstr_step:
  assumes "s < (ep :: uint)"
  shows "unat (s + 1) = unat s + 1"
proof -
  have "unat s < unat ep" using assms by (simp add: word_less_nat_alt)
  then have "unat s + 1 < 2 ^ 32" using unsigned_less [of ep, where ?'a = nat] by simp
  then show ?thesis using unat_add_of_nat [of s 1] by simp
qed

termination fetchstr_loop
  by (relation "measure (\<lambda>(m, s, ep). unat ep - unat s)")
     (auto simp: fetchstr_step word_less_nat_alt)

declare fetchstr_loop.simps [simp del]

text \<open>The value is the pointer and the length of the string.\<close>

definition fetchstr :: "uint \<Rightarrow> 'z kstate_scheme \<Rightarrow> ((uint \<times> uint) option, 'z kstate_scheme) kres" where
  "fetchstr addr k =
     bindk (myproc_k k) (\<lambda>p k.
       (case p of None \<Rightarrow> Panic ''trap'' | Some p \<Rightarrow>
        let sz = p_sz (k_procs k ! p) in
        if addr \<ge> sz then Ok None k
        else Ok (map_option (\<lambda>s. (addr, s - addr)) (fetchstr_loop (k_umem k p) addr sz)) k))"

definition argint :: "nat \<Rightarrow> 'z kstate_scheme \<Rightarrow> (uint option, 'z kstate_scheme) kres" where
  "argint n k =
     bindk (myproc_k k) (\<lambda>p k.
       (case p of None \<Rightarrow> Panic ''trap'' | Some p \<Rightarrow>
        fetchint (tf_esp (p_tf (k_procs k ! p)) + 4 + 4 * of_nat n) k))"

definition argptr :: "nat \<Rightarrow> int \<Rightarrow> 'z kstate_scheme \<Rightarrow> (uint option, 'z kstate_scheme) kres" where
  "argptr n sz0 k =
     bindk (myproc_k k) (\<lambda>p k.
     bindk (argint n k) (\<lambda>i k.
       (case i of None \<Rightarrow> Ok None k | Some i \<Rightarrow>
        (case p of None \<Rightarrow> Panic ''trap'' | Some p \<Rightarrow>
         let sz = p_sz (k_procs k ! p) in
         if sz0 < 0 \<or> i \<ge> sz \<or> i + of_int sz0 > sz then Ok None k else Ok (Some i) k))))"

definition argstr :: "nat \<Rightarrow> 'z kstate_scheme \<Rightarrow> ((uint \<times> uint) option, 'z kstate_scheme) kres" where
  "argstr n k =
     bindk (argint n k) (\<lambda>a k. (case a of None \<Rightarrow> Ok None k | Some a \<Rightarrow> fetchstr a k))"

text \<open>A fetch whose result is ignored.\<close>

definition or_junk :: "uint \<Rightarrow> (uint option, 's) kres \<Rightarrow> (uint, 's) kres" where
  "or_junk junk r = bindk r (\<lambda>v k. Ok (case v of None \<Rightarrow> junk | Some w \<Rightarrow> w) k)"

definition with_cur :: "(nat \<Rightarrow> 'z kstate_scheme \<Rightarrow> ('a, 'z kstate_scheme) kres)
    \<Rightarrow> 'z kstate_scheme \<Rightarrow> ('a, 'z kstate_scheme) kres" where
  "with_cur f k = bindk (myproc_k k) (\<lambda>p k. case p of None \<Rightarrow> Panic ''trap'' | Some p \<Rightarrow> f p k)"

subsection \<open>Process calls\<close>

definition ret_int :: "int \<Rightarrow> 's \<Rightarrow> (uint, 's) kres" where
  "ret_int r k = Ok (of_int r) k"

definition sys_fork ::
  "uint \<Rightarrow> trapframe \<Rightarrow> uint \<Rightarrow> 'z pstate_scheme \<Rightarrow> (uint, 'z pstate_scheme) kres" where
  "sys_fork ks tf0 pg k = bindk (fork ks tf0 pg k) ret_int"

text \<open>\<^verbatim>\<open>exit\<close> does not return: its thread leaves the CPU for good.\<close>

definition exit_call :: "'z pstate_scheme \<Rightarrow> ('a, 'z pstate_scheme) kres" where
  "exit_call k = bindk (exit_enter k) (\<lambda>_ k. Sleep ChSched k)"

definition sys_exit :: "'z pstate_scheme \<Rightarrow> (uint, 'z pstate_scheme) kres" where
  "sys_exit k = exit_call k"

definition sys_wait :: "'z pstate_scheme \<Rightarrow> (uint, 'z pstate_scheme) kres" where
  "sys_wait k = bindk (wait k) ret_int"

definition sys_kill :: "'z kstate_scheme \<Rightarrow> (uint, 'z kstate_scheme) kres" where
  "sys_kill k = bindk (argint 0 k) (\<lambda>v k.
     (case v of None \<Rightarrow> ret_int (-1) k | Some pid \<Rightarrow> bindk (kill (sint pid) k) ret_int))"

definition sys_getpid :: "'z kstate_scheme \<Rightarrow> (uint, 'z kstate_scheme) kres" where
  "sys_getpid k = with_cur (\<lambda>p k. ret_int (p_pid (k_procs k ! p)) k) k"

definition sys_sbrk ::
  "(uint \<Rightarrow> uint \<Rightarrow> uint) \<Rightarrow> (uint \<Rightarrow> uint \<Rightarrow> uint) \<Rightarrow> 'z kstate_scheme \<Rightarrow> (uint, 'z kstate_scheme) kres" where
  "sys_sbrk alloc dealloc k = bindk (argint 0 k) (\<lambda>v k.
     (case v of None \<Rightarrow> ret_int (-1) k | Some n \<Rightarrow>
      with_cur (\<lambda>p k. let addr = p_sz (k_procs k ! p) in
        bindk (growproc alloc dealloc (sint n) k) (\<lambda>r k.
          if r < 0 then ret_int (-1) k else Ok addr k)) k))"

definition acquire_tk :: "'z sysstate_scheme \<Rightarrow> (unit, 'z sysstate_scheme) kres" where
  "acquire_tk k = (case acquire (s_tickslock k) (k_mach k) of
     Ok l m \<Rightarrow> Ok () (k\<lparr>s_tickslock := l, k_mach := m\<rparr>) | Panic s \<Rightarrow> Panic s
   | Sleep c m \<Rightarrow> Sleep c (k\<lparr>k_mach := m\<rparr>) | Spin \<Rightarrow> Spin)"

definition release_tk :: "'z sysstate_scheme \<Rightarrow> (unit, 'z sysstate_scheme) kres" where
  "release_tk k = (case release (s_tickslock k) (k_mach k) of
     Ok l m \<Rightarrow> Ok () (k\<lparr>s_tickslock := l, k_mach := m\<rparr>) | Panic s \<Rightarrow> Panic s
   | Sleep c m \<Rightarrow> Sleep c (k\<lparr>k_mach := m\<rparr>) | Spin \<Rightarrow> Spin)"

text \<open>The loop of \<^verbatim>\<open>sys_sleep\<close>, entered with \<^verbatim>\<open>tickslock\<close> held; \<^verbatim>\<open>n\<close> is compared as an unsigned word.\<close>

definition set_tickslock :: "lockref \<Rightarrow> 'z sysstate_scheme \<Rightarrow> 'z sysstate_scheme" where
  "set_tickslock lk k = (case lk of LkOther l \<Rightarrow> k\<lparr>s_tickslock := l\<rparr> | _ \<Rightarrow> k)"

definition sleep_loop :: "uint \<Rightarrow> uint \<Rightarrow> 'z sysstate_scheme \<Rightarrow> (uint, 'z sysstate_scheme) kres" where
  "sleep_loop ticks0 n k =
     (if s_ticks k - ticks0 < n then
        with_cur (\<lambda>p k.
          if p_killed (k_procs k ! p) then bindk (release_tk k) (\<lambda>_. ret_int (-1))
          else bindk (sleep_enter ChTicks (LkOther (s_tickslock k)) k) (\<lambda>(ie, lk) k.
               Sleep ChTicks (set_tickslock lk k))) k
      else bindk (release_tk k) (\<lambda>_. ret_int 0))"

definition sys_sleep :: "'z sysstate_scheme \<Rightarrow> (uint, 'z sysstate_scheme) kres" where
  "sys_sleep k = bindk (argint 0 k) (\<lambda>v k.
     (case v of None \<Rightarrow> ret_int (-1) k | Some n \<Rightarrow>
      bindk (acquire_tk k) (\<lambda>_ k. sleep_loop (s_ticks k) n k)))"

definition sleep_resume ::
  "nat \<Rightarrow> bool \<Rightarrow> uint \<Rightarrow> uint \<Rightarrow> 'z sysstate_scheme \<Rightarrow> (uint, 'z sysstate_scheme) kres" where
  "sleep_resume p ie ticks0 n k =
     bindk (sleep_return p ie (LkOther (s_tickslock k)) k) (\<lambda>lk k.
       sleep_loop ticks0 n (set_tickslock lk k))"

definition sys_uptime :: "'z sysstate_scheme \<Rightarrow> (uint, 'z sysstate_scheme) kres" where
  "sys_uptime k = bindk (acquire_tk k) (\<lambda>_ k.
     let xticks = s_ticks k in bindk (release_tk k) (\<lambda>_ k. Ok xticks k))"

definition sys_add :: "uint \<Rightarrow> uint \<Rightarrow> 'z kstate_scheme \<Rightarrow> (uint, 'z kstate_scheme) kres" where
  "sys_add ja jb k =
     bindk (or_junk ja (argint 0 k)) (\<lambda>a k.
     bindk (or_junk jb (argint 1 k)) (\<lambda>b k. Ok (a + b) k))"

definition sys_ps :: "'z sysstate_scheme \<Rightarrow> (uint, 'z sysstate_scheme) kres" where
  "sys_ps k = Ok 0 (k\<lparr>s_out := s_out k @ map (\<lambda>(pid, nm). LPs pid nm) (ps_listing k)\<rparr>)"

definition sys_toggle :: "'z sysstate_scheme \<Rightarrow> (uint, 'z sysstate_scheme) kres" where
  "sys_toggle k =
     (if s_toggle k = 1 then Ok 0 (k\<lparr>s_toggle := 0\<rparr>)
      else if s_toggle k = 0
      then Ok 0 (k\<lparr>s_count := replicate (length (s_count k)) 0, s_toggle := 1\<rparr>)
      else Ok 0 k)"

definition name_syscalls :: "string list" where
  "name_syscalls = [''sys_fork'', ''sys_exit'', ''sys_wait'', ''sys_pipe'', ''sys_read'',
     ''sys_kill'', ''sys_exec'', ''sys_fstat'', ''sys_chdir'', ''sys_dup'',
     ''sys_getpid'', ''sys_sbrk'', ''sys_sleep'', ''sys_uptime'', ''sys_open'',
     ''sys_write'', ''sys_mknod'', ''sys_unlink'', ''sys_link'', ''sys_mkdir'',
     ''sys_close'', ''sys_add'', ''sys_ps'', ''sys_toggle'', ''sys_print_count'',
     ''sys_send'', ''sys_recv'', ''sys_send_multi'', ''sys_sig_set'',
     ''sys_sig_send'', ''sys_sig_ret'', ''sys_sig_pause'']"

definition sys_print_count :: "'z sysstate_scheme \<Rightarrow> (uint, 'z sysstate_scheme) kres" where
  "sys_print_count k = Ok 0 (k\<lparr>s_out := s_out k @
     map (\<lambda>i. LCount (str_bytes (name_syscalls ! i)) (s_count k ! i))
       (filter (\<lambda>i. s_count k ! i > 0) [0..<length (s_count k)])\<rparr>)"

subsection \<open>Messages and signals\<close>

definition sys_send ::
  "uint \<Rightarrow> uint \<Rightarrow> uint \<Rightarrow> 'z kstate_scheme \<Rightarrow> (uint, 'z kstate_scheme) kres" where
  "sys_send j0 j1 j2 k =
     bindk (or_junk j0 (argint 0 k)) (\<lambda>sender_pid k.
     bindk (or_junk j1 (argint 1 k)) (\<lambda>rec_pid k.
     bindk (or_junk j2 (argptr 2 8 k)) (\<lambda>msg k.
       with_cur (\<lambda>cur k. bindk (send_mess cur (sint sender_pid) (sint rec_pid) msg k) ret_int) k)))"

definition sys_recv :: "uint \<Rightarrow> 'z kstate_scheme \<Rightarrow> (uint, 'z kstate_scheme) kres" where
  "sys_recv j0 k =
     bindk (or_junk j0 (argptr 0 8 k)) (\<lambda>msg k.
       with_cur (\<lambda>cur k. bindk (recv_mess cur (p_pid (k_procs k ! cur)) msg k) ret_int) k)"

definition sys_send_multi ::
  "uint \<Rightarrow> uint \<Rightarrow> uint \<Rightarrow> uint \<Rightarrow> 'z kstate_scheme \<Rightarrow> (uint, 'z kstate_scheme) kres" where
  "sys_send_multi j0 j1 j2 j3 k =
     bindk (or_junk j0 (argint 0 k)) (\<lambda>sender_pid k.
     bindk (or_junk j2 (argptr 2 8 k)) (\<lambda>msg k.
     bindk (or_junk j3 (argint 3 k)) (\<lambda>len k.
     bindk (or_junk j1 (argptr 1 (sint (4 * len)) k)) (\<lambda>rec_pids k.
       with_cur (\<lambda>cur k. bindk (send_multicast cur (sint sender_pid) rec_pids msg (sint len) k) ret_int) k))))"

definition sys_sig_set :: "uint \<Rightarrow> 'z kstate_scheme \<Rightarrow> (uint, 'z kstate_scheme) kres" where
  "sys_sig_set j0 k =
     bindk (or_junk j0 (argptr 0 4 k)) (\<lambda>func k. bindk (set_signal func k) (\<lambda>_ k. Ok 0 k))"

definition sys_sig_send :: "uint \<Rightarrow> uint \<Rightarrow> 'z kstate_scheme \<Rightarrow> (uint, 'z kstate_scheme) kres" where
  "sys_sig_send j0 j1 k =
     bindk (or_junk j0 (argint 0 k)) (\<lambda>to_pid k.
     bindk (or_junk j1 (argint 1 k)) (\<lambda>signum k.
     bindk (send_signal (sint to_pid) (sint signum) k) (\<lambda>_ k. Ok 0 k)))"

definition sys_sig_ret :: "byte list \<Rightarrow> 'z kstate_scheme \<Rightarrow> (uint, 'z kstate_scheme) kres" where
  "sys_sig_ret code k = bindk (ret_signal code k) (\<lambda>_ k. Ok 0 k)"

definition sys_sig_pause :: "'z kstate_scheme \<Rightarrow> (uint, 'z kstate_scheme) kres" where
  "sys_sig_pause k = bindk (pause_signal k) (\<lambda>_ k. Ok 0 k)"

subsection \<open>Dispatch\<close>

text \<open>
  \<open>syscalls\<close> is the table of \<^verbatim>\<open>syscall.c\<close>. The values that the memory layer supplies to \<^verbatim>\<open>fork\<close> and
  \<^verbatim>\<open>sbrk\<close>, the uninitialised locals and the assembled sigret code come from an environment; the
  calls of \<^verbatim>\<open>sysfile.c\<close> are the argument \<open>file\<close>.
\<close>

record sysenv =
  e_ks :: uint
  e_tf0 :: trapframe
  e_pg :: uint
  e_alloc :: "uint \<Rightarrow> uint \<Rightarrow> uint"
  e_dealloc :: "uint \<Rightarrow> uint \<Rightarrow> uint"
  e_junk :: "nat \<Rightarrow> uint"
  e_code :: "byte list"

definition syscalls ::
  "sysenv \<Rightarrow> (nat \<Rightarrow> 'z sysstate_scheme \<Rightarrow> (uint, 'z sysstate_scheme) kres)
     \<Rightarrow> nat \<Rightarrow> ('z sysstate_scheme \<Rightarrow> (uint, 'z sysstate_scheme) kres) option" where
  "syscalls e file n =
     (if n = 1 then Some (sys_fork (e_ks e) (e_tf0 e) (e_pg e))
      else if n = 2 then Some sys_exit
      else if n = 3 then Some sys_wait
      else if n = 6 then Some sys_kill
      else if n = 11 then Some sys_getpid
      else if n = 12 then Some (sys_sbrk (e_alloc e) (e_dealloc e))
      else if n = 13 then Some sys_sleep
      else if n = 14 then Some sys_uptime
      else if n = 22 then Some (sys_add (e_junk e 0) (e_junk e 1))
      else if n = 23 then Some sys_ps
      else if n = 24 then Some sys_toggle
      else if n = 25 then Some sys_print_count
      else if n = 26 then Some (sys_send (e_junk e 0) (e_junk e 1) (e_junk e 2))
      else if n = 27 then Some (sys_recv (e_junk e 0))
      else if n = 28 then Some (sys_send_multi (e_junk e 0) (e_junk e 1) (e_junk e 2) (e_junk e 3))
      else if n = 29 then Some (sys_sig_set (e_junk e 0))
      else if n = 30 then Some (sys_sig_send (e_junk e 0) (e_junk e 1))
      else if n = 31 then Some (sys_sig_ret (e_code e))
      else if n = 32 then Some sys_sig_pause
      else if n \<in> {4, 5, 7, 8, 9, 10, 15, 16, 17, 18, 19, 20, 21} then Some (file n)
      else None)"

definition NELEM_syscalls :: int where "NELEM_syscalls = 33"

definition set_eax :: "nat \<Rightarrow> uint \<Rightarrow> 'z kstate_scheme \<Rightarrow> 'z kstate_scheme" where
  "set_eax p v k = procs_upd p (\<lambda>p. p\<lparr>p_tf := (p_tf p)\<lparr>tf_eax := v\<rparr>\<rparr>) k"

definition syscall ::
  "(nat \<Rightarrow> ('z sysstate_scheme \<Rightarrow> (uint, 'z sysstate_scheme) kres) option)
     \<Rightarrow> 'z sysstate_scheme \<Rightarrow> (unit, 'z sysstate_scheme) kres" where
  "syscall tbl k = with_cur (\<lambda>cur k.
     let num = sint (tf_eax (p_tf (k_procs k ! cur))) in
     (case (if num > 0 \<and> num < NELEM_syscalls then tbl (nat num) else None) of
        Some f \<Rightarrow>
          let k = (if s_toggle k = 1
                   then k\<lparr>s_count := (s_count k)[nat num - 1 := s_count k ! (nat num - 1) + 1]\<rparr> else k)
          in bindk (f k) (\<lambda>r k. Ok () (set_eax cur r k))
      | None \<Rightarrow>
          Ok () (set_eax cur (-1) (k\<lparr>s_out := s_out k @
            [LUnknown (p_pid (k_procs k ! cur)) (cstr (p_name (k_procs k ! cur))) num]\<rparr>)))) k"

subsection \<open>Traps\<close>

definition T_SYSCALL :: uint where "T_SYSCALL = 64"
definition T_IRQ0 :: uint where "T_IRQ0 = 32"

definition cpuid_k :: "'z kstate_scheme \<Rightarrow> (nat, 'z kstate_scheme) kres" where
  "cpuid_k k = zoomk (\<lambda>m. k\<lparr>k_mach := m\<rparr>) (cpuid (k_mach k))"

definition cur_killed :: "nat option \<Rightarrow> 'z kstate_scheme \<Rightarrow> bool" where
  "cur_killed p k = (case p of None \<Rightarrow> False | Some p \<Rightarrow> p_killed (k_procs k ! p))"

text \<open>The body of the switch; \<open>irq\<close> gives the device handlers, by interrupt number.\<close>

definition trap_switch ::
  "(nat \<Rightarrow> 'z sysstate_scheme \<Rightarrow> (unit, 'z sysstate_scheme) kres) \<Rightarrow> uint \<Rightarrow> trapframe
     \<Rightarrow> 'z sysstate_scheme \<Rightarrow> (unit, 'z sysstate_scheme) kres" where
  "trap_switch irq cr2 tf k =
     (let no = tf_trapno tf in
      if no = T_IRQ0 then
        bindk (cpuid_k k) (\<lambda>c k.
          if c = 0 then
            bindk (acquire_tk k) (\<lambda>_ k.
            bindk (wakeup ChTicks (k\<lparr>s_ticks := s_ticks k + 1\<rparr>)) (\<lambda>_ k.
            release_tk k))
          else Ok () k)
      else if no = T_IRQ0 + 14 then irq 14 k
      else if no = T_IRQ0 + 15 then Ok () k
      else if no = T_IRQ0 + 1 then irq 1 k
      else if no = T_IRQ0 + 4 then irq 4 k
      else if no = T_IRQ0 + 7 \<or> no = T_IRQ0 + 31 then
        bindk (cpuid_k k) (\<lambda>c k. Ok () (k\<lparr>s_out := s_out k @ [LSpurious c (tf_cs tf) (tf_eip tf)]\<rparr>))
      else
        bindk (myproc_k k) (\<lambda>p k.
          (case p of None \<Rightarrow> Panic ''trap'' | Some p \<Rightarrow>
           if tf_cs tf AND 3 = 0 then Panic ''trap''
           else Ok () (procs_upd p (\<lambda>x. x\<lparr>p_killed := True\<rparr>)
             (k\<lparr>s_out := s_out k @ [LKill (p_pid (k_procs k ! p)) (cstr (p_name (k_procs k ! p)))
                  no (tf_eip tf) cr2]\<rparr>)))))"

definition trap_end :: "trapframe \<Rightarrow> 'z pstate_scheme \<Rightarrow> (unit, 'z pstate_scheme) kres" where
  "trap_end tf k = bindk (myproc_k k) (\<lambda>p k.
     if cur_killed p k \<and> tf_cs tf AND 3 = DPL_USER then exit_call k else Ok () k)"

definition trap_tail :: "trapframe \<Rightarrow> 'z pstate_scheme \<Rightarrow> (unit, 'z pstate_scheme) kres" where
  "trap_tail tf k = bindk (trap_end tf k) (\<lambda>_ k.
     bindk (myproc_k k) (\<lambda>p k.
       if (case p of None \<Rightarrow> False | Some p \<Rightarrow> p_state (k_procs k ! p) = RUNNING) \<and> tf_trapno tf = T_IRQ0
       then bindk (yield_enter k) (\<lambda>_ k. Sleep ChSched k)
       else trap_end tf k))"

definition trap_resume :: "bool \<Rightarrow> trapframe \<Rightarrow> 'z pstate_scheme \<Rightarrow> (unit, 'z pstate_scheme) kres" where
  "trap_resume ie tf k = bindk (yield_return ie k) (\<lambda>_ k. trap_end tf k)"

definition trap ::
  "(nat \<Rightarrow> 'z sysstate_scheme \<Rightarrow> (unit, 'z sysstate_scheme) kres)
     \<Rightarrow> (nat \<Rightarrow> ('z sysstate_scheme \<Rightarrow> (uint, 'z sysstate_scheme) kres) option) \<Rightarrow> uint \<Rightarrow> trapframe
     \<Rightarrow> 'z sysstate_scheme \<Rightarrow> (unit, 'z sysstate_scheme) kres" where
  "trap irq tbl cr2 tf k =
     (if tf_trapno tf = T_SYSCALL then
        with_cur (\<lambda>p k.
          if p_killed (k_procs k ! p) then exit_call k
          else bindk (syscall tbl (procs_upd p (\<lambda>x. x\<lparr>p_tf := tf\<rparr>) k)) (\<lambda>_ k.
               with_cur (\<lambda>p k. if p_killed (k_procs k ! p) then exit_call k else Ok () k) k)) k
      else bindk (trap_switch irq cr2 tf k) (\<lambda>_ k. trap_tail tf k))"

subsection \<open>Fetching, evaluated\<close>

abbreviation settle :: "nat \<Rightarrow> 'z kstate_scheme \<Rightarrow> 'z kstate_scheme" where
  "settle c k \<equiv> k\<lparr>k_mach := settled c (k_mach k)\<rparr>"

definition running :: "nat \<Rightarrow> nat \<Rightarrow> 'z kstate_scheme \<Rightarrow> bool" where
  "running c p k \<longleftrightarrow> on_cpu c (k_mach k) \<and> cproc (cpus (k_mach k) ! c) = Some p"

lemma running_settle: "running c p k \<Longrightarrow> running c p (settle c k)"
  by (simp add: running_def on_cpu_settled cproc_settled)

lemma settled_running: "running c p k \<Longrightarrow> settled c (settled c (k_mach k)) = settled c (k_mach k)"
  by (simp add: running_def)

lemma with_cur_running: "running c p k \<Longrightarrow> with_cur f k = f p (settle c k)"
  by (simp add: with_cur_def running_def myproc_k_on_cpu [of c])

lemma myproc_running: "running c p k \<Longrightarrow> myproc_k k = Ok (Some p) (settle c k)"
  by (simp add: running_def myproc_k_on_cpu [of c])

definition user_word :: "uint \<Rightarrow> nat \<Rightarrow> 'z kstate_scheme \<Rightarrow> uint option" where
  "user_word addr p k =
     (if addr \<ge> p_sz (k_procs k ! p) \<or> addr + 4 > p_sz (k_procs k ! p) then None
      else Some (ld32 (k_umem k p) addr))"

abbreviation arg_addr :: "nat \<Rightarrow> nat \<Rightarrow> 'z kstate_scheme \<Rightarrow> uint" where
  "arg_addr n p k \<equiv> tf_esp (p_tf (k_procs k ! p)) + 4 + 4 * of_nat n"

lemma argint_running:
  assumes "running c p k"
  shows "argint n k = Ok (user_word (arg_addr n p k) p k) (settle c k)"
  by (simp add: argint_def fetchint_def myproc_running [OF assms] Let_def user_word_def
      myproc_running [OF running_settle [OF assms]] settled_running [OF assms])

lemma argptr_running:
  assumes "running c p k"
  shows "argptr n sz0 k = Ok
    (case user_word (arg_addr n p k) p k of None \<Rightarrow> None | Some i \<Rightarrow>
       if sz0 < 0 \<or> i \<ge> p_sz (k_procs k ! p) \<or> i + of_int sz0 > p_sz (k_procs k ! p) then None else Some i)
    (settle c k)"
proof -
  have "argint n (settle c k) = Ok (user_word (arg_addr n p k) p k) (settle c k)"
    using argint_running [OF running_settle [OF assms], of n] settled_running [OF assms]
    by (simp add: user_word_def)
  then show ?thesis
    by (simp add: argptr_def myproc_running [OF assms] Let_def split: option.splits)
qed

lemma or_junk_running:
  assumes "running c p k"
  shows "or_junk j (argint n k) = Ok (case user_word (arg_addr n p k) p k of None \<Rightarrow> j | Some w \<Rightarrow> w) (settle c k)"
  by (simp add: or_junk_def argint_running [OF assms])

lemma fetchstr_loop_Some:
  "fetchstr_loop m s ep = Some t \<Longrightarrow>
   s \<le> t \<and> t < ep \<and> m t = 0 \<and> (\<forall>x. s \<le> x \<and> x < t \<longrightarrow> m x \<noteq> 0)"
proof (induction m s ep rule: fetchstr_loop.induct)
  case (1 m s ep)
  show ?case
  proof (cases "s < ep \<and> m s \<noteq> 0")
    case True
    then have rec: "fetchstr_loop m (s + 1) ep = Some t" using "1.prems" by (simp add: fetchstr_loop.simps [of m s])
    have u: "unat (s + 1) = unat s + 1" using True fetchstr_step by blast
    have ih: "s + 1 \<le> t" "t < ep" "m t = 0" "\<forall>x. s + 1 \<le> x \<and> x < t \<longrightarrow> m x \<noteq> 0"
      using "1.IH" True rec by blast+
    have "s \<le> t" using ih(1) u by (simp add: word_le_nat_alt)
    moreover have "m x \<noteq> 0" if "s \<le> x" "x < t" for x
    proof (cases "x = s")
      case False
      then have "unat x \<noteq> unat s" by (simp add: word_unat_eq_iff)
      then have "s + 1 \<le> x" using that(1) u by (simp add: word_le_nat_alt)
      then show ?thesis using ih(4) that(2) by blast
    qed (use True in simp)
    ultimately show ?thesis using ih by blast
  next
    case False
    then show ?thesis using "1.prems" by (auto simp: fetchstr_loop.simps [of m s] split: if_splits)
  qed
qed

lemma fetchstr_loop_None:
  "fetchstr_loop m s ep = None \<Longrightarrow> \<forall>x. s \<le> x \<and> x < ep \<longrightarrow> m x \<noteq> 0"
proof (induction m s ep rule: fetchstr_loop.induct)
  case (1 m s ep)
  show ?case
  proof (cases "s < ep")
    case True
    then have ne: "m s \<noteq> 0" and rec: "fetchstr_loop m (s + 1) ep = None"
      using "1.prems" by (auto simp: fetchstr_loop.simps [of m s] split: if_splits)
    have u: "unat (s + 1) = unat s + 1" using True fetchstr_step by blast
    have ih: "\<forall>x. s + 1 \<le> x \<and> x < ep \<longrightarrow> m x \<noteq> 0" using "1.IH" True ne rec by blast
    show ?thesis
    proof (intro allI impI)
      fix x assume x: "s \<le> x \<and> x < ep"
      show "m x \<noteq> 0"
      proof (cases "x = s")
        case False
        then have "unat x \<noteq> unat s" by (simp add: word_unat_eq_iff)
        then have "s + 1 \<le> x" using x u by (simp add: word_le_nat_alt)
        then show ?thesis using ih x by blast
      qed (use ne in simp)
    qed
  next
    case False
    then show ?thesis by (meson le_less_trans)
  qed
qed

subsection \<open>Properties\<close>

lemma unat_of_int_uint: "0 \<le> n \<Longrightarrow> n < 2 ^ 32 \<Longrightarrow> unat (of_int n :: uint) = nat n"
  by (cases n rule: nonneg_int_cases) (simp_all add: unat_uint_of_nat)

text \<open>
  Claim C20. A pointer argument that \<^verbatim>\<open>argptr\<close> accepts lies, with the whole block of the given size,
  inside the process's memory: no process below \<^verbatim>\<open>KERNBASE\<close> can make the sum wrap around.
\<close>

theorem argptr_in_bounds:
  assumes "running c p k" and "p_sz (k_procs k ! p) \<le> 0x80000000" and "n < 2 ^ 31"
    and "argptr i n k = Ok (Some a) k'"
  shows "0 \<le> n \<and> unat a + nat n \<le> unat (p_sz (k_procs k ! p)) \<and> a < p_sz (k_procs k ! p)
    \<and> a = ld32 (k_umem k p) (arg_addr i p k)"
proof -
  let ?sz = "p_sz (k_procs k ! p)"
  have h: "user_word (arg_addr i p k) p k = Some a" "0 \<le> n" "a < ?sz" "a + of_int n \<le> ?sz"
    using assms(4) unfolding argptr_running [OF assms(1)]
    by (auto simp: not_le not_less split: option.splits if_splits)
  have "unat a < 2 ^ 31" using h(3) assms(2) by (simp add: word_less_nat_alt word_le_nat_alt)
  moreover have "unat (of_int n :: uint) = nat n" using h(2) assms(3) by (intro unat_of_int_uint) simp_all
  ultimately have "unat (a + of_int n) = unat a + nat n"
    using assms(3) h(2) by (simp add: unat_word_ariths)
  then have "unat a + nat n \<le> unat ?sz" using h(4) by (simp add: word_le_nat_alt)
  then show ?thesis using h by (auto simp: user_word_def split: if_splits)
qed

lemma running_demo [simp]: "running 0 0 demo_k"
  by (simp add: running_def)

definition demo_args :: kstate where
  "demo_args = demo_k\<lparr>k_umem := (\<lambda>_. st32 (\<lambda>_. 0) 0x2f04 0x100)\<rparr>"

lemma demo_args_simps [simp]:
  "running 0 0 demo_args" "k_procs demo_args = k_procs demo_k"
  "k_umem demo_args = (\<lambda>_. st32 (\<lambda>_. 0) 0x2f04 0x100)" "k_mach demo_args = demo_mach"
  by (simp_all add: demo_args_def running_def)

lemma demo_arg0 [simp]: "user_word (arg_addr 0 0 demo_args) 0 demo_args = Some 0x100"
  by (simp add: user_word_def demo_tf_def)

theorem argptr_in_bounds_witness:
  "\<exists>k'. argptr 0 8 demo_args = Ok (Some 0x100) k' \<and> unat (0x100 :: uint) + 8 \<le> unat (0x3000 :: uint)"
proof -
  have "argptr 0 8 demo_args = Ok (Some 0x100) (settle 0 demo_args)"
    unfolding argptr_running [OF demo_args_simps(1)] demo_arg0 by simp
  then show ?thesis using argptr_in_bounds [of 0 0 demo_args 8 0 "0x100"] by simp
qed



text \<open>
  Claim C22. Returning from a signal handler loses a register. \<^verbatim>\<open>sys_sig_ret\<close> returns 0, and
  \<^verbatim>\<open>syscall\<close> stores that in \<^verbatim>\<open>eax\<close> of the trapframe \<^verbatim>\<open>ret_signal\<close> has just restored: the interrupted code
  continues with \<^verbatim>\<open>eax\<close> 0 and all its other registers intact.
\<close>

theorem sig_ret_clobbers_eax:
  assumes "ready c k" and "running c p k" and "p < length (k_procs k)"
    and "tf_eax (p_tf (k_procs k ! p)) = 31"
    and "mem_read (k_umem k p) (tf_esp (p_tf (k_procs k ! p)) + 12 + of_nat (length (e_code e))) TF_SIZE
           = tf_bytes tf"
  shows "\<exists>k'. syscall (syscalls e file) k = Ok () k'
    \<and> p_tf (k_procs k' ! p) = tf\<lparr>tf_eax := 0\<rparr> \<and> \<not> p_handling (k_procs k' ! p)"
proof -
  define k1 where "k1 = (if s_toggle k = 1
     then (settle c k)\<lparr>s_count := (s_count k)[30 := s_count k ! 30 + 1]\<rparr> else settle c k)"
  have k1: "ready c k1" "cproc (cpus (k_mach k1) ! c) = Some p" "k_procs k1 = k_procs k" "k_umem k1 = k_umem k"
    using assms(1,2) by (auto simp: k1_def ready_def running_def on_cpu_settled cproc_settled)
  obtain k2 where k2: "ret_signal (e_code e) k1 = Ok () k2"
    "k_procs k2 = (k_procs k1)[p := (k_procs k1 ! p)\<lparr>p_tf := tf, p_handling := False\<rparr>]"
    using ret_signal_ready [OF k1(1,2), of "e_code e"] assms(3,5) by (auto simp: k1(3,4))
  have "syscall (syscalls e file) k = bindk (sys_sig_ret (e_code e) k1) (\<lambda>r k. Ok () (set_eax p r k))"
    using assms(4)
    by (simp add: syscall_def with_cur_running [OF assms(2)] Let_def NELEM_syscalls_def syscalls_def k1_def)
  then show ?thesis using k2 assms(3) by (simp add: sys_sig_ret_def set_eax_def k1(3))
qed

definition demo_s :: sysstate where
  "demo_s = pstate.extend demo_p
     \<lparr>s_count = replicate 32 0, s_toggle = 1, s_ticks = 0, s_tickslock = initlock ''time'', s_out = []\<rparr>"

lemma demo_s_simps [simp]:
  "k_procs demo_s = k_procs demo_k" "k_mach demo_s = demo_mach" "k_umem demo_s = k_umem demo_k"
  "k_initproc demo_s = Some 0" "k_ptlock demo_s = initlock ''ptable''"
  using demo_p_simps by (simp_all add: demo_s_def pstate.defs del: demo_p_simps)

definition demo_env :: sysenv where
  "demo_env = \<lparr>e_ks = 0x5000, e_tf0 = demo_tf, e_pg = 0x6000, e_alloc = (\<lambda>_ n. n), e_dealloc = (\<lambda>_ n. n),
     e_junk = (\<lambda>_. 0xdead), e_code = [0xb8, 31, 0, 0, 0, 0xcd, 64]\<rparr>"

definition demo_ret :: sysstate where
  "demo_ret = procs_upd 0 (\<lambda>p. p\<lparr>p_tf := demo_tf\<lparr>tf_eax := 31\<rparr>, p_handling := True\<rparr>)
     (demo_s\<lparr>k_umem := (\<lambda>_. mem_write (\<lambda>_. 0) 0x2f13 (tf_bytes demo_tf))\<rparr>)"

theorem sig_ret_clobbers_eax_witness:
  "\<exists>k'. syscall (syscalls demo_env (\<lambda>_ k. Ok 0 k)) demo_ret = Ok () k'
    \<and> tf_eax (p_tf (k_procs k' ! 0)) = 0 \<and> tf_eax demo_tf = 8"
proof -
  have "ready 0 demo_ret" "running 0 0 demo_ret" "0 < length (k_procs demo_ret)"
    "p_tf (k_procs demo_ret ! 0) = demo_tf\<lparr>tf_eax := 31\<rparr>" "length (e_code demo_env) = 7"
    "k_umem demo_ret = (\<lambda>_. mem_write (\<lambda>_. 0) 0x2f13 (tf_bytes demo_tf))"
    by (simp_all add: demo_ret_def ready_def running_def initlock_def demo_env_def)
  moreover have "mem_read (mem_write (\<lambda>_. 0) 0x2f13 (tf_bytes demo_tf)) 0x2f13 TF_SIZE = tf_bytes demo_tf"
    by (simp add: mem_read_write_same TF_SIZE_def)
  moreover have "tf_esp demo_tf = 0x2f00" "tf_eax demo_tf = 8" by (simp_all add: demo_tf_def)
  ultimately show ?thesis
    using sig_ret_clobbers_eax [of 0 demo_ret 0 demo_env demo_tf "\<lambda>_ k. Ok 0 k"] by auto
qed


definition demo_send :: kstate where
  "demo_send = demo_k\<lparr>k_umem := (\<lambda>_. st32 (st32 (\<lambda>_. 5) 0x2ffc 2) 0x2ff8 1),
     k_procs := (k_procs demo_k)[0 := (demo_proc 1 RUNNING)\<lparr>p_tf := demo_tf\<lparr>tf_esp := 0x2ff4\<rparr>\<rparr>]\<rparr>"


end
