(* ===== verification/Bio.thy ===== *)
theory Bio
  imports Strings
begin

text \<open>
  The buffer cache: \<^verbatim>\<open>bio.c\<close>, the sleep locks of \<^verbatim>\<open>sleeplock.c\<close> its buffers carry, and the disk of
  \<^verbatim>\<open>memide.c\<close>.

  The cache is the array \<^verbatim>\<open>bcache.buf\<close> with the list head \<^verbatim>\<open>bcache.head\<close> as its last entry; \<^verbatim>\<open>prev\<close> and
  \<^verbatim>\<open>next\<close> are indices into it, so the list manipulations are those of the code. The flag word is two
  booleans. The critical sections of \<^verbatim>\<open>bcache.lock\<close> and of the spin lock inside a sleep lock do not
  sleep and are steps of their own here. A process that finds a sleep lock taken leaves the CPU with
  the outcome \<open>Sleep\<close>. \<open>bs_writes\<close> is the history of writes that reached the disk, which the crash
  theorem of the log talks about, and \<open>bs_woken\<close> the history of wakeups.
\<close>

subsection \<open>State\<close>

definition BSIZE :: nat where "BSIZE = 512"
definition NBUF :: nat where "NBUF = 30"

record sleeplock =
  sl_locked :: bool
  sl_pid :: int

record buf =
  b_valid :: bool
  b_dirty :: bool
  b_dev :: uint
  b_blockno :: uint
  b_lock :: sleeplock
  b_refcnt :: uint
  b_prev :: nat
  b_next :: nat
  b_data :: "byte list"

record bstate =
  bs_buf :: "buf list"
  bs_disk :: "uint \<Rightarrow> byte list"
  bs_disksize :: uint
  bs_pid :: int
  bs_woken :: "chan list"
  bs_writes :: "(uint \<times> byte list) list"

definition upd_buf :: "nat \<Rightarrow> (buf \<Rightarrow> buf) \<Rightarrow> 'z bstate_scheme \<Rightarrow> 'z bstate_scheme" where
  "upd_buf i f s = s\<lparr>bs_buf := (bs_buf s)[i := f (bs_buf s ! i)]\<rparr>"

abbreviation bufof :: "'z bstate_scheme \<Rightarrow> nat \<Rightarrow> buf" where
  "bufof s i \<equiv> bs_buf s ! i"

subsection \<open>Sleep locks\<close>

definition initsleeplock :: "sleeplock" where
  "initsleeplock = \<lparr>sl_locked = False, sl_pid = 0\<rparr>"

definition acquiresleep_b :: "nat \<Rightarrow> 'z bstate_scheme \<Rightarrow> (unit, 'z bstate_scheme) kres" where
  "acquiresleep_b i s =
     (if sl_locked (b_lock (bufof s i)) then Sleep (ChBufLock i) s
      else Ok () (upd_buf i (\<lambda>b. b\<lparr>b_lock := \<lparr>sl_locked = True, sl_pid = bs_pid s\<rparr>\<rparr>) s))"

definition releasesleep_b :: "nat \<Rightarrow> 'z bstate_scheme \<Rightarrow> 'z bstate_scheme" where
  "releasesleep_b i s = (upd_buf i (\<lambda>b. b\<lparr>b_lock := \<lparr>sl_locked = False, sl_pid = 0\<rparr>\<rparr>) s)
     \<lparr>bs_woken := bs_woken s @ [ChBufLock i]\<rparr>"

definition holdingsleep_b :: "nat \<Rightarrow> 'z bstate_scheme \<Rightarrow> bool" where
  "holdingsleep_b i s \<longleftrightarrow> sl_locked (b_lock (bufof s i)) \<and> sl_pid (b_lock (bufof s i)) = bs_pid s"

subsection \<open>The disk\<close>

definition iderw :: "nat \<Rightarrow> 'z bstate_scheme \<Rightarrow> (unit, 'z bstate_scheme) kres" where
  "iderw i s =
     (let b = bufof s i in
      if \<not> holdingsleep_b i s then Panic ''iderw: buf not locked''
      else if b_valid b \<and> \<not> b_dirty b then Panic ''iderw: nothing to do''
      else if b_dev b \<noteq> 1 then Panic ''iderw: request not for disk 1''
      else if b_blockno b \<ge> bs_disksize s then Panic ''iderw: block out of range''
      else if b_dirty b then
        Ok () ((upd_buf i (\<lambda>b. b\<lparr>b_dirty := False, b_valid := True\<rparr>) s)
          \<lparr>bs_disk := (bs_disk s)(b_blockno b := b_data b), bs_writes := bs_writes s @ [(b_blockno b, b_data b)]\<rparr>)
      else Ok () (upd_buf i (\<lambda>b. b\<lparr>b_data := bs_disk s (b_blockno b), b_valid := True\<rparr>) s))"

subsection \<open>The cache\<close>

text \<open>Insert entry \<open>i\<close> behind the head, as \<^verbatim>\<open>binit\<close> and \<^verbatim>\<open>brelse\<close> do.\<close>

definition link_front :: "nat \<Rightarrow> 'z bstate_scheme \<Rightarrow> 'z bstate_scheme" where
  "link_front i s =
     (let s = upd_buf i (\<lambda>b. b\<lparr>b_next := b_next (bufof s NBUF)\<rparr>) s;
          s = upd_buf i (\<lambda>b. b\<lparr>b_prev := NBUF\<rparr>) s;
          s = upd_buf (b_next (bufof s NBUF)) (\<lambda>b. b\<lparr>b_prev := i\<rparr>) s
      in upd_buf NBUF (\<lambda>b. b\<lparr>b_next := i\<rparr>) s)"

primrec binit_loop :: "nat \<Rightarrow> 'z bstate_scheme \<Rightarrow> 'z bstate_scheme" where
  "binit_loop 0 s = s"
| "binit_loop (Suc n) s =
     (let s = binit_loop n s in link_front n (upd_buf n (\<lambda>b. b\<lparr>b_lock := initsleeplock\<rparr>) s))"

definition binit :: "'z bstate_scheme \<Rightarrow> 'z bstate_scheme" where
  "binit s = binit_loop NBUF (upd_buf NBUF (\<lambda>b. b\<lparr>b_prev := NBUF, b_next := NBUF\<rparr>) s)"

text \<open>
  The loops of \<^verbatim>\<open>bget\<close>: follow \<open>nx\<close> until an entry satisfies \<open>P\<close> or the head comes round again. The
  value \<open>None\<close> is a loop that does not end.
\<close>

partial_function (option) scan :: "(nat \<Rightarrow> nat) \<Rightarrow> (nat \<Rightarrow> bool) \<Rightarrow> nat \<Rightarrow> nat option option" where
  "scan nx P i = (if i = NBUF then Some None else if P i then Some (Some i) else scan nx P (nx i))"

abbreviation nxt :: "'z bstate_scheme \<Rightarrow> nat \<Rightarrow> nat" where "nxt s i \<equiv> b_next (bufof s i)"
abbreviation prv :: "'z bstate_scheme \<Rightarrow> nat \<Rightarrow> nat" where "prv s i \<equiv> b_prev (bufof s i)"

definition bget_lock :: "nat \<Rightarrow> 'z bstate_scheme \<Rightarrow> (nat, 'z bstate_scheme) kres" where
  "bget_lock i s = bindk (acquiresleep_b i s) (\<lambda>_ s. Ok i s)"

definition bget :: "uint \<Rightarrow> uint \<Rightarrow> 'z bstate_scheme \<Rightarrow> (nat, 'z bstate_scheme) kres" where
  "bget dev blockno s =
     (case scan (nxt s) (\<lambda>i. b_dev (bufof s i) = dev \<and> b_blockno (bufof s i) = blockno) (nxt s NBUF) of
        None \<Rightarrow> Spin
      | Some (Some i) \<Rightarrow> bget_lock i (upd_buf i (\<lambda>b. b\<lparr>b_refcnt := b_refcnt b + 1\<rparr>) s)
      | Some None \<Rightarrow>
       (case scan (prv s) (\<lambda>i. b_refcnt (bufof s i) = 0 \<and> \<not> b_dirty (bufof s i)) (prv s NBUF) of
          None \<Rightarrow> Spin
        | Some (Some i) \<Rightarrow>
           bget_lock i (upd_buf i (\<lambda>b. b\<lparr>b_dev := dev, b_blockno := blockno, b_valid := False,
             b_dirty := False, b_refcnt := 1\<rparr>) s)
        | Some None \<Rightarrow> Panic ''bget: no buffers''))"

definition bread :: "uint \<Rightarrow> uint \<Rightarrow> 'z bstate_scheme \<Rightarrow> (nat, 'z bstate_scheme) kres" where
  "bread dev blockno s =
     bindk (bget dev blockno s) (\<lambda>i s.
       if \<not> b_valid (bufof s i) then bindk (iderw i s) (\<lambda>_ s. Ok i s) else Ok i s)"

definition bwrite :: "nat \<Rightarrow> 'z bstate_scheme \<Rightarrow> (unit, 'z bstate_scheme) kres" where
  "bwrite i s =
     (if \<not> holdingsleep_b i s then Panic ''bwrite''
      else iderw i (upd_buf i (\<lambda>b. b\<lparr>b_dirty := True\<rparr>) s))"

definition unlink :: "nat \<Rightarrow> 'z bstate_scheme \<Rightarrow> 'z bstate_scheme" where
  "unlink i s =
     (let s = upd_buf (nxt s i) (\<lambda>b. b\<lparr>b_prev := prv s i\<rparr>) s
      in upd_buf (prv s i) (\<lambda>b. b\<lparr>b_next := nxt s i\<rparr>) s)"

definition brelse :: "nat \<Rightarrow> 'z bstate_scheme \<Rightarrow> (unit, 'z bstate_scheme) kres" where
  "brelse i s =
     (if \<not> holdingsleep_b i s then Panic ''brelse''
      else
        let s = releasesleep_b i s;
            s = upd_buf i (\<lambda>b. b\<lparr>b_refcnt := b_refcnt b - 1\<rparr>) s
        in Ok () (if b_refcnt (bufof s i) = 0 then link_front i (unlink i s) else s))"

subsection \<open>The linked list\<close>

text \<open>
  \<open>linked nx pv ys\<close>: consecutive entries of \<open>ys\<close> point at each other.
\<close>

fun linked :: "(nat \<Rightarrow> nat) \<Rightarrow> (nat \<Rightarrow> nat) \<Rightarrow> nat list \<Rightarrow> bool" where
  "linked nx pv (x # y # ys) \<longleftrightarrow> nx x = y \<and> pv y = x \<and> linked nx pv (y # ys)"
| "linked nx pv _ \<longleftrightarrow> True"

lemma linked_append: "linked nx pv (xs @ y # ys) \<longleftrightarrow> linked nx pv (xs @ [y]) \<and> linked nx pv (y # ys)"
  by (induction xs rule: induct_list012) auto

lemma linked_upd_next: "a \<notin> set (butlast ys) \<Longrightarrow> linked (nx(a := v)) pv ys = linked nx pv ys"
  by (induction ys rule: induct_list012) auto

lemma linked_upd_prev: "a \<notin> set (tl ys) \<Longrightarrow> linked nx (pv(a := v)) ys = linked nx pv ys"
  by (induction ys rule: induct_list012) auto

lemma scan_unfold:
  "scan nx P NBUF = Some None"
  "i \<noteq> NBUF \<Longrightarrow> P i \<Longrightarrow> scan nx P i = Some (Some i)"
  "i \<noteq> NBUF \<Longrightarrow> \<not> P i \<Longrightarrow> scan nx P i = scan nx P (nx i)"
  by (subst scan.simps, simp)+

lemma scan_next:
  "linked nx pv (x # ys @ [NBUF]) \<Longrightarrow> NBUF \<notin> set ys \<Longrightarrow> scan nx P (nx x) = Some (find P ys)"
proof (induction ys arbitrary: x)
  case (Cons y ys)
  then have "nx x = y" "scan nx P (nx y) = Some (find P ys)" "y \<noteq> NBUF" by auto
  then show ?case by (cases "P y") (simp_all add: scan_unfold(2,3))
qed (simp add: scan_unfold(1))

lemma scan_prev:
  "linked nx pv (NBUF # ys @ [x]) \<Longrightarrow> NBUF \<notin> set ys \<Longrightarrow> scan pv P (pv x) = Some (find P (rev ys))"
proof (induction ys arbitrary: x rule: rev_induct)
  case (snoc y ys)
  have "linked nx pv ((NBUF # ys) @ y # [x])" using snoc.prems(1) by simp
  then have l: "linked nx pv (NBUF # ys @ [y])" "pv x = y"
    using linked_append [of nx pv "NBUF # ys" y "[x]"] by (simp_all only: linked.simps append_Cons simp_thms)
  have "scan pv P (pv y) = Some (find P (rev ys))" using snoc.IH [OF l(1)] snoc.prems(2) by simp
  moreover have "y \<noteq> NBUF" using snoc.prems(2) by auto
  ultimately show ?case using l(2) by (cases "P y") (simp_all add: scan_unfold(2,3))
qed (simp add: scan_unfold(1))


lemma insert_front_ptr:
  assumes "linked nx pv (N # ys @ [N])" "distinct ys" "N \<notin> set ys" "i \<notin> set ys" "i \<noteq> N"
  shows "linked (nx(i := nx N, N := i)) (pv(i := N, nx N := i)) (N # i # ys @ [N])"
proof (cases ys)
  case Nil
  then show ?thesis using assms by simp
next
  case (Cons h zs)
  have "linked nx pv (h # zs @ [N])" "nx N = h" using assms(1) Cons by simp_all
  moreover have "linked (nx(i := h, N := i)) (pv(i := N, h := i)) (h # zs @ [N]) = linked nx pv (h # zs @ [N])"
    using assms Cons by (simp add: linked_upd_next linked_upd_prev butlast_append)
  ultimately show ?thesis using assms Cons by simp
qed

lemma remove_ptr:
  assumes "linked nx pv (us @ p # i # n # vs)" "p \<notin> set us" "i \<noteq> n" "i \<noteq> p"
    and "n \<notin> set (tl (us @ [p]))" "p \<notin> set (butlast (n # vs))" "n \<notin> set vs"
  shows "linked (nx(p := n)) (pv(n := p)) (us @ p # n # vs)" "nx i = n" "pv i = p"
proof -
  have l: "linked nx pv (us @ [p])" "linked nx pv (p # i # n # vs)"
    using assms(1) linked_append [of nx pv us p "i # n # vs"] by simp_all
  have "linked (nx(p := n)) (pv(n := p)) (us @ [p]) = linked nx pv (us @ [p])"
    using assms(2,5) by (simp add: linked_upd_next linked_upd_prev)
  moreover have "linked (nx(p := n)) (pv(n := p)) (n # vs) = linked nx pv (n # vs)"
    using assms(6,7) by (simp add: linked_upd_next linked_upd_prev)
  ultimately show "linked (nx(p := n)) (pv(n := p)) (us @ p # n # vs)"
    using l by (subst linked_append) simp
  show "nx i = n" "pv i = p" using l by simp_all
qed

subsection \<open>The list in the cache\<close>

definition mru_ok :: "'z bstate_scheme \<Rightarrow> nat list \<Rightarrow> bool" where
  "mru_ok s xs \<longleftrightarrow> length (bs_buf s) = Suc NBUF \<and> linked (nxt s) (prv s) (NBUF # xs @ [NBUF])
     \<and> distinct xs \<and> set xs = {..<NBUF}"

lemma mru_okD:
  assumes "mru_ok s xs"
  shows "length (bs_buf s) = Suc NBUF" "linked (nxt s) (prv s) (NBUF # xs @ [NBUF])" "distinct xs"
    "set xs = {..<NBUF}"
  using assms unfolding mru_ok_def by blast+

lemma mru_ok_mem:
  assumes "mru_ok s xs" "x \<in> set (NBUF # xs @ [NBUF])"
  shows "x < length (bs_buf s)"
proof -
  have "x = NBUF \<or> x < NBUF" using assms(2) mru_okD(4) [OF assms(1)] by simp
  then show ?thesis using mru_okD(1) [OF assms(1)] by linarith
qed

lemma upd_buf_nth [simp]:
  "i < length (bs_buf s) \<Longrightarrow> bs_buf (upd_buf j f s) ! i = (if i = j then f (bs_buf s ! i) else bs_buf s ! i)"
  by (auto simp: upd_buf_def)

lemma upd_buf_simps [simp]:
  "length (bs_buf (upd_buf j f s)) = length (bs_buf s)" "bs_disk (upd_buf j f s) = bs_disk s"
  "bs_disksize (upd_buf j f s) = bs_disksize s" "bs_pid (upd_buf j f s) = bs_pid s"
  "bs_woken (upd_buf j f s) = bs_woken s" "bs_writes (upd_buf j f s) = bs_writes s"
  by (simp_all add: upd_buf_def)


lemma linked_cong:
  "(\<And>x. x \<in> set ys \<Longrightarrow> nx x = nx' x \<and> pv x = pv' x) \<Longrightarrow> linked nx pv ys = linked nx' pv' ys"
  by (induction ys rule: induct_list012) auto

text \<open>A buffer without its list pointers.\<close>

definition core :: "buf \<Rightarrow> buf" where
  "core b = b\<lparr>b_prev := 0, b_next := 0\<rparr>"

definition same_core :: "'z bstate_scheme \<Rightarrow> 'z bstate_scheme \<Rightarrow> bool" where
  "same_core s s' \<longleftrightarrow> length (bs_buf s') = length (bs_buf s)
     \<and> (\<forall>j < length (bs_buf s). core (bufof s' j) = core (bufof s j))
     \<and> bs_disk s' = bs_disk s \<and> bs_disksize s' = bs_disksize s \<and> bs_pid s' = bs_pid s
     \<and> bs_woken s' = bs_woken s \<and> bs_writes s' = bs_writes s \<and> bstate.more s' = bstate.more s"

lemma same_core_refl: "same_core s s" by (simp add: same_core_def)

lemma same_core_upd:
  "same_core s s' \<Longrightarrow> (\<And>b. core (f b) = core b) \<Longrightarrow> same_core s (upd_buf k f s')"
  by (auto simp: same_core_def) (simp add: upd_buf_def)

lemma core_links [simp]: "core (b\<lparr>b_prev := v\<rparr>) = core b" "core (b\<lparr>b_next := v\<rparr>) = core b"
  by (simp_all add: core_def)

lemma same_core_unlink: "same_core s (unlink i s)"
  unfolding unlink_def Let_def by (intro same_core_upd same_core_refl core_links)

lemma same_core_link_front: "same_core s (link_front i s)"
  unfolding link_front_def Let_def by (intro same_core_upd same_core_refl core_links)

lemma same_core_trans: "same_core s s' \<Longrightarrow> same_core s' s'' \<Longrightarrow> same_core s s''"
  by (simp add: same_core_def)

lemma link_front_ptrs:
  assumes "length (bs_buf s) = Suc NBUF" "i < NBUF" "nxt s NBUF \<le> NBUF" "nxt s NBUF \<noteq> i" "j \<le> NBUF"
  shows "nxt (link_front i s) j = ((nxt s)(i := nxt s NBUF, NBUF := i)) j"
    "prv (link_front i s) j = ((prv s)(i := NBUF, nxt s NBUF := i)) j"
  using assms by (simp_all add: link_front_def Let_def)

lemma unlink_ptrs:
  assumes "length (bs_buf s) = Suc NBUF" "i < NBUF" "nxt s i \<le> NBUF" "prv s i \<le> NBUF"
    "nxt s i \<noteq> i" "prv s i \<noteq> i" "j \<le> NBUF"
  shows "nxt (unlink i s) j = ((nxt s)(prv s i := nxt s i)) j"
    "prv (unlink i s) j = ((prv s)(nxt s i := prv s i)) j"
  using assms by (simp_all add: unlink_def Let_def)

lemma mru_link_front:
  assumes "length (bs_buf s) = Suc NBUF" "linked (nxt s) (prv s) (NBUF # ys @ [NBUF])" "distinct ys"
    "set ys \<subseteq> {..<NBUF}" "i < NBUF" "i \<notin> set ys"
  shows "linked (nxt (link_front i s)) (prv (link_front i s)) (NBUF # i # ys @ [NBUF])"
proof -
  have h: "nxt s NBUF \<in> set (ys @ [NBUF])" using assms(2) by (cases ys) auto
  have "linked (nxt (link_front i s)) (prv (link_front i s)) (NBUF # i # ys @ [NBUF])
      = linked ((nxt s)(i := nxt s NBUF, NBUF := i)) ((prv s)(i := NBUF, nxt s NBUF := i)) (NBUF # i # ys @ [NBUF])"
    using assms h by (intro linked_cong conjI link_front_ptrs) auto
  also have "\<dots>" using assms by (intro insert_front_ptr) auto
  finally show ?thesis .
qed

lemma mru_move_front:
  assumes "mru_ok s xs" "i < NBUF"
  shows "mru_ok (link_front i (unlink i s)) (i # remove1 i xs)"
proof -
  have s: "length (bs_buf s) = Suc NBUF" "linked (nxt s) (prv s) (NBUF # xs @ [NBUF])" "distinct xs" "set xs = {..<NBUF}"
    using assms by (auto simp: mru_ok_def)
  then obtain as cs where xs: "xs = as @ i # cs" using assms(2) by (metis lessThan_iff split_list)
  obtain us p where us: "NBUF # as = us @ [p]" by (metis append_butlast_last_id list.distinct(1))
  obtain n vs where vs: "cs @ [NBUF] = n # vs" by (cases "cs @ [NBUF]") auto
  have eq: "NBUF # xs @ [NBUF] = us @ p # i # n # vs" using xs us vs by (metis append.assoc append_Cons append_Nil)
  have mem: "set as \<subseteq> {..<NBUF}" "set cs \<subseteq> {..<NBUF}" "distinct as" "distinct cs" "set as \<inter> set cs = {}"
    "i \<notin> set as" "i \<notin> set cs" using s(3,4) xs by auto
  have p: "p \<in> insert NBUF (set as)" "p \<notin> set us" "tl (us @ [p]) = as"
    using us mem(1,3) by (cases as rule: rev_cases; auto)+
  have n: "n \<in> insert NBUF (set cs)" "n \<notin> set vs" "butlast (n # vs) = cs"
    using vs [symmetric] mem(2,4) by (cases cs; auto)+
  have pre: "i \<noteq> n" "i \<noteq> p" "n \<notin> set (tl (us @ [p]))" "p \<notin> set (butlast (n # vs))"
    unfolding p(3) n(3) using p(1) n(1) mem assms(2) by auto
  note r = remove_ptr [OF s(2) [unfolded eq] p(2) pre n(2)]
  have "us @ p # n # vs = NBUF # (as @ cs) @ [NBUF]" using us vs by (metis append.assoc append_Cons append_Nil)
  then have l: "linked ((nxt s)(p := n)) ((prv s)(n := p)) (NBUF # (as @ cs) @ [NBUF])" and np: "nxt s i = n" "prv s i = p"
    using r by simp_all
  have "linked (nxt (unlink i s)) (prv (unlink i s)) (NBUF # (as @ cs) @ [NBUF])
      = linked ((nxt s)(p := n)) ((prv s)(n := p)) (NBUF # (as @ cs) @ [NBUF])"
  proof (intro linked_cong conjI)
    fix x assume "x \<in> set (NBUF # (as @ cs) @ [NBUF])"
    then have x: "x \<le> NBUF" using mem(1,2) by auto
    have "n \<le> NBUF" "p \<le> NBUF" using p(1) n(1) mem(1,2) by auto
    then have "nxt (unlink i s) x = ((nxt s)(prv s i := nxt s i)) x"
        "prv (unlink i s) x = ((prv s)(nxt s i := prv s i)) x"
      using s(1) assms(2) np pre(1,2) x by (intro unlink_ptrs; simp)+
    then show "nxt (unlink i s) x = ((nxt s)(p := n)) x" "prv (unlink i s) x = ((prv s)(n := p)) x"
      by (simp_all add: np)
  qed
  with l have "linked (nxt (unlink i s)) (prv (unlink i s)) (NBUF # (as @ cs) @ [NBUF])" by simp
  moreover have len: "length (bs_buf (unlink i s)) = Suc NBUF"
    using same_core_unlink [of s i] s(1) by (simp add: same_core_def)
  ultimately have "linked (nxt (link_front i (unlink i s))) (prv (link_front i (unlink i s))) (NBUF # i # (as @ cs) @ [NBUF])"
    using mem assms(2) by (intro mru_link_front) auto
  moreover have "length (bs_buf (link_front i (unlink i s))) = Suc NBUF"
    using same_core_link_front [of "unlink i s" i] len by (simp add: same_core_def)
  ultimately show ?thesis
    using s(3,4) mem xs by (auto simp: mru_ok_def remove1_append)
qed


subsection \<open>The cache invariant\<close>

text \<open>
  \<open>cache_ok s H\<close>: the buffers in \<open>H\<close> are held by the running process, all others are free; a buffer
  in use is valid, no block has two buffers, and a free clean buffer agrees with the disk.
\<close>

definition buf_ok :: "'z bstate_scheme \<Rightarrow> nat set \<Rightarrow> nat \<Rightarrow> bool" where
  "buf_ok s H i \<longleftrightarrow> (let b = bufof s i in
     (if i \<in> H then sl_locked (b_lock b) \<and> sl_pid (b_lock b) = bs_pid s \<and> b_refcnt b = 1 \<and> b_dev b = 1
      else \<not> sl_locked (b_lock b) \<and> b_refcnt b = 0
        \<and> (b_dev b = 1 \<and> \<not> b_dirty b \<longrightarrow> b_data b = bs_disk s (b_blockno b)))
     \<and> (b_dev b = 1 \<longrightarrow> b_valid b \<and> b_blockno b < bs_disksize s)
     \<and> (b_dev b \<noteq> 1 \<longrightarrow> b_dev b = 0 \<and> \<not> b_dirty b))"

definition keyed :: "'z bstate_scheme \<Rightarrow> nat \<Rightarrow> uint \<Rightarrow> bool" where
  "keyed s i b \<longleftrightarrow> b_dev (bufof s i) = 1 \<and> b_blockno (bufof s i) = b"

definition cache_ok :: "'z bstate_scheme \<Rightarrow> nat set \<Rightarrow> bool" where
  "cache_ok s H \<longleftrightarrow> (\<exists>xs. mru_ok s xs) \<and> H \<subseteq> {..<NBUF} \<and> (\<forall>i<NBUF. buf_ok s H i)
     \<and> (\<forall>i<NBUF. \<forall>j<NBUF. \<forall>b. keyed s i b \<longrightarrow> keyed s j b \<longrightarrow> i = j)"

lemma cache_okD:
  assumes "cache_ok s H"
  shows "length (bs_buf s) = Suc NBUF" "H \<subseteq> {..<NBUF}" "i < NBUF \<Longrightarrow> buf_ok s H i"
    "i < NBUF \<Longrightarrow> j < NBUF \<Longrightarrow> keyed s i b \<Longrightarrow> keyed s j b \<Longrightarrow> i = j"
  using assms unfolding cache_ok_def mru_ok_def by blast+

definition cached :: "'z bstate_scheme \<Rightarrow> uint \<Rightarrow> nat option" where
  "cached s b = find_idx (\<lambda>x. b_dev x = 1 \<and> b_blockno x = b) (take NBUF (bs_buf s))"

text \<open>What a reader of block \<open>b\<close> gets.\<close>

definition content :: "'z bstate_scheme \<Rightarrow> uint \<Rightarrow> byte list" where
  "content s b = (case cached s b of Some i \<Rightarrow> b_data (bufof s i) | None \<Rightarrow> bs_disk s b)"

definition dirty_blocks :: "'z bstate_scheme \<Rightarrow> uint set" where
  "dirty_blocks s = {b. \<exists>i<NBUF. keyed s i b \<and> b_dirty (bufof s i)}"

lemma cached_Some:
  assumes "cache_ok s H"
  shows "cached s b = Some i \<longleftrightarrow> i < NBUF \<and> keyed s i b"
proof
  have len: "length (take NBUF (bs_buf s)) = NBUF" using cache_okD(1) [OF assms] by simp
  show "i < NBUF \<and> keyed s i b" if "cached s b = Some i"
    using that len by (auto simp: cached_def find_idx_Some keyed_def)
  assume i: "i < NBUF \<and> keyed s i b"
  have "\<not> keyed s j b" if "j < i" for j
    using cache_okD(4) [OF assms, of j i b] i that by auto
  then show "cached s b = Some i"
    using i len unfolding cached_def find_idx_Some by (simp add: keyed_def)
qed

lemma cached_None:
  assumes "cache_ok s H"
  shows "cached s b = None \<longleftrightarrow> (\<forall>i<NBUF. \<not> keyed s i b)"
  using cached_Some [OF assms, of b] by (cases "cached s b") auto

lemma content_keyed: "cache_ok s H \<Longrightarrow> i < NBUF \<Longrightarrow> keyed s i b \<Longrightarrow> content s b = b_data (bufof s i)"
  using cached_Some [of s H b i] by (simp add: content_def)

lemma content_uncached: "cache_ok s H \<Longrightarrow> \<forall>i<NBUF. \<not> keyed s i b \<Longrightarrow> content s b = bs_disk s b"
  using cached_None [of s H b] by (simp add: content_def)

lemma content_eqI:
  assumes "cache_ok s H" "cache_ok s' H'"
    and "\<And>i. i < NBUF \<Longrightarrow> keyed s' i b \<Longrightarrow> content s b = b_data (bufof s' i)"
    and "\<forall>i<NBUF. \<not> keyed s' i b \<Longrightarrow> content s b = bs_disk s' b"
  shows "content s' b = content s b"
  using assms content_keyed [OF assms(2)] content_uncached [OF assms(2)] by metis

text \<open>A step that changes neither the contents nor the disk nor the set of dirty blocks.\<close>

definition calm :: "'z bstate_scheme \<Rightarrow> 'z bstate_scheme \<Rightarrow> bool" where
  "calm s s' \<longleftrightarrow> content s' = content s \<and> bs_disk s' = bs_disk s \<and> bs_writes s' = bs_writes s
     \<and> bs_disksize s' = bs_disksize s \<and> bs_pid s' = bs_pid s \<and> bstate.more s' = bstate.more s
     \<and> dirty_blocks s' = dirty_blocks s"

lemma calm_trans: "calm s s' \<Longrightarrow> calm s' s'' \<Longrightarrow> calm s s''" by (simp add: calm_def)

lemma mru_ok_upd:
  assumes "mru_ok s xs" "b_prev (f (bufof s i)) = b_prev (bufof s i)" "b_next (f (bufof s i)) = b_next (bufof s i)"
  shows "mru_ok (upd_buf i f s) xs"
proof -
  have "linked (nxt (upd_buf i f s)) (prv (upd_buf i f s)) (NBUF # xs @ [NBUF]) = linked (nxt s) (prv s) (NBUF # xs @ [NBUF])"
  proof (rule linked_cong)
    fix x assume "x \<in> set (NBUF # xs @ [NBUF])"
    then have "x < length (bs_buf s)" by (rule mru_ok_mem [OF assms(1)])
    then show "nxt (upd_buf i f s) x = nxt s x \<and> prv (upd_buf i f s) x = prv s x"
      using assms(2,3) by simp
  qed
  then show ?thesis
    using mru_okD [OF assms(1)] unfolding mru_ok_def by (simp only: upd_buf_simps simp_thms)
qed

text \<open>Changing one buffer, and possibly the disk block behind it.\<close>

lemma cache_ok_upd:
  assumes ok: "cache_ok s H" and i: "i < NBUF"
    and ptr: "b_prev (f (bufof s i)) = b_prev (bufof s i)" "b_next (f (bufof s i)) = b_next (bufof s i)"
    and H: "H' \<subseteq> {..<NBUF}" "\<And>j. j \<noteq> i \<Longrightarrow> j \<in> H' \<longleftrightarrow> j \<in> H"
    and s': "bs_buf s' = bs_buf (upd_buf i f s)" "bs_disksize s' = bs_disksize s" "bs_pid s' = bs_pid s"
    and disk: "\<And>b. bs_disk s' b = bs_disk s b \<or> b = b_blockno (f (bufof s i))"
    and dev: "b_dev (f (bufof s i)) = 1"
    and uniq: "\<And>j. j < NBUF \<Longrightarrow> j \<noteq> i \<Longrightarrow> \<not> keyed s j (b_blockno (f (bufof s i)))"
    and here: "buf_ok s' H' i"
  shows "cache_ok s' H'"
proof -
  note D = cache_okD [OF ok]
  have nth: "bufof s' j = (if j = i then f (bufof s i) else bufof s j)" if "j < Suc NBUF" for j
    using that D(1) by (simp add: s'(1))
  obtain xs where "mru_ok s xs" using ok by (auto simp: cache_ok_def)
  from mru_ok_upd [OF this, of f i] ptr have "mru_ok s' xs" by (simp add: mru_ok_def s'(1))
  moreover have "buf_ok s' H' j" if "j < NBUF" for j
  proof (cases "j = i")
    case False
    have "b_dev (bufof s j) = 1 \<Longrightarrow> bs_disk s' (b_blockno (bufof s j)) = bs_disk s (b_blockno (bufof s j))"
      using uniq [OF that False] disk by (auto simp: keyed_def)
    then show ?thesis using D(3) [OF that] nth [of j] that False H(2) [OF False] s'(2,3)
      by (auto simp: buf_ok_def Let_def)
  qed (simp add: here)
  moreover have "j = k" if "j < NBUF" "k < NBUF" "keyed s' j b" "keyed s' k b" for j k b
  proof -
    have "keyed s' j b = (if j = i then b = b_blockno (f (bufof s i)) else keyed s j b)" if "j < NBUF" for j
      using nth [of j] that dev by (auto simp: keyed_def)
    then show ?thesis using that uniq D(4) [of j k b] by metis
  qed
  ultimately show ?thesis using H(1) unfolding cache_ok_def by blast
qed


subsection \<open>Specifications of the operations\<close>

lemma upd_buf_twice: "i < length (bs_buf s) \<Longrightarrow> upd_buf i f (upd_buf i g s) = upd_buf i (\<lambda>b. f (g b)) s"
  by (simp add: upd_buf_def)

lemma more_upd_buf [simp]: "bstate.more (upd_buf i f s) = bstate.more s"
  by (simp add: upd_buf_def)

lemma find_SomeD: "find P xs = Some i \<Longrightarrow> P i \<and> i \<in> set xs"
  by (auto simp: find_Some_iff)

lemma scan_mru:
  assumes "mru_ok s xs"
  shows "scan (nxt s) P (nxt s NBUF) = Some (find P xs)" "scan (prv s) P (prv s NBUF) = Some (find P (rev xs))"
  using mru_okD(2,4) [OF assms] scan_next [of "nxt s" "prv s" NBUF xs P] scan_prev [of "nxt s" "prv s" xs NBUF P]
  by simp_all

abbreviation took :: "'z bstate_scheme \<Rightarrow> sleeplock" where
  "took s \<equiv> \<lparr>sl_locked = True, sl_pid = bs_pid s\<rparr>"

lemma calm_sameI:
  assumes "cache_ok s H" "cache_ok s' H'" "bs_disk s' = bs_disk s" "bs_writes s' = bs_writes s"
    "bs_disksize s' = bs_disksize s" "bs_pid s' = bs_pid s" "bstate.more s' = bstate.more s"
    and same: "\<And>j. j < NBUF \<Longrightarrow> b_dev (bufof s' j) = b_dev (bufof s j) \<and> b_blockno (bufof s' j) = b_blockno (bufof s j)
      \<and> b_data (bufof s' j) = b_data (bufof s j) \<and> b_dirty (bufof s' j) = b_dirty (bufof s j)"
  shows "calm s s'"
proof -
  have k: "keyed s' j b = keyed s j b" if "j < NBUF" for j b using same [OF that] by (simp add: keyed_def)
  have "content s' b = content s b" for b
    using k same assms(3) content_keyed [OF assms(1)] content_uncached [OF assms(1)]
    by (intro content_eqI [OF assms(1,2)]) simp_all
  moreover have "dirty_blocks s' = dirty_blocks s" unfolding dirty_blocks_def using k same by metis
  ultimately show ?thesis using assms by (auto simp: calm_def)
qed

lemma bget_hit:
  assumes ok: "cache_ok s H" and i: "i < NBUF" "i \<notin> H" "keyed s i b"
  defines "s' \<equiv> upd_buf i (\<lambda>x. x\<lparr>b_refcnt := b_refcnt x + 1, b_lock := took s\<rparr>) s"
  shows "bget 1 b s = Ok i s'" "cache_ok s' (insert i H)" "calm s s'"
proof -
  note D = cache_okD [OF ok]
  obtain xs where xs: "mru_ok s xs" using ok by (auto simp: cache_ok_def)
  let ?P = "\<lambda>i. b_dev (bufof s i) = 1 \<and> b_blockno (bufof s i) = b"
  have "find ?P xs = Some i"
  proof (cases "find ?P xs")
    case None
    then show ?thesis using i mru_okD(4) [OF xs] by (auto simp: find_None_iff keyed_def)
  next
    case (Some j)
    from find_SomeD [OF this] mru_okD(4) [OF xs] have "j < NBUF" "keyed s j b" by (auto simp: keyed_def)
    then show ?thesis using D(4) [of i j b] i Some by simp
  qed
  moreover have bi: "\<not> sl_locked (b_lock (bufof s i))" "b_refcnt (bufof s i) = 0" "b_dev (bufof s i) = 1"
      "b_valid (bufof s i)" "b_blockno (bufof s i) < bs_disksize s"
    using D(3) [OF i(1)] i by (auto simp: buf_ok_def Let_def keyed_def)
  ultimately show "bget 1 b s = Ok i s'"
    using D(1) i(1) scan_mru(1) [OF xs, of ?P]
    by (simp add: bget_def bget_lock_def acquiresleep_b_def upd_buf_twice s'_def)
  have nth: "bufof s' j = (if j = i then (bufof s i)\<lparr>b_refcnt := 1, b_lock := took s\<rparr> else bufof s j)" if "j < NBUF" for j
    using that D(1) bi(2) by (simp add: s'_def)
  show ok': "cache_ok s' (insert i H)"
  proof (rule cache_ok_upd [OF ok i(1), where f = "\<lambda>x. x\<lparr>b_refcnt := b_refcnt x + 1, b_lock := took s\<rparr>"])
    show "\<not> keyed s j (b_blockno ((bufof s i)\<lparr>b_refcnt := b_refcnt (bufof s i) + 1, b_lock := took s\<rparr>))"
      if "j < NBUF" "j \<noteq> i" for j
      using D(4) [OF that(1) i(1)] that(2) i(3) by (auto simp: keyed_def)
    show "buf_ok s' (insert i H) i" using nth [OF i(1)] bi by (simp add: buf_ok_def Let_def s'_def)
  qed (use D(2) i bi in \<open>auto simp: s'_def\<close>)
  show "calm s s'" using nth by (intro calm_sameI [OF ok ok']) (auto simp: s'_def)
qed


lemma bread_hit:
  assumes ok: "cache_ok s H" and i: "i < NBUF" "i \<notin> H" "keyed s i b"
  shows "\<exists>s'. bread 1 b s = Ok i s' \<and> cache_ok s' (insert i H) \<and> calm s s' \<and> keyed s' i b
    \<and> (\<forall>j<NBUF. b_data (bufof s' j) = b_data (bufof s j) \<and> (j \<noteq> i \<longrightarrow> bufof s' j = bufof s j))"
proof -
  have "b_valid (bufof s i)" using cache_okD(3) [OF ok i(1)] i(3) by (auto simp: buf_ok_def Let_def keyed_def)
  then show ?thesis
    using bget_hit [OF ok i] cache_okD(1) [OF ok] i(1,3) by (simp add: bread_def keyed_def)
qed

lemma bread_miss:
  assumes ok: "cache_ok s H" and b: "b < bs_disksize s" "\<forall>i<NBUF. \<not> keyed s i b"
    and free: "\<exists>i<NBUF. i \<notin> H \<and> \<not> b_dirty (bufof s i)"
  shows "\<exists>i s'. bread 1 b s = Ok i s' \<and> i < NBUF \<and> i \<notin> H \<and> cache_ok s' (insert i H) \<and> calm s s' \<and> keyed s' i b
    \<and> b_data (bufof s' i) = bs_disk s b \<and> (\<forall>j<NBUF. j \<noteq> i \<longrightarrow> bufof s' j = bufof s j)"
proof -
  note D = cache_okD [OF ok]
  obtain xs where xs: "mru_ok s xs" using ok by (auto simp: cache_ok_def)
  let ?P = "\<lambda>i. b_dev (bufof s i) = 1 \<and> b_blockno (bufof s i) = b"
  let ?Q = "\<lambda>i. b_refcnt (bufof s i) = 0 \<and> \<not> b_dirty (bufof s i)"
  have P: "find ?P xs = None" using b(2) mru_okD(4) [OF xs] by (auto simp: find_None_iff keyed_def)
  obtain i0 where i0: "i0 < NBUF" "i0 \<notin> H" "\<not> b_dirty (bufof s i0)" using free by blast
  then have "?Q i0" using D(3) [of i0] by (simp add: buf_ok_def Let_def)
  then have "find ?Q (rev xs) \<noteq> None" using i0(1) mru_okD(4) [OF xs] by (auto simp: find_None_iff)
  then obtain i where f: "find ?Q (rev xs) = Some i" by blast
  from find_SomeD [OF this] mru_okD(4) [OF xs] have i: "i < NBUF" "?Q i" by auto
  have bi: "i \<notin> H" "\<not> sl_locked (b_lock (bufof s i))"
      "b_dev (bufof s i) = 1 \<Longrightarrow> b_data (bufof s i) = bs_disk s (b_blockno (bufof s i))"
    using D(3) [OF i(1)] i(2) by (auto simp: buf_ok_def Let_def split: if_splits)
  let ?f = "\<lambda>x. x\<lparr>b_dev := 1, b_blockno := b, b_dirty := False, b_refcnt := 1, b_lock := took s,
    b_data := bs_disk s b, b_valid := True\<rparr>"
  let ?s' = "upd_buf i ?f s"
  have nle: "\<not> bs_disksize s \<le> b" using b(1) by simp
  have run: "bread 1 b s = Ok i ?s'"
    using D(1) i(1) bi(2) nle P f scan_mru(1) [OF xs, of ?P] scan_mru(2) [OF xs, of ?Q]
    by (simp add: bread_def bget_def bget_lock_def acquiresleep_b_def iderw_def holdingsleep_b_def Let_def upd_buf_twice)
  have nth: "bufof ?s' j = (if j = i then ?f (bufof s i) else bufof s j)" if "j < NBUF" for j
    using that D(1) by simp
  have ok': "cache_ok ?s' (insert i H)"
  proof (rule cache_ok_upd [OF ok i(1), where f = ?f])
    show "buf_ok ?s' (insert i H) i" using nth [OF i(1)] b(1) by (simp add: buf_ok_def Let_def)
  qed (use D(2) i b(2) in auto)
  have k: "keyed ?s' j c = (if j = i then c = b else keyed s j c)" if "j < NBUF" for j c
    using nth [OF that] by (auto simp: keyed_def)
  have "content ?s' c = content s c" for c
  proof (rule content_eqI [OF ok ok'])
    fix j assume j: "j < NBUF" "keyed ?s' j c"
    then show "content s c = b_data (bufof ?s' j)"
      using nth [OF j(1)] k [OF j(1)] content_uncached [OF ok b(2)] content_keyed [OF ok j(1), of c]
      by (auto split: if_splits)
  next
    assume none: "\<forall>j<NBUF. \<not> keyed ?s' j c"
    show "content s c = bs_disk ?s' c"
    proof (cases "keyed s i c")
      case True
      then show ?thesis using content_keyed [OF ok i(1) True] bi(3) by (auto simp: keyed_def)
    next
      case False
      have "\<not> keyed s j c" if "j < NBUF" for j
        using none k [OF that, of c] that False by (cases "j = i") auto
      then have "\<forall>j<NBUF. \<not> keyed s j c" by blast
      then show ?thesis using content_uncached [OF ok] by simp
    qed
  qed
  moreover have "dirty_blocks ?s' = dirty_blocks s"
  proof (intro set_eqI)
    fix c
    have "keyed ?s' j c \<and> b_dirty (bufof ?s' j) \<longleftrightarrow> keyed s j c \<and> b_dirty (bufof s j)" if "j < NBUF" for j
      using k [OF that, of c] nth [OF that] i(2) by simp
    then show "c \<in> dirty_blocks ?s' \<longleftrightarrow> c \<in> dirty_blocks s" unfolding dirty_blocks_def by blast
  qed
  ultimately have "calm s ?s'" by (auto simp: calm_def)
  then show ?thesis using run ok' bi(1) i(1) k [OF i(1), of b] nth by auto
qed


lemma bread_spec:
  assumes ok: "cache_ok s H" and b: "b < bs_disksize s" "\<forall>i\<in>H. \<not> keyed s i b"
    and free: "(\<exists>i<NBUF. keyed s i b) \<or> (\<exists>i<NBUF. i \<notin> H \<and> \<not> b_dirty (bufof s i))"
  shows "\<exists>i s'. bread 1 b s = Ok i s' \<and> i < NBUF \<and> i \<notin> H \<and> cache_ok s' (insert i H) \<and> calm s s' \<and> keyed s' i b
    \<and> b_data (bufof s' i) = content s b \<and> (\<forall>j\<in>H. bufof s' j = bufof s j)"
proof (cases "\<exists>i<NBUF. keyed s i b")
  case True
  then obtain i where i: "i < NBUF" "keyed s i b" by blast
  with b(2) have nH: "i \<notin> H" by blast
  then have "\<forall>j\<in>H. j \<noteq> i \<and> j < NBUF" using cache_okD(2) [OF ok] by auto
  then show ?thesis
    using bread_hit [OF ok i(1) nH i(2)] i nH content_keyed [OF ok i] by (metis (no_types, lifting))
next
  case False
  then have n: "\<forall>i<NBUF. \<not> keyed s i b" by blast
  from bread_miss [OF ok b(1) this] free False obtain i s' where
    r: "bread 1 b s = Ok i s'" "i < NBUF" "i \<notin> H" "cache_ok s' (insert i H)" "calm s s'" "keyed s' i b"
      "b_data (bufof s' i) = bs_disk s b" "\<forall>j<NBUF. j \<noteq> i \<longrightarrow> bufof s' j = bufof s j" by blast
  have "bufof s' j = bufof s j" if "j \<in> H" for j
    using that r(3,8) cache_okD(2) [OF ok] by auto
  then show ?thesis using r(1-7) content_uncached [OF ok n] by auto
qed

text \<open>Changing a held buffer, and possibly the disk block behind it.\<close>

lemma held_upd:
  assumes ok: "cache_ok s H" and i: "i \<in> H"
    and f: "b_prev (f (bufof s i)) = b_prev (bufof s i)" "b_next (f (bufof s i)) = b_next (bufof s i)"
      "b_dev (f (bufof s i)) = b_dev (bufof s i)" "b_blockno (f (bufof s i)) = b_blockno (bufof s i)"
      "b_lock (f (bufof s i)) = b_lock (bufof s i)" "b_refcnt (f (bufof s i)) = b_refcnt (bufof s i)"
      "b_valid (f (bufof s i))"
    and s': "bs_buf s' = bs_buf (upd_buf i f s)" "bs_disksize s' = bs_disksize s" "bs_pid s' = bs_pid s"
    and disk: "\<And>b. bs_disk s' b = bs_disk s b \<or> b = b_blockno (bufof s i)"
  shows "cache_ok s' H" "content s' = (content s)(b_blockno (bufof s i) := b_data (f (bufof s i)))"
    "dirty_blocks s' = (if b_dirty (f (bufof s i)) then insert (b_blockno (bufof s i)) (dirty_blocks s)
       else dirty_blocks s - {b_blockno (bufof s i)})"
    "j < NBUF \<Longrightarrow> keyed s' j b = keyed s j b"
    "j < NBUF \<Longrightarrow> bufof s' j = (if j = i then f (bufof s i) else bufof s j)"
proof -
  note D = cache_okD [OF ok]
  let ?b = "b_blockno (bufof s i)"
  have i': "i < NBUF" using i D(2) by auto
  have bi: "buf_ok s H i" "keyed s i ?b" using D(3) [OF i'] i by (auto simp: buf_ok_def Let_def keyed_def)
  show nth: "bufof s' j = (if j = i then f (bufof s i) else bufof s j)" if "j < NBUF" for j
    using that D(1) by (simp add: s'(1))
  show k: "keyed s' j b = keyed s j b" if "j < NBUF" for j b
    using nth [OF that] f by (simp add: keyed_def)
  have other: "\<not> keyed s j ?b" if "j < NBUF" "j \<noteq> i" for j using D(4) [OF that(1) i' _ bi(2)] that(2) by auto
  show ok': "cache_ok s' H"
  proof (rule cache_ok_upd [OF ok i', where f = f])
    show "buf_ok s' H i" using bi i nth [OF i'] f s' by (auto simp: buf_ok_def Let_def)
  qed (use D(2) bi i s' f disk other in \<open>auto simp: keyed_def\<close>)
  show "content s' = (content s)(?b := b_data (f (bufof s i)))"
  proof
    fix b
    consider "b = ?b" | j where "j < NBUF" "keyed s j b" "b \<noteq> ?b" | "\<forall>j<NBUF. \<not> keyed s j b" "b \<noteq> ?b" by blast
    then show "content s' b = ((content s)(?b := b_data (f (bufof s i)))) b"
    proof cases
      case 1
      then show ?thesis using content_keyed [OF ok' i'] k [OF i'] bi(2) nth [OF i'] by simp
    next
      case 2
      then have "j \<noteq> i" using bi(2) by (auto simp: keyed_def)
      with 2 show ?thesis using content_keyed [OF ok' 2(1)] content_keyed [OF ok 2(1)] k nth by simp
    next
      case 3
      then show ?thesis using content_uncached [OF ok] content_uncached [OF ok'] k disk [of b] by simp
    qed
  qed
  have "b \<in> dirty_blocks s' \<longleftrightarrow> (if b = ?b then b_dirty (f (bufof s i)) else b \<in> dirty_blocks s)" for b
  proof (cases "b = ?b")
    case True
    have "b \<in> dirty_blocks s' \<longleftrightarrow> (\<exists>j<NBUF. keyed s j b \<and> b_dirty (bufof s' j))"
      unfolding dirty_blocks_def using k by auto
    also have "\<dots> \<longleftrightarrow> b_dirty (bufof s' i)" using other i' bi(2) True by metis
    finally show ?thesis using nth [OF i'] True by simp
  next
    case False
    then have "b_dirty (bufof s' j) = b_dirty (bufof s j)" if "j < NBUF" "keyed s j b" for j
      using nth [OF that(1)] that bi(2) by (auto simp: keyed_def)
    then show ?thesis unfolding dirty_blocks_def using k False by auto
  qed
  then show "dirty_blocks s' = (if b_dirty (f (bufof s i)) then insert ?b (dirty_blocks s) else dirty_blocks s - {?b})"
    by (intro set_eqI) auto
qed


lemma bwrite_spec:
  assumes ok: "cache_ok s H" and i: "i \<in> H"
  shows "\<exists>s'. bwrite i s = Ok () s' \<and> cache_ok s' H \<and> content s' = content s
    \<and> bs_disk s' = (bs_disk s)(b_blockno (bufof s i) := b_data (bufof s i))
    \<and> bs_writes s' = bs_writes s @ [(b_blockno (bufof s i), b_data (bufof s i))]
    \<and> dirty_blocks s' = dirty_blocks s - {b_blockno (bufof s i)}
    \<and> bs_disksize s' = bs_disksize s \<and> bs_pid s' = bs_pid s \<and> bstate.more s' = bstate.more s
    \<and> (\<forall>j\<in>H. bufof s' j = (if j = i then (bufof s i)\<lparr>b_dirty := False\<rparr> else bufof s j))"
proof -
  note D = cache_okD [OF ok]
  have i': "i < NBUF" "i < length (bs_buf s)" using i D(1,2) by auto
  have bi: "keyed s i (b_blockno (bufof s i))" "b_valid (bufof s i)" "holdingsleep_b i s" "b_dev (bufof s i) = 1"
      "\<not> bs_disksize s \<le> b_blockno (bufof s i)"
    using D(3) [OF i'(1)] i by (auto simp: buf_ok_def Let_def keyed_def holdingsleep_b_def)
  let ?f = "\<lambda>b. b\<lparr>b_dirty := False, b_valid := True\<rparr>"
  let ?s' = "(upd_buf i ?f s)\<lparr>bs_disk := (bs_disk s)(b_blockno (bufof s i) := b_data (bufof s i)),
    bs_writes := bs_writes s @ [(b_blockno (bufof s i), b_data (bufof s i))]\<rparr>"
  have run: "bwrite i s = Ok () ?s'"
    using bi i' by (simp add: bwrite_def iderw_def holdingsleep_b_def Let_def upd_buf_twice)
  have u: "cache_ok ?s' H" "content ?s' = (content s)(b_blockno (bufof s i) := b_data (bufof s i))"
      "dirty_blocks ?s' = dirty_blocks s - {b_blockno (bufof s i)}"
      "\<And>j. j < NBUF \<Longrightarrow> bufof ?s' j = (if j = i then ?f (bufof s i) else bufof s j)"
    using held_upd [OF ok i, of ?f ?s'] by simp_all
  have "(content s)(b_blockno (bufof s i) := b_data (bufof s i)) = content s"
    unfolding content_keyed [OF ok i'(1) bi(1), symmetric] by (rule fun_upd_triv)
  with u(2) have "content ?s' = content s" by (rule trans)
  moreover have "?f (bufof s i) = (bufof s i)\<lparr>b_dirty := False\<rparr>" using bi(2) by simp
  moreover have "j < NBUF" if "j \<in> H" for j using that D(2) by auto
  ultimately show ?thesis using run u(1,3,4) by auto
qed

lemma same_core_ok:
  assumes c: "same_core s s'" and m: "mru_ok s' xs" and ok: "cache_ok s H"
  shows "cache_ok s' H" "calm s s'"
proof -
  have len: "length (bs_buf s) = Suc NBUF" by (rule cache_okD(1) [OF ok])
  have core: "core (bufof s' j) = core (bufof s j)" if "j < NBUF" for j using c that len by (simp add: same_core_def)
  have fields: "b_valid (bufof s' j) = b_valid (bufof s j)" "b_dirty (bufof s' j) = b_dirty (bufof s j)"
      "b_dev (bufof s' j) = b_dev (bufof s j)" "b_blockno (bufof s' j) = b_blockno (bufof s j)"
      "b_lock (bufof s' j) = b_lock (bufof s j)" "b_refcnt (bufof s' j) = b_refcnt (bufof s j)"
      "b_data (bufof s' j) = b_data (bufof s j)" if "j < NBUF" for j
    using arg_cong [OF core [OF that], of b_valid] arg_cong [OF core [OF that], of b_dirty]
      arg_cong [OF core [OF that], of b_dev] arg_cong [OF core [OF that], of b_blockno]
      arg_cong [OF core [OF that], of b_lock] arg_cong [OF core [OF that], of b_refcnt]
      arg_cong [OF core [OF that], of b_data] by (simp_all add: core_def)
  have g: "bs_disk s' = bs_disk s" "bs_disksize s' = bs_disksize s" "bs_pid s' = bs_pid s"
      "bs_writes s' = bs_writes s" "bstate.more s' = bstate.more s" using c by (simp_all add: same_core_def)
  have k: "keyed s' j b = keyed s j b" if "j < NBUF" for j b using fields [OF that] by (simp add: keyed_def)
  show ok': "cache_ok s' H"
    unfolding cache_ok_def
  proof (intro conjI allI impI)
    show "\<exists>xs. mru_ok s' xs" using m by blast
    show "H \<subseteq> {..<NBUF}" by (rule cache_okD(2) [OF ok])
    show "buf_ok s' H j" if "j < NBUF" for j
      using cache_okD(3) [OF ok that] fields [OF that] g by (simp add: buf_ok_def Let_def)
    show "j = l" if "j < NBUF" "l < NBUF" "keyed s' j b" "keyed s' l b" for j l b
      using cache_okD(4) [OF ok that(1,2)] that k by simp
  qed
  show "calm s s'" using fields g by (intro calm_sameI [OF ok ok']) simp_all
qed

lemma brelse_spec:
  assumes ok: "cache_ok s H" and i: "i \<in> H"
    and clean: "b_dirty (bufof s i) \<or> b_data (bufof s i) = bs_disk s (b_blockno (bufof s i))"
  shows "\<exists>s'. brelse i s = Ok () s' \<and> cache_ok s' (H - {i}) \<and> calm s s'
    \<and> (\<forall>j\<in>H - {i}. core (bufof s' j) = core (bufof s j))"
proof -
  note D = cache_okD [OF ok]
  have i': "i < NBUF" "i < length (bs_buf s)" using i D(1,2) by auto
  have bi: "buf_ok s H i" "b_dev (bufof s i) = 1" "b_refcnt (bufof s i) = 1" "holdingsleep_b i s"
    using D(3) [OF i'(1)] i by (auto simp: buf_ok_def Let_def keyed_def holdingsleep_b_def)
  let ?f = "\<lambda>b. b\<lparr>b_lock := \<lparr>sl_locked = False, sl_pid = 0\<rparr>, b_refcnt := b_refcnt b - 1\<rparr>"
  let ?s1 = "upd_buf i (\<lambda>b. b\<lparr>b_refcnt := b_refcnt b - 1\<rparr>) (releasesleep_b i s)"
  have buf1: "bs_buf ?s1 = bs_buf (upd_buf i ?f s)" using i' by (simp add: releasesleep_b_def upd_buf_def)
  have g1: "bs_disk ?s1 = bs_disk s" "bs_disksize ?s1 = bs_disksize s" "bs_pid ?s1 = bs_pid s"
      "bs_writes ?s1 = bs_writes s" "bstate.more ?s1 = bstate.more s" by (simp_all add: releasesleep_b_def)
  have nth: "bufof ?s1 j = (if j = i then ?f (bufof s i) else bufof s j)" if "j < NBUF" for j
    using that D(1) by (simp only: buf1) simp
  have ok1: "cache_ok ?s1 (H - {i})"
  proof (rule cache_ok_upd [OF ok i'(1), where f = ?f])
    show "\<not> keyed s j (b_blockno (?f (bufof s i)))" if "j < NBUF" "j \<noteq> i" for j
      using D(4) [OF that(1) i'(1), of "b_blockno (bufof s i)"] that(2) bi(2) by (auto simp: keyed_def)
    show "buf_ok ?s1 (H - {i}) i" using bi nth [OF i'(1)] g1 clean by (auto simp: buf_ok_def Let_def)
  qed (use D(2) bi buf1 g1 in auto)
  have c1: "calm s ?s1" using nth g1 by (intro calm_sameI [OF ok ok1]) auto
  obtain xs where "mru_ok ?s1 xs" using ok1 by (auto simp: cache_ok_def)
  then have m: "mru_ok (link_front i (unlink i ?s1)) (i # remove1 i xs)" by (rule mru_move_front [OF _ i'(1)])
  have sc: "same_core ?s1 (link_front i (unlink i ?s1))"
    by (rule same_core_trans [OF same_core_unlink same_core_link_front])
  have run: "brelse i s = Ok () (link_front i (unlink i ?s1))"
    using bi(3,4) nth [OF i'(1)] by (simp add: brelse_def Let_def)
  have "core (bufof (link_front i (unlink i ?s1)) j) = core (bufof s j)" if "j \<in> H - {i}" for j
  proof -
    have "j < NBUF" "j \<noteq> i" using that D(2) by auto
    then show ?thesis using sc nth [of j] cache_okD(1) [OF ok1] by (simp add: same_core_def)
  qed
  then show ?thesis using run same_core_ok [OF sc m ok1] calm_trans [OF c1] by blast
qed


subsection \<open>Initialisation\<close>

definition zero_buf :: buf where
  "zero_buf = \<lparr>b_valid = False, b_dirty = False, b_dev = 0, b_blockno = 0,
     b_lock = \<lparr>sl_locked = False, sl_pid = 0\<rparr>, b_refcnt = 0, b_prev = 0, b_next = 0, b_data = replicate BSIZE 0\<rparr>"

lemma binit_loop_linked:
  assumes "length (bs_buf s) = Suc NBUF" "nxt s NBUF = NBUF" "prv s NBUF = NBUF" "n \<le> NBUF"
    and "\<forall>j<Suc NBUF. core (bufof s j) = zero_buf"
  shows "length (bs_buf (binit_loop n s)) = Suc NBUF
    \<and> linked (nxt (binit_loop n s)) (prv (binit_loop n s)) (NBUF # rev [0..<n] @ [NBUF])
    \<and> same_core s (binit_loop n s)"
  using assms(4)
proof (induction n)
  case 0
  then show ?case using assms by (simp add: same_core_refl)
next
  case (Suc n)
  let ?s = "binit_loop n s"
  let ?s1 = "upd_buf n (\<lambda>b. b\<lparr>b_lock := initsleeplock\<rparr>) ?s"
  have IH: "length (bs_buf ?s) = Suc NBUF" "linked (nxt ?s) (prv ?s) (NBUF # rev [0..<n] @ [NBUF])" "same_core s ?s"
    using Suc by auto
  have c: "core (bufof ?s n) = zero_buf" using IH(3) Suc.prems assms(1,5) by (simp add: same_core_def)
  have l: "b_lock (bufof ?s n) = initsleeplock"
    using arg_cong [OF c, of b_lock] by (simp add: core_def zero_buf_def initsleeplock_def)
  have s1: "?s1 = ?s" unfolding upd_buf_def l [symmetric] by simp
  have "linked (nxt (link_front n ?s)) (prv (link_front n ?s)) (NBUF # n # rev [0..<n] @ [NBUF])"
    using IH Suc.prems by (intro mru_link_front) auto
  moreover have "same_core s (link_front n ?s)" by (rule same_core_trans [OF IH(3) same_core_link_front])
  ultimately show ?case using assms(1) by (simp add: Let_def s1 same_core_def)
qed

lemma more_binit: "bstate.more (binit s) = bstate.more s"
proof -
  have "bstate.more (binit_loop n s) = bstate.more s" for n and s :: "'a bstate_scheme"
    by (induction n) (simp_all add: link_front_def Let_def)
  then show ?thesis by (simp add: binit_def)
qed

lemma binit_ok:
  assumes "bs_buf s = replicate (Suc NBUF) zero_buf"
  shows "cache_ok (binit s) {}" "content (binit s) = bs_disk s" "dirty_blocks (binit s) = {}"
    "bs_disk (binit s) = bs_disk s" "bs_disksize (binit s) = bs_disksize s"
proof -
  let ?s = "upd_buf NBUF (\<lambda>b. b\<lparr>b_prev := NBUF, b_next := NBUF\<rparr>) s"
  have nth: "bufof s j = zero_buf" if "j < Suc NBUF" for j using assms that by (simp del: replicate_Suc)
  have len: "length (bs_buf s) = Suc NBUF" by (simp add: assms)
  have z: "\<forall>j<Suc NBUF. core (bufof ?s j) = zero_buf"
    using nth len by (auto simp: core_def zero_buf_def)
  have b: "linked (nxt (binit s)) (prv (binit s)) (NBUF # rev [0..<NBUF] @ [NBUF])" "same_core ?s (binit s)"
    using binit_loop_linked [of ?s NBUF] len z by (simp_all add: binit_def)
  have "mru_ok (binit s) (rev [0..<NBUF])"
    using b len by (simp add: mru_ok_def same_core_def atLeast0LessThan)
  moreover have core: "core (bufof (binit s) j) = zero_buf" if "j < NBUF" for j
    using b(2) z len that by (simp add: same_core_def)
  have f: "b_dev (bufof (binit s) j) = 0" "\<not> sl_locked (b_lock (bufof (binit s) j))"
      "b_refcnt (bufof (binit s) j) = 0" "\<not> b_dirty (bufof (binit s) j)" if "j < NBUF" for j
    using arg_cong [OF core [OF that], of b_dev] arg_cong [OF core [OF that], of b_lock]
      arg_cong [OF core [OF that], of b_refcnt] arg_cong [OF core [OF that], of b_dirty]
    by (simp_all add: core_def zero_buf_def)
  then have k: "\<not> keyed (binit s) j b" if "j < NBUF" for j b using that by (simp add: keyed_def)
  ultimately show ok: "cache_ok (binit s) {}"
    unfolding cache_ok_def using f k by (auto simp: buf_ok_def Let_def)
  show d: "bs_disk (binit s) = bs_disk s" "bs_disksize (binit s) = bs_disksize s"
    using b(2) by (simp_all add: same_core_def)
  show "content (binit s) = bs_disk s" using content_uncached [OF ok] k d by (intro ext) simp
  show "dirty_blocks (binit s) = {}" using k by (auto simp: dirty_blocks_def)
qed


subsection \<open>Properties\<close>

lemma set_data_spec:
  assumes "cache_ok s H" "i \<in> H"
  shows "cache_ok (upd_buf i (\<lambda>b. b\<lparr>b_data := d\<rparr>) s) H"
    "content (upd_buf i (\<lambda>b. b\<lparr>b_data := d\<rparr>) s) = (content s)(b_blockno (bufof s i) := d)"
    "dirty_blocks (upd_buf i (\<lambda>b. b\<lparr>b_data := d\<rparr>) s) = dirty_blocks s"
proof -
  let ?f = "\<lambda>b. b\<lparr>b_data := d\<rparr>"
  have i: "i < NBUF" using assms cache_okD(2) by blast
  have v: "b_valid (bufof s i)" "keyed s i (b_blockno (bufof s i))"
    using cache_okD(3) [OF assms(1) i] assms(2) by (auto simp: buf_ok_def Let_def keyed_def)
  note u = held_upd [OF assms, of ?f "upd_buf i ?f s"]
  show "cache_ok (upd_buf i ?f s) H" "content (upd_buf i ?f s) = (content s)(b_blockno (bufof s i) := d)"
    using u(1,2) v(1) by simp_all
  have "b_dirty (bufof s i) \<longleftrightarrow> b_blockno (bufof s i) \<in> dirty_blocks s"
    using i v(2) cache_okD(4) [OF assms(1) i _ v(2)] by (auto simp: dirty_blocks_def)
  then show "dirty_blocks (upd_buf i ?f s) = dirty_blocks s" using u(3) v(1) by auto
qed

text \<open>
  Claim C7. The cache is coherent. With no buffer held, \<^verbatim>\<open>bread\<close> of a block that is cached or for which a
  buffer can be recycled returns the block's contents; after the data has been replaced, \<^verbatim>\<open>bwrite\<close>
  and \<^verbatim>\<open>brelse\<close> leave a cache in which every reader of that block, and the disk, has the new data,
  and every other block what it had.
\<close>

theorem buffer_cache_coherent:
  assumes "cache_ok s {}" and "b < bs_disksize s"
    and "(\<exists>i<NBUF. keyed s i b) \<or> (\<exists>i<NBUF. \<not> b_dirty (bufof s i))"
  shows "\<exists>i s1 s2 s3. bread 1 b s = Ok i s1 \<and> b_data (bufof s1 i) = content s b
    \<and> bwrite i (upd_buf i (\<lambda>x. x\<lparr>b_data := d\<rparr>) s1) = Ok () s2 \<and> brelse i s2 = Ok () s3
    \<and> cache_ok s3 {} \<and> content s3 = (content s)(b := d) \<and> bs_disk s3 = (bs_disk s)(b := d)"
proof -
  obtain i s1 where s1: "bread 1 b s = Ok i s1" "i < NBUF" "cache_ok s1 {i}" "calm s s1" "keyed s1 i b"
      "b_data (bufof s1 i) = content s b"
    using bread_spec [OF assms(1,2)] assms(3) by auto
  let ?s = "upd_buf i (\<lambda>x. x\<lparr>b_data := d\<rparr>) s1"
  have s: "cache_ok ?s {i}" "content ?s = (content s1)(b := d)"
    using set_data_spec(1,2) [OF s1(3), of i d] s1(5) by (simp_all add: keyed_def)
  have len: "i < length (bs_buf s1)" using cache_okD(1) [OF s1(3)] s1(2) by simp
  have bi: "bufof ?s i = (bufof s1 i)\<lparr>b_data := d\<rparr>" using len by simp
  obtain s2 where s2: "bwrite i ?s = Ok () s2" "cache_ok s2 {i}" "content s2 = content ?s"
      "bs_disk s2 = (bs_disk ?s)(b_blockno (bufof ?s i) := b_data (bufof ?s i))"
      "bufof s2 i = (bufof ?s i)\<lparr>b_dirty := False\<rparr>"
    using bwrite_spec [OF s(1), of i] by auto
  have "b_data (bufof s2 i) = bs_disk s2 (b_blockno (bufof s2 i))" by (simp add: s2(4,5))
  then obtain s3 where s3: "brelse i s2 = Ok () s3" "cache_ok s3 {}" "calm s2 s3"
    using brelse_spec [OF s2(2), of i] by auto
  have "b_blockno (bufof ?s i) = b" using bi s1(5) by (simp add: keyed_def)
  then show ?thesis
    using s1(1,4,6) s2(1,3,4) s3 s(2) bi by (intro exI [of _ i] exI [of _ s1] exI [of _ s2] exI [of _ s3]) (auto simp: calm_def)
qed

definition demo_bs :: bstate where
  "demo_bs = binit \<lparr>bs_buf = replicate (Suc NBUF) zero_buf, bs_disk = (\<lambda>b. replicate BSIZE (ucast b)),
     bs_disksize = 1000, bs_pid = 3, bs_woken = [], bs_writes = []\<rparr>"

lemma demo_bs_ok:
  "cache_ok demo_bs {}" "content demo_bs = (\<lambda>b. replicate BSIZE (ucast b))" "dirty_blocks demo_bs = {}"
  "bs_disk demo_bs = (\<lambda>b. replicate BSIZE (ucast b))" "bs_disksize demo_bs = 1000"
  unfolding demo_bs_def by (rule binit_ok | simp add: binit_ok del: replicate_Suc)+

lemma not_dirty_free:
  assumes "cache_ok s H" "i < NBUF" "b_dirty (bufof s i)"
  shows "b_blockno (bufof s i) \<in> dirty_blocks s"
  using cache_okD(3) [OF assms(1,2)] assms(2,3)
  by (auto simp: dirty_blocks_def keyed_def buf_ok_def Let_def split: if_splits)

theorem buffer_cache_coherent_witness:
  "\<exists>i s1 s2 s3. bread 1 7 demo_bs = Ok i s1 \<and> b_data (bufof s1 i) = replicate BSIZE 7
    \<and> bwrite i (upd_buf i (\<lambda>x. x\<lparr>b_data := replicate BSIZE 9\<rparr>) s1) = Ok () s2 \<and> brelse i s2 = Ok () s3
    \<and> content s3 7 = replicate BSIZE 9 \<and> content s3 8 = replicate BSIZE 8"
proof -
  have "\<not> b_dirty (bufof demo_bs 0)"
    using not_dirty_free [OF demo_bs_ok(1), of 0] demo_bs_ok(3) by (auto simp: NBUF_def)
  then have "\<exists>i<NBUF. \<not> b_dirty (bufof demo_bs i)" by (intro exI [of _ 0]) (simp add: NBUF_def)
  moreover have "(7::uint) < bs_disksize demo_bs" by (simp add: demo_bs_ok)
  ultimately show ?thesis
    using buffer_cache_coherent [OF demo_bs_ok(1), of 7 "replicate BSIZE 9"] by (auto simp: demo_bs_ok(2))
qed

end
