(* ===== verification/Log.thy ===== *)
theory Log
  imports Bio
begin

text \<open>
  The write-ahead log of \<^verbatim>\<open>log.c\<close>, with \<^verbatim>\<open>readsb\<close> of \<^verbatim>\<open>fs.c\<close>, on top of the buffer cache.

  The header block of the log and the super block are read and written byte by byte as the code's
  casts do. The critical sections of \<^verbatim>\<open>log.lock\<close> are single steps. A disk block is written as a whole:
  a crash may happen between two block writes, not inside one.
\<close>

subsection \<open>Words in a block\<close>

definition get_word :: "nat \<Rightarrow> byte list \<Rightarrow> uint" where
  "get_word i d = of_le (take 4 (drop (4 * i) d))"

definition put_word :: "nat \<Rightarrow> uint \<Rightarrow> byte list \<Rightarrow> byte list" where
  "put_word i w d = take (4 * i) d @ le_bytes w @ drop (4 * i + 4) d"

lemma length_put_word [simp]: "4 * i + 4 \<le> length d \<Longrightarrow> length (put_word i w d) = length d"
  by (simp add: put_word_def)

lemma get_put_word_same [simp]: "4 * i + 4 \<le> length d \<Longrightarrow> get_word i (put_word i w d) = w"
  by (simp add: get_word_def put_word_def)

lemma get_put_word_other [simp]:
  assumes "4 * i + 4 \<le> length d" "j \<noteq> i"
  shows "get_word j (put_word i w d) = get_word j d"
proof (cases "j < i")
  case True
  then have "take 4 (drop (4 * j) (put_word i w d)) = take 4 (drop (4 * j) d)"
    using assms by (auto simp: put_word_def drop_take min_def)
  then show ?thesis by (simp add: get_word_def)
next
  case False
  with assms have j: "i < j" by simp
  then have "drop (4 * j) (put_word i w d) = drop (4 * j) d"
    using assms by (simp add: put_word_def)
  then show ?thesis by (simp add: get_word_def)
qed

subsection \<open>State\<close>

definition LOGSIZE :: nat where "LOGSIZE = 30"
definition MAXOPBLOCKS :: int where "MAXOPBLOCKS = 10"

record superblock =
  sb_size :: uint
  sb_nblocks :: uint
  sb_ninodes :: uint
  sb_nlog :: uint
  sb_logstart :: uint
  sb_inodestart :: uint
  sb_bmapstart :: uint

record lstate = bstate +
  l_start :: uint
  l_size :: int
  l_outstanding :: int
  l_committing :: bool
  l_dev :: uint
  l_n :: int
  l_block :: "uint list"

subsection \<open>Operations\<close>

definition sb_of :: "byte list \<Rightarrow> superblock" where
  "sb_of d = \<lparr>sb_size = get_word 0 d, sb_nblocks = get_word 1 d, sb_ninodes = get_word 2 d, sb_nlog = get_word 3 d,
     sb_logstart = get_word 4 d, sb_inodestart = get_word 5 d, sb_bmapstart = get_word 6 d\<rparr>"

definition readsb :: "uint \<Rightarrow> 'z bstate_scheme \<Rightarrow> (superblock, 'z bstate_scheme) kres" where
  "readsb dev s =
     bindk (bread dev 1 s) (\<lambda>bp s.
       let sb = sb_of (b_data (bufof s bp)) in bindk (brelse bp s) (\<lambda>_ s. Ok sb s))"

text \<open>Run a loop body for each index.\<close>

primrec each :: "(nat \<Rightarrow> 's \<Rightarrow> (unit, 's) kres) \<Rightarrow> nat list \<Rightarrow> 's \<Rightarrow> (unit, 's) kres" where
  "each f [] s = Ok () s"
| "each f (i # is) s = bindk (f i s) (\<lambda>_. each f is)"

definition set_bdata :: "nat \<Rightarrow> byte list \<Rightarrow> 'z bstate_scheme \<Rightarrow> 'z bstate_scheme" where
  "set_bdata i d s = upd_buf i (\<lambda>b. b\<lparr>b_data := d\<rparr>) s"

definition install_one :: "nat \<Rightarrow> 'z lstate_scheme \<Rightarrow> (unit, 'z lstate_scheme) kres" where
  "install_one tail s =
     bindk (bread (l_dev s) (l_start s + of_nat tail + 1) s) (\<lambda>lbuf s.
     bindk (bread (l_dev s) (l_block s ! tail) s) (\<lambda>dbuf s.
       let s = set_bdata dbuf (b_data (bufof s lbuf)) s in
     bindk (bwrite dbuf s) (\<lambda>_ s.
     bindk (brelse lbuf s) (\<lambda>_ s. brelse dbuf s))))"

definition install_trans :: "'z lstate_scheme \<Rightarrow> (unit, 'z lstate_scheme) kres" where
  "install_trans s = each install_one [0..<nat (l_n s)] s"

definition read_head :: "'z lstate_scheme \<Rightarrow> (unit, 'z lstate_scheme) kres" where
  "read_head s =
     bindk (bread (l_dev s) (l_start s) s) (\<lambda>b s.
       let lh = b_data (bufof s b);
           s = s\<lparr>l_n := sint (get_word 0 lh)\<rparr>;
           s = s\<lparr>l_block := fold (\<lambda>i xs. xs[i := get_word (Suc i) lh]) [0..<nat (l_n s)] (l_block s)\<rparr>
       in brelse b s)"

definition write_head :: "'z lstate_scheme \<Rightarrow> (unit, 'z lstate_scheme) kres" where
  "write_head s =
     bindk (bread (l_dev s) (l_start s) s) (\<lambda>b s.
       let hb = put_word 0 (of_int (l_n s)) (b_data (bufof s b));
           hb = fold (\<lambda>i d. put_word (Suc i) (l_block s ! i) d) [0..<nat (l_n s)] hb;
           s = set_bdata b hb s
       in bindk (bwrite b s) (\<lambda>_ s. brelse b s))"

definition recover_from_log :: "'z lstate_scheme \<Rightarrow> (unit, 'z lstate_scheme) kres" where
  "recover_from_log s =
     bindk (read_head s) (\<lambda>_ s.
     bindk (install_trans s) (\<lambda>_ s.
     write_head (s\<lparr>l_n := 0\<rparr>)))"

definition initlog :: "uint \<Rightarrow> 'z lstate_scheme \<Rightarrow> (unit, 'z lstate_scheme) kres" where
  "initlog dev s =
     (if 4 * (1 + LOGSIZE) \<ge> BSIZE then Panic ''initlog: too big logheader''
      else bindk (readsb dev s) (\<lambda>sb s.
        recover_from_log (s\<lparr>l_start := sb_logstart sb, l_size := sint (sb_nlog sb), l_dev := dev\<rparr>)))"

definition begin_op :: "'z lstate_scheme \<Rightarrow> (unit, 'z lstate_scheme) kres" where
  "begin_op s =
     (if l_committing s then Sleep ChLog s
      else if l_n s + (l_outstanding s + 1) * MAXOPBLOCKS > int LOGSIZE then Sleep ChLog s
      else Ok () (s\<lparr>l_outstanding := l_outstanding s + 1\<rparr>))"

definition write_log_one :: "nat \<Rightarrow> 'z lstate_scheme \<Rightarrow> (unit, 'z lstate_scheme) kres" where
  "write_log_one tail s =
     bindk (bread (l_dev s) (l_start s + of_nat tail + 1) s) (\<lambda>to s.
     bindk (bread (l_dev s) (l_block s ! tail) s) (\<lambda>from s.
       let s = set_bdata to (b_data (bufof s from)) s in
     bindk (bwrite to s) (\<lambda>_ s.
     bindk (brelse from s) (\<lambda>_ s. brelse to s))))"

definition write_log :: "'z lstate_scheme \<Rightarrow> (unit, 'z lstate_scheme) kres" where
  "write_log s = each write_log_one [0..<nat (l_n s)] s"

definition commit :: "'z lstate_scheme \<Rightarrow> (unit, 'z lstate_scheme) kres" where
  "commit s =
     (if l_n s > 0 then
        bindk (write_log s) (\<lambda>_ s.
        bindk (write_head s) (\<lambda>_ s.
        bindk (install_trans s) (\<lambda>_ s.
        write_head (s\<lparr>l_n := 0\<rparr>))))
      else Ok () s)"

definition end_op :: "'z lstate_scheme \<Rightarrow> (unit, 'z lstate_scheme) kres" where
  "end_op s =
     (let s = s\<lparr>l_outstanding := l_outstanding s - 1\<rparr> in
      if l_committing s then Panic ''log.committing''
      else if l_outstanding s = 0 then
        bindk (commit (s\<lparr>l_committing := True\<rparr>)) (\<lambda>_ s.
          Ok () (s\<lparr>l_committing := False, bs_woken := bs_woken s @ [ChLog]\<rparr>))
      else Ok () (s\<lparr>bs_woken := bs_woken s @ [ChLog]\<rparr>))"

definition log_write :: "nat \<Rightarrow> 'z lstate_scheme \<Rightarrow> (unit, 'z lstate_scheme) kres" where
  "log_write b s =
     (if l_n s \<ge> int LOGSIZE \<or> l_n s \<ge> l_size s - 1 then Panic ''too big a transaction''
      else if l_outstanding s < 1 then Panic ''log_write outside of trans''
      else
        let blockno = b_blockno (bufof s b);
            i = (case find_idx (\<lambda>x. x = blockno) (take (nat (l_n s)) (l_block s)) of
                   Some i \<Rightarrow> i | None \<Rightarrow> nat (l_n s));
            s = s\<lparr>l_block := (l_block s)[i := blockno]\<rparr>;
            s = (if int i = l_n s then s\<lparr>l_n := l_n s + 1\<rparr> else s)
        in Ok () (upd_buf b (\<lambda>x. x\<lparr>b_dirty := True\<rparr>) s))"


subsection \<open>Blocks through the cache\<close>

lemma free_buffer:
  assumes ok: "cache_ok s H" and room: "card (dirty_blocks s) + card H < NBUF"
  shows "\<exists>i<NBUF. i \<notin> H \<and> \<not> b_dirty (bufof s i)"
proof (rule ccontr)
  let ?A = "{i. i < NBUF \<and> b_dirty (bufof s i)}"
  let ?k = "\<lambda>i. b_blockno (bufof s i)"
  assume "\<not> ?thesis"
  then have "{..<NBUF} \<subseteq> ?A \<union> H" by auto
  then have "NBUF \<le> card (?A \<union> H)"
    using card_mono [of "?A \<union> H" "{..<NBUF}"] cache_okD(2) [OF ok] by (simp add: finite_subset)
  also have "\<dots> \<le> card ?A + card H" by (rule card_Un_le)
  also have "card ?A \<le> card (dirty_blocks s)"
  proof -
    have k: "keyed s i (?k i)" if "i \<in> ?A" for i
      using cache_okD(3) [OF ok, of i] that by (auto simp: buf_ok_def Let_def keyed_def split: if_splits)
    have "inj_on ?k ?A"
    proof (rule inj_onI)
      fix i j assume "i \<in> ?A" "j \<in> ?A" and e: "?k i = ?k j"
      then show "i = j" using cache_okD(4) [OF ok _ _ k [of i]] k [of j] by auto
    qed
    moreover have "?k ` ?A = dirty_blocks s"
    proof (intro equalityI subsetI)
      show "b \<in> dirty_blocks s" if "b \<in> ?k ` ?A" for b using that k by (auto simp: dirty_blocks_def)
      show "b \<in> ?k ` ?A" if "b \<in> dirty_blocks s" for b using that by (auto simp: dirty_blocks_def keyed_def)
    qed
    ultimately show ?thesis using card_image [of ?k ?A] by simp
  qed
  finally show False using room by simp
qed

lemma dirty_iff:
  assumes "cache_ok s H" "i < NBUF" "keyed s i b"
  shows "b_dirty (bufof s i) \<longleftrightarrow> b \<in> dirty_blocks s"
proof
  show "b \<in> dirty_blocks s" if "b_dirty (bufof s i)" using that assms(2,3) by (auto simp: dirty_blocks_def)
  assume "b \<in> dirty_blocks s"
  then obtain j where "j < NBUF" "keyed s j b" "b_dirty (bufof s j)" by (auto simp: dirty_blocks_def)
  moreover from this have "j = i" using cache_okD(4) [OF assms(1), of j i b] assms(2,3) by blast
  ultimately show "b_dirty (bufof s i)" by simp
qed

lemma bread_any:
  assumes ok: "cache_ok s H" and b: "b < bs_disksize s" "\<forall>i\<in>H. \<not> keyed s i b"
    and room: "b \<in> dirty_blocks s \<or> card (dirty_blocks s) + card H < NBUF"
  shows "\<exists>i s'. bread 1 b s = Ok i s' \<and> i < NBUF \<and> i \<notin> H \<and> cache_ok s' (insert i H) \<and> calm s s' \<and> keyed s' i b
    \<and> b_data (bufof s' i) = content s b \<and> (\<forall>j\<in>H. bufof s' j = bufof s j)"
proof (rule bread_spec [OF ok b])
  show "(\<exists>i<NBUF. keyed s i b) \<or> (\<exists>i<NBUF. i \<notin> H \<and> \<not> b_dirty (bufof s i))"
    using room free_buffer [OF ok] by (auto simp: dirty_blocks_def)
qed

text \<open>A clean block reads as the disk has it.\<close>

definition synced :: "'z bstate_scheme \<Rightarrow> bool" where
  "synced s \<longleftrightarrow> (\<forall>b. b \<in> dirty_blocks s \<or> content s b = bs_disk s b)"

lemma synced_free:
  assumes "cache_ok s {}"
  shows "synced s"
proof -
  have "content s b = bs_disk s b" if "b \<notin> dirty_blocks s" for b
  proof (cases "\<exists>i<NBUF. keyed s i b")
    case True
    then obtain i where i: "i < NBUF" "keyed s i b" by blast
    then have "\<not> b_dirty (bufof s i)" using dirty_iff [OF assms i] that by simp
    then show ?thesis
      using cache_okD(3) [OF assms i(1)] content_keyed [OF assms i] i(2) by (auto simp: buf_ok_def Let_def keyed_def)
  next
    case False
    then show ?thesis using content_uncached [OF assms] by blast
  qed
  then show ?thesis by (auto simp: synced_def)
qed

lemma synced_calm: "synced s \<Longrightarrow> calm s s' \<Longrightarrow> synced s'"
  by (simp add: synced_def calm_def)

lemma keyed_core: "core (bufof s' j) = core (bufof s j) \<Longrightarrow> keyed s' j b = keyed s j b"
  by (drule arg_cong [of _ _ "\<lambda>x. (b_dev x, b_blockno x)"]) (simp add: core_def keyed_def)

lemma brelse_any:
  assumes ok: "cache_ok s H" and i: "i \<in> H" "keyed s i b" and b: "b \<in> dirty_blocks s \<or> content s b = bs_disk s b"
  shows "\<exists>s'. brelse i s = Ok () s' \<and> cache_ok s' (H - {i}) \<and> calm s s' \<and> (\<forall>j\<in>H - {i}. keyed s' j = keyed s j)"
proof -
  have i': "i < NBUF" using i(1) cache_okD(2) [OF ok] by auto
  have "b_dirty (bufof s i) \<or> b_data (bufof s i) = bs_disk s (b_blockno (bufof s i))"
    using dirty_iff [OF ok i' i(2)] content_keyed [OF ok i' i(2)] b i(2) by (auto simp: keyed_def)
  from brelse_spec [OF ok i(1) this] obtain s' where s': "brelse i s = Ok () s'" "cache_ok s' (H - {i})" "calm s s'"
    "\<forall>j\<in>H - {i}. core (bufof s' j) = core (bufof s j)" by blast
  have "keyed s' j = keyed s j" if "j \<in> H - {i}" for j using s'(4) that by (intro ext keyed_core) blast
  then show ?thesis using s'(1-3) by blast
qed


text \<open>The effect of writing block \<open>x\<close> through the cache, with no buffer held afterwards.\<close>

definition wrote :: "uint \<Rightarrow> byte list \<Rightarrow> 'z bstate_scheme \<Rightarrow> 'z bstate_scheme \<Rightarrow> bool" where
  "wrote x d s s' \<longleftrightarrow> cache_ok s' {} \<and> content s' = (content s)(x := d) \<and> bs_disk s' = (bs_disk s)(x := d)
     \<and> bs_writes s' = bs_writes s @ [(x, d)] \<and> dirty_blocks s' = dirty_blocks s - {x}
     \<and> bs_disksize s' = bs_disksize s \<and> bs_pid s' = bs_pid s \<and> bstate.more s' = bstate.more s"

lemma bwrite_data:
  assumes ok: "cache_ok s H" and i: "i \<in> H" "keyed s i x"
  shows "\<exists>s'. bwrite i (set_bdata i d s) = Ok () s' \<and> cache_ok s' H \<and> content s' = (content s)(x := d)
    \<and> bs_disk s' = (bs_disk s)(x := d) \<and> bs_writes s' = bs_writes s @ [(x, d)]
    \<and> dirty_blocks s' = dirty_blocks s - {x} \<and> bs_disksize s' = bs_disksize s \<and> bs_pid s' = bs_pid s
    \<and> bstate.more s' = bstate.more s \<and> (\<forall>j\<in>H. keyed s' j = keyed s j)"
proof -
  let ?s = "set_bdata i d s"
  have lt: "j < NBUF" "j < length (bs_buf s)" if "j \<in> H" for j using that cache_okD(1,2) [OF ok] by auto
  have s: "cache_ok ?s H" "content ?s = (content s)(x := d)" "dirty_blocks ?s = dirty_blocks s"
    using set_data_spec [OF ok i(1), of d] i(2) by (simp_all add: set_bdata_def keyed_def)
  have nth: "bufof ?s j = (if j = i then (bufof s i)\<lparr>b_data := d\<rparr> else bufof s j)" if "j \<in> H" for j
    using lt [OF that] by (simp add: set_bdata_def)
  have bi: "b_blockno (bufof ?s i) = x" "b_data (bufof ?s i) = d" using nth [OF i(1)] i(2) by (simp_all add: keyed_def)
  obtain s' where s': "bwrite i ?s = Ok () s'" "cache_ok s' H" "content s' = content ?s"
    "bs_disk s' = (bs_disk ?s)(x := d)" "bs_writes s' = bs_writes ?s @ [(x, d)]"
    "dirty_blocks s' = dirty_blocks ?s - {x}" "bs_disksize s' = bs_disksize ?s" "bs_pid s' = bs_pid ?s"
    "bstate.more s' = bstate.more ?s"
    "\<forall>j\<in>H. bufof s' j = (if j = i then (bufof ?s i)\<lparr>b_dirty := False\<rparr> else bufof ?s j)"
    using bwrite_spec [OF s(1) i(1)] unfolding bi by blast
  have "keyed s' j = keyed s j" if "j \<in> H" for j
    using s'(10) that nth [OF that] nth [OF i(1)] by (auto simp: keyed_def fun_eq_iff)
  then show ?thesis using s' s by (simp add: set_bdata_def)
qed

lemma write_one:
  assumes ok: "cache_ok s {i}" and i: "keyed s i x"
  shows "\<exists>s'. bindk (bwrite i (set_bdata i d s)) (\<lambda>_ s. brelse i s) = Ok () s' \<and> wrote x d s s'"
proof -
  obtain s1 where s1: "bwrite i (set_bdata i d s) = Ok () s1" "cache_ok s1 {i}" "content s1 = (content s)(x := d)"
    "bs_disk s1 = (bs_disk s)(x := d)" "bs_writes s1 = bs_writes s @ [(x, d)]" "dirty_blocks s1 = dirty_blocks s - {x}"
    "bs_disksize s1 = bs_disksize s" "bs_pid s1 = bs_pid s" "bstate.more s1 = bstate.more s" "keyed s1 i = keyed s i"
    using bwrite_data [OF ok _ i, of d] by blast
  have "content s1 x = bs_disk s1 x" using s1(3,4) by simp
  then obtain s2 where "brelse i s1 = Ok () s2" "cache_ok s2 {}" "calm s1 s2"
    using brelse_any [OF s1(2), of i x] i s1(10) by auto
  then show ?thesis using s1 by (auto simp: wrote_def calm_def)
qed

lemma write_two:
  assumes ok: "cache_ok s {i, j}" and ij: "i \<noteq> j" and k: "keyed s i x" "keyed s j y" "x \<noteq> y"
    and y: "y \<in> dirty_blocks s \<or> content s y = bs_disk s y"
  shows "\<exists>s'. bindk (bwrite i (set_bdata i d s)) (\<lambda>_ s. bindk (brelse j s) (\<lambda>_ s. brelse i s)) = Ok () s'
    \<and> wrote x d s s'"
proof -
  obtain s1 where s1: "bwrite i (set_bdata i d s) = Ok () s1" "cache_ok s1 {i, j}" "content s1 = (content s)(x := d)"
    "bs_disk s1 = (bs_disk s)(x := d)" "bs_writes s1 = bs_writes s @ [(x, d)]" "dirty_blocks s1 = dirty_blocks s - {x}"
    "bs_disksize s1 = bs_disksize s" "bs_pid s1 = bs_pid s" "bstate.more s1 = bstate.more s"
    "keyed s1 i = keyed s i" "keyed s1 j = keyed s j"
    using bwrite_data [OF ok _ k(1), of d] by blast
  have "y \<in> dirty_blocks s1 \<or> content s1 y = bs_disk s1 y" using y s1(3,4,6) k(3) by auto
  then obtain s2 where s2: "brelse j s1 = Ok () s2" "cache_ok s2 ({i, j} - {j})" "calm s1 s2" "keyed s2 i = keyed s1 i"
    using brelse_any [OF s1(2), of j y] k(2) s1(11) ij by auto
  have "{i, j} - {j} = {i}" using ij by auto
  with s2(2) have ok2: "cache_ok s2 {i}" by simp
  have "content s2 x = bs_disk s2 x" using s1(3,4) s2(3) by (simp add: calm_def)
  then obtain s3 where "brelse i s2 = Ok () s3" "cache_ok s3 {}" "calm s2 s3"
    using brelse_any [OF ok2, of i x] k(1) s1(10) s2(4) by auto
  then show ?thesis using s1 s2 by (auto simp: wrote_def calm_def)
qed

lemma read_two:
  assumes ok: "cache_ok s {}" and b: "x < bs_disksize s" "y < bs_disksize s" "x \<noteq> y"
    and room: "x \<in> dirty_blocks s \<or> card (dirty_blocks s) < NBUF" "y \<in> dirty_blocks s \<or> Suc (card (dirty_blocks s)) < NBUF"
  shows "\<exists>i j s1 s2. bread 1 x s = Ok i s1 \<and> bread 1 y s1 = Ok j s2 \<and> i \<noteq> j \<and> cache_ok s2 {j, i} \<and> calm s s1 \<and> calm s s2
    \<and> keyed s2 i x \<and> keyed s2 j y \<and> b_data (bufof s2 i) = content s x \<and> b_data (bufof s2 j) = content s y"
proof -
  obtain i s1 where s1: "bread 1 x s = Ok i s1" "cache_ok s1 {i}" "calm s s1" "keyed s1 i x" "b_data (bufof s1 i) = content s x"
    using bread_any [OF ok b(1)] room(1) by auto
  have "\<not> keyed s1 i y" using s1(4) b(3) by (simp add: keyed_def)
  moreover have "y < bs_disksize s1" "y \<in> dirty_blocks s1 \<or> card (dirty_blocks s1) + card {i} < NBUF"
    using s1(3) b(2) room(2) by (simp_all add: calm_def)
  ultimately obtain j s2 where s2: "bread 1 y s1 = Ok j s2" "j \<noteq> i" "cache_ok s2 {j, i}" "calm s1 s2" "keyed s2 j y"
      "b_data (bufof s2 j) = content s1 y" "bufof s2 i = bufof s1 i"
    using bread_any [OF s1(2), of y] by auto
  have "calm s s2" by (rule calm_trans [OF s1(3) s2(4)])
  moreover have "keyed s2 i x" "b_data (bufof s2 i) = content s x" using s2(7) s1(4,5) by (simp_all add: keyed_def)
  moreover have "b_data (bufof s2 j) = content s y" using s2(6) s1(3) by (simp add: calm_def)
  ultimately show ?thesis using s1(1,3) s2(1,2,3,5) by blast
qed

lemma log_fields:
  assumes "bstate.more s' = bstate.more s"
  shows "l_start s' = l_start s" "l_size s' = l_size s" "l_dev s' = l_dev s" "l_n s' = l_n s" "l_block s' = l_block s"
    "l_outstanding s' = l_outstanding s" "l_committing s' = l_committing s"
  using assms by (cases s; cases s'; simp)+


subsection \<open>Sequences of block writes\<close>

definition upds :: "(uint \<times> byte list) list \<Rightarrow> (uint \<Rightarrow> byte list) \<Rightarrow> uint \<Rightarrow> byte list" where
  "upds ws f = fold (\<lambda>w f. f(fst w := snd w)) ws f"

lemma upds_simps [simp]: "upds [] f = f" "upds (w # ws) f = upds ws (f(fst w := snd w))"
  "upds (ws @ vs) f = upds vs (upds ws f)"
  by (simp_all add: upds_def)

lemma upds_other: "x \<notin> fst ` set ws \<Longrightarrow> upds ws f x = f x"
  by (induction ws arbitrary: f) auto

lemma upds_nth: "distinct (map fst ws) \<Longrightarrow> (x, d) \<in> set ws \<Longrightarrow> upds ws f x = d"
  by (induction ws arbitrary: f) (force simp: upds_other)+

definition wrotes :: "(uint \<times> byte list) list \<Rightarrow> 'z bstate_scheme \<Rightarrow> 'z bstate_scheme \<Rightarrow> bool" where
  "wrotes ws s s' \<longleftrightarrow> cache_ok s' {} \<and> content s' = upds ws (content s) \<and> bs_disk s' = upds ws (bs_disk s)
     \<and> bs_writes s' = bs_writes s @ ws \<and> dirty_blocks s' = dirty_blocks s - fst ` set ws
     \<and> bs_disksize s' = bs_disksize s \<and> bs_pid s' = bs_pid s \<and> bstate.more s' = bstate.more s"

lemma wrotes_Nil: "cache_ok s {} \<Longrightarrow> wrotes [] s s" by (simp add: wrotes_def)

lemma wrotes_snoc: "wrotes ws s s' \<Longrightarrow> wrote (fst w) (snd w) s' s'' \<Longrightarrow> wrotes (ws @ [w]) s s''"
  by (auto simp: wrotes_def wrote_def)

lemma wrote_wrotes: "wrote x d s s' \<Longrightarrow> wrotes [(x, d)] s s'" by (simp add: wrotes_def wrote_def)

lemma wrotes_append: "wrotes ws s s' \<Longrightarrow> wrotes vs s' s'' \<Longrightarrow> wrotes (ws @ vs) s s''"
  by (auto simp: wrotes_def)

lemma each_append: "each f (xs @ ys) s = bindk (each f xs s) (\<lambda>_. each f ys)"
  by (induction xs arbitrary: s) (auto simp: bindk_assoc intro!: bindk_cong)

lemma each_wrotes:
  assumes "\<And>t s'. t < n \<Longrightarrow> wrotes (map w [0..<t]) s s' \<Longrightarrow> \<exists>s''. f t s' = Ok () s'' \<and> wrote (fst (w t)) (snd (w t)) s' s''"
    and "cache_ok s {}"
  shows "\<exists>s'. each f [0..<n] s = Ok () s' \<and> wrotes (map w [0..<n]) s s'"
  using assms(1)
proof (induction n)
  case 0
  then show ?case using assms(2) by (simp add: wrotes_Nil)
next
  case (Suc n)
  then obtain s' where s': "each f [0..<n] s = Ok () s'" "wrotes (map w [0..<n]) s s'" by auto
  then obtain s'' where "f n s' = Ok () s''" "wrote (fst (w n)) (snd (w n)) s' s''" using Suc.prems [of n s'] by auto
  then show ?case using s' wrotes_snoc [OF s'(2)] by (simp add: each_append)
qed

subsection \<open>The log invariant\<close>

definition log_blk :: "'z lstate_scheme \<Rightarrow> nat \<Rightarrow> uint" where
  "log_blk s t = l_start s + of_nat t"

definition logged :: "'z lstate_scheme \<Rightarrow> uint list" where
  "logged s = take (nat (l_n s)) (l_block s)"

text \<open>
  Between the operations of a transaction the header on disk is empty, the cache pins exactly the
  blocks in the in-memory header, and the log area is on the disk and apart from them.
\<close>

definition log_inv :: "'z lstate_scheme \<Rightarrow> bool" where
  "log_inv s \<longleftrightarrow> l_dev s = 1 \<and> length (l_block s) = LOGSIZE \<and> 0 \<le> l_n s \<and> l_n s < int LOGSIZE
     \<and> (\<forall>t<LOGSIZE. log_blk s t < bs_disksize s \<and> log_blk s t \<notin> dirty_blocks s)
     \<and> length (bs_disk s (l_start s)) = BSIZE \<and> get_word 0 (bs_disk s (l_start s)) = 0
     \<and> distinct (logged s) \<and> set (logged s) = dirty_blocks s"

lemma log_blk_inj: "i < LOGSIZE \<Longrightarrow> j < LOGSIZE \<Longrightarrow> log_blk s i = log_blk s j \<Longrightarrow> i = j"
  by (simp add: log_blk_def word_of_nat_eq_iff take_bit_nat_eq_self LOGSIZE_def)

lemma log_blk_Suc: "l_start s + of_nat t + 1 = log_blk s (Suc t)"
  by (simp add: log_blk_def)

lemma dirty_lt: "cache_ok s H \<Longrightarrow> b \<in> dirty_blocks s \<Longrightarrow> b < bs_disksize s"
  using cache_okD(3) by (fastforce simp: dirty_blocks_def buf_ok_def Let_def keyed_def)


text \<open>What commit relies on, in terms of the disk and the block lists only.\<close>

definition log_geom :: "'z lstate_scheme \<Rightarrow> uint list \<Rightarrow> bool" where
  "log_geom s bs \<longleftrightarrow> l_dev s = 1 \<and> l_n s = int (length bs) \<and> length bs < LOGSIZE \<and> length (l_block s) = LOGSIZE
     \<and> take (length bs) (l_block s) = bs \<and> distinct bs
     \<and> (\<forall>t<LOGSIZE. log_blk s t < bs_disksize s \<and> log_blk s t \<notin> set bs)
     \<and> (\<forall>b\<in>set bs. b < bs_disksize s)"

lemma log_geom_nth: "log_geom s bs \<Longrightarrow> t < length bs \<Longrightarrow> l_block s ! t = bs ! t"
  unfolding log_geom_def by (metis nth_take)

lemma log_geomD:
  assumes "log_geom s bs" "t < length bs"
  shows "l_dev s = 1" "log_blk s (Suc t) < bs_disksize s" "bs ! t < bs_disksize s" "log_blk s (Suc t) \<noteq> bs ! t"
    "card (set bs) < NBUF" "log_blk s (Suc t) \<notin> set bs"
proof -
  have t: "Suc t < LOGSIZE" using assms by (simp add: log_geom_def)
  then show x: "log_blk s (Suc t) < bs_disksize s" "log_blk s (Suc t) \<notin> set bs" using assms by (simp_all add: log_geom_def)
  show "log_blk s (Suc t) \<noteq> bs ! t" using x(2) nth_mem [OF assms(2)] by auto
  show "l_dev s = 1" "bs ! t < bs_disksize s" using assms by (simp_all add: log_geom_def)
  show "card (set bs) < NBUF" using assms card_length [of bs] by (simp add: log_geom_def LOGSIZE_def NBUF_def)
qed

lemma log_same:
  assumes "bstate.more s' = bstate.more s" "bs_disksize s' = bs_disksize s"
  shows "log_geom s' = log_geom s" "log_blk s' = log_blk s"
  by (simp_all add: fun_eq_iff log_geom_def log_blk_def log_fields [OF assms(1)] assms(2))

lemma log_wrotes: "wrotes ws s s' \<Longrightarrow> log_geom s' = log_geom s" "wrotes ws s s' \<Longrightarrow> log_blk s' = log_blk s"
  unfolding wrotes_def by (blast intro: log_same)+

lemma write_log_one_wrote:
  assumes g: "log_geom s bs" and ok: "cache_ok s {}" and t: "t < length bs"
    and d: "dirty_blocks s = set bs"
  shows "\<exists>s'. write_log_one t s = Ok () s' \<and> wrote (log_blk s (Suc t)) (content s (bs ! t)) s s'"
proof -
  let ?x = "log_blk s (Suc t)" and ?y = "bs ! t"
  have y: "?y \<in> set bs" using t by simp
  have g': "l_dev s = 1" "?x < bs_disksize s" "?y < bs_disksize s" "?x \<noteq> ?y" "card (dirty_blocks s) < NBUF"
    using log_geomD [OF g t] d by simp_all
  obtain i j s1 s2 where r: "bread 1 ?x s = Ok i s1" "bread 1 ?y s1 = Ok j s2" "i \<noteq> j" "cache_ok s2 {j, i}"
      "calm s s1" "calm s s2" "keyed s2 i ?x" "keyed s2 j ?y" "b_data (bufof s2 j) = content s ?y"
    using read_two [OF ok g'(2-4)] g'(5) y d by blast
  have y2: "?y \<in> dirty_blocks s2 \<or> content s2 ?y = bs_disk s2 ?y" using y d r(6) by (simp add: calm_def)
  have ok2: "cache_ok s2 {i, j}" using r(4) by (simp add: insert_commute)
  obtain s3 where s3: "bindk (bwrite i (set_bdata i (content s ?y) s2)) (\<lambda>_ s. bindk (brelse j s) (\<lambda>_ s. brelse i s)) = Ok () s3"
      "wrote ?x (content s ?y) s2 s3"
    using write_two [OF ok2 r(3,7,8) g'(4) y2] by blast
  have m: "l_dev s1 = 1" "l_block s1 = l_block s" using r(5) log_fields [of s1 s] g'(1) by (simp_all add: calm_def)
  have "write_log_one t s = Ok () s3"
    using r(1,2,9) s3(1) m g'(1) log_geom_nth [OF g t] unfolding write_log_one_def log_blk_Suc by (simp add: Let_def)
  moreover have "wrote ?x (content s ?y) s s3" using s3(2) r(6) by (simp add: wrote_def calm_def)
  ultimately show ?thesis by blast
qed

lemma install_one_wrote:
  assumes g: "log_geom s bs" and ok: "cache_ok s {}" and t: "t < length bs"
    and d: "dirty_blocks s \<subseteq> set bs" "bs ! t \<in> dirty_blocks s \<or> dirty_blocks s = {}"
    and clean: "content s (log_blk s (Suc t)) = bs_disk s (log_blk s (Suc t))"
  shows "\<exists>s'. install_one t s = Ok () s' \<and> wrote (bs ! t) (content s (log_blk s (Suc t))) s s'"
proof -
  let ?x = "log_blk s (Suc t)" and ?y = "bs ! t"
  have y: "?y \<in> set bs" using t by simp
  have "card (dirty_blocks s) \<le> card (set bs)" by (rule card_mono) (use d(1) in auto)
  then have g': "l_dev s = 1" "?x < bs_disksize s" "?y < bs_disksize s" "?x \<noteq> ?y" "card (dirty_blocks s) < NBUF"
      "?y \<in> dirty_blocks s \<or> Suc (card (dirty_blocks s)) < NBUF"
    using log_geomD [OF g t] d(2) by (auto simp: NBUF_def)
  obtain i j s1 s2 where r: "bread 1 ?x s = Ok i s1" "bread 1 ?y s1 = Ok j s2" "i \<noteq> j" "cache_ok s2 {j, i}"
      "calm s s1" "calm s s2" "keyed s2 i ?x" "keyed s2 j ?y" "b_data (bufof s2 i) = content s ?x"
    using read_two [OF ok g'(2-4)] g'(5,6) by blast
  have x2: "?x \<in> dirty_blocks s2 \<or> content s2 ?x = bs_disk s2 ?x" using clean r(6) by (simp add: calm_def)
  obtain s3 where s3: "bindk (bwrite j (set_bdata j (content s ?x) s2)) (\<lambda>_ s. bindk (brelse i s) (\<lambda>_ s. brelse j s)) = Ok () s3"
      "wrote ?y (content s ?x) s2 s3"
    using write_two [OF r(4) r(3) [symmetric] r(8,7) g'(4) [symmetric] x2] by blast
  have m: "l_dev s1 = 1" "l_block s1 = l_block s" using r(5) log_fields [of s1 s] g'(1) by (simp_all add: calm_def)
  have "install_one t s = Ok () s3"
    using r(1,2,9) s3(1) m g'(1) log_geom_nth [OF g t] unfolding install_one_def log_blk_Suc by (simp add: Let_def)
  moreover have "wrote ?y (content s ?x) s s3" using s3(2) r(6) by (simp add: wrote_def calm_def)
  ultimately show ?thesis by blast
qed


lemmas cache_view_defs = cache_ok_def mru_ok_def buf_ok_def content_def cached_def dirty_blocks_def keyed_def

lemma log_update_view [simp]:
  fixes s :: "'z lstate_scheme"
  shows "cache_ok (l_n_update f s) H = cache_ok s H" "content (l_n_update f s) = content s"
    "dirty_blocks (l_n_update f s) = dirty_blocks s" "keyed (l_n_update f s) = keyed s"
    "cache_ok (l_block_update g s) H = cache_ok s H" "content (l_block_update g s) = content s"
    "dirty_blocks (l_block_update g s) = dirty_blocks s" "keyed (l_block_update g s) = keyed s"
  by (simp_all add: cache_view_defs fun_eq_iff cong: option.case_cong)

lemma log_blk_neq: "log_geom s bs \<Longrightarrow> t < length bs \<Longrightarrow> u < length bs \<Longrightarrow> log_blk s (Suc t) \<noteq> bs ! u"
  using log_geomD(6) nth_mem by metis

lemma write_log_wrotes:
  assumes g: "log_geom s bs" and ok: "cache_ok s {}" and d: "dirty_blocks s = set bs"
  shows "\<exists>s'. write_log s = Ok () s' \<and> wrotes (map (\<lambda>t. (log_blk s (Suc t), content s (bs ! t))) [0..<length bs]) s s'"
proof -
  let ?w = "\<lambda>t. (log_blk s (Suc t), content s (bs ! t))"
  have "\<exists>s''. write_log_one t s' = Ok () s'' \<and> wrote (fst (?w t)) (snd (?w t)) s' s''"
    if t: "t < length bs" and w: "wrotes (map ?w [0..<t]) s s'" for t s'
  proof -
    have "bs ! t \<notin> fst ` set (map ?w [0..<t])" using log_blk_neq [OF g] t by auto (metis less_trans)
    then have c: "content s' (bs ! t) = content s (bs ! t)" using w by (simp add: wrotes_def upds_other)
    have "fst ` set (map ?w [0..<t]) \<inter> set bs = {}" using log_geomD(6) [OF g] t by fastforce
    then have "dirty_blocks s' = set bs" using w d by (auto simp: wrotes_def)
    then show ?thesis
      using write_log_one_wrote [of s' bs t] w t log_wrotes [OF w] g c by (simp add: wrotes_def)
  qed
  from each_wrotes [of _ ?w, OF this ok] show ?thesis using g by (simp add: write_log_def log_geom_def)
qed

lemma install_trans_wrotes:
  assumes g: "log_geom s bs" and ok: "cache_ok s {}" and d: "dirty_blocks s = set bs \<or> dirty_blocks s = {}"
  shows "\<exists>s'. install_trans s = Ok () s' \<and> wrotes (map (\<lambda>t. (bs ! t, content s (log_blk s (Suc t)))) [0..<length bs]) s s'"
proof -
  let ?w = "\<lambda>t. (bs ! t, content s (log_blk s (Suc t)))"
  have "\<exists>s''. install_one t s' = Ok () s'' \<and> wrote (fst (?w t)) (snd (?w t)) s' s''"
    if t: "t < length bs" and w: "wrotes (map ?w [0..<t]) s s'" for t s'
  proof -
    have lb: "log_blk s' = log_blk s" "log_geom s' bs" using log_wrotes [OF w] g by simp_all
    have "map ((!) bs) [0..<t] = take t bs" using t by (intro nth_equalityI) auto
    then have ws: "fst ` set (map ?w [0..<t]) = set (take t bs)" by (simp add: comp_def flip: set_map)
    have "log_blk s (Suc t) \<notin> set bs" by (rule log_geomD(6) [OF g t])
    then have x: "log_blk s (Suc t) \<notin> fst ` set (map ?w [0..<t])" unfolding ws by (auto dest: in_set_takeD)
    then have c: "content s' (log_blk s (Suc t)) = content s (log_blk s (Suc t))" using w by (simp add: wrotes_def upds_other)
    have dd: "dirty_blocks s' = dirty_blocks s - set (take t bs)" using w unfolding wrotes_def ws by simp
    have "bs ! t \<notin> set (take t bs)" using g t by (auto simp: log_geom_def in_set_conv_nth nth_eq_iff_index_eq)
    then have d': "dirty_blocks s' \<subseteq> set bs" "bs ! t \<in> dirty_blocks s' \<or> dirty_blocks s' = {}" using dd d t by auto
    have ok': "cache_ok s' {}" using w by (simp add: wrotes_def)
    have "log_blk s (Suc t) \<notin> dirty_blocks s'" using \<open>log_blk s (Suc t) \<notin> set bs\<close> d'(1) by blast
    then have "content s' (log_blk s' (Suc t)) = bs_disk s' (log_blk s' (Suc t))"
      using synced_free [OF ok'] lb by (auto simp: synced_def)
    from install_one_wrote [OF lb(2) ok' t d' this] show ?thesis by (simp add: lb c)
  qed
  from each_wrotes [of _ ?w, OF this ok] show ?thesis using g by (simp add: install_trans_def log_geom_def)
qed


definition hdr :: "uint list \<Rightarrow> byte list \<Rightarrow> byte list" where
  "hdr bs d = fold (\<lambda>i d. put_word (Suc i) (bs ! i) d) [0..<length bs] (put_word 0 (of_nat (length bs)) d)"

lemma hdr_words:
  assumes "length d = BSIZE" "length bs < LOGSIZE"
  shows "length (hdr bs d) = BSIZE" "get_word 0 (hdr bs d) = of_nat (length bs)"
    "i < length bs \<Longrightarrow> get_word (Suc i) (hdr bs d) = bs ! i"
proof -
  let ?h = "\<lambda>n. fold (\<lambda>i d. put_word (Suc i) (bs ! i) d) [0..<n] (put_word 0 (of_nat (length bs)) d)"
  have "length (?h n) = BSIZE \<and> get_word 0 (?h n) = of_nat (length bs) \<and> (\<forall>i<n. get_word (Suc i) (?h n) = bs ! i)"
    if "n \<le> length bs" for n
    using that
  proof (induction n)
    case 0
    then show ?case using assms by (simp add: BSIZE_def)
  next
    case (Suc n)
    then have "4 * Suc n + 4 \<le> length (?h n)" using assms by (simp add: BSIZE_def LOGSIZE_def)
    then show ?case using Suc by (auto simp: less_Suc_eq)
  qed
  from this [of "length bs"] show "length (hdr bs d) = BSIZE" "get_word 0 (hdr bs d) = of_nat (length bs)"
    "i < length bs \<Longrightarrow> get_word (Suc i) (hdr bs d) = bs ! i" unfolding hdr_def by auto
qed

lemma log_start: "log_geom s bs \<Longrightarrow> l_start s < bs_disksize s \<and> l_start s \<notin> set bs \<and> l_dev s = 1"
  unfolding log_geom_def log_blk_def by (auto simp: LOGSIZE_def dest: spec [of _ 0])

lemma write_head_wrote:
  assumes g: "log_geom s bs" and ok: "cache_ok s {}" and room: "card (dirty_blocks s) < NBUF"
  shows "\<exists>s'. write_head s = Ok () s' \<and> wrote (l_start s) (hdr bs (content s (l_start s))) s s'"
proof -
  obtain b s1 where b: "bread 1 (l_start s) s = Ok b s1" "cache_ok s1 {b}" "calm s s1" "keyed s1 b (l_start s)"
      "b_data (bufof s1 b) = content s (l_start s)"
    using bread_any [OF ok, of "l_start s"] log_start [OF g] room by auto
  have m: "l_n s1 = int (length bs)" "l_block s1 = l_block s"
    using b(3) log_fields [of s1 s] g by (simp_all add: calm_def log_geom_def)
  have h: "fold (\<lambda>i. put_word (Suc i) (l_block s ! i)) [0..<length bs] d = fold (\<lambda>i. put_word (Suc i) (bs ! i)) [0..<length bs] d" for d
    using log_geom_nth [OF g] by (intro fold_cong) auto
  obtain s2 where s2: "bindk (bwrite b (set_bdata b (hdr bs (content s (l_start s))) s1)) (\<lambda>_ s. brelse b s) = Ok () s2"
      "wrote (l_start s) (hdr bs (content s (l_start s))) s1 s2"
    using write_one [OF b(2,4)] by blast
  have "write_head s = Ok () s2"
    using b(1,5) m h log_start [OF g] s2(1) by (simp add: write_head_def hdr_def Let_def)
  moreover have "wrote (l_start s) (hdr bs (content s (l_start s))) s s2" using s2(2) b(3) by (simp add: wrote_def calm_def)
  ultimately show ?thesis by blast
qed

lemma read_head_spec:
  assumes ok: "cache_ok s {}" and room: "card (dirty_blocks s) < NBUF"
    and l: "l_dev s = 1" "l_start s < bs_disksize s" "l_start s \<notin> dirty_blocks s"
  defines "lh \<equiv> content s (l_start s)"
  defines "n \<equiv> sint (get_word 0 lh)"
  shows "\<exists>s'. read_head s = Ok () s' \<and> cache_ok s' {}
    \<and> calm (s\<lparr>l_n := n, l_block := fold (\<lambda>i xs. xs[i := get_word (Suc i) lh]) [0..<nat n] (l_block s)\<rparr>) s'"
proof -
  obtain b s1 where b: "bread 1 (l_start s) s = Ok b s1" "cache_ok s1 {b}" "calm s s1" "keyed s1 b (l_start s)"
      "b_data (bufof s1 b) = lh"
    using bread_any [OF ok l(2)] room unfolding lh_def by auto
  let ?u = "\<lambda>s. s\<lparr>l_n := n, l_block := fold (\<lambda>i xs. xs[i := get_word (Suc i) lh]) [0..<nat n] (l_block s)\<rparr>"
  have "bstate.more (?u s1) = bstate.more (?u s)"
    using b(3) by (cases s; cases s1) (simp add: calm_def)
  then have c: "calm (?u s) (?u s1)" using b(3) by (simp add: calm_def)
  have "content (?u s1) (l_start s) = bs_disk (?u s1) (l_start s)"
    using synced_free [OF ok] b(3) l(3) by (auto simp: calm_def synced_def)
  then obtain s2 where "brelse b (?u s1) = Ok () s2" "cache_ok s2 {}" "calm (?u s1) s2"
    using brelse_any [of "?u s1" "{b}" b "l_start s"] b(2,4) by auto
  moreover from this have "calm (?u s) s2" using c calm_trans by blast
  ultimately show ?thesis using b(1,5) l(1) by (auto simp: read_head_def Let_def n_def)
qed


text \<open>The disk writes of a commit, in order.\<close>

definition commit_writes :: "'z lstate_scheme \<Rightarrow> uint list \<Rightarrow> (uint \<times> byte list) list" where
  "commit_writes s bs =
     (let h = hdr bs (bs_disk s (l_start s)) in
      map (\<lambda>t. (log_blk s (Suc t), content s (bs ! t))) [0..<length bs] @ [(l_start s, h)]
      @ map (\<lambda>t. (bs ! t, content s (bs ! t))) [0..<length bs] @ [(l_start s, hdr [] h)])"

lemma log_geom_done: "log_geom s bs \<Longrightarrow> log_geom (s\<lparr>l_n := 0\<rparr>) []"
  by (simp add: log_geom_def log_blk_def)

lemma log_blk_start: "t < LOGSIZE - 1 \<Longrightarrow> log_blk s (Suc t) \<noteq> l_start s"
  using log_blk_inj [of "Suc t" 0 s] by (auto simp: log_blk_def LOGSIZE_def)

lemma home_writes [simp]: "fst ` (\<lambda>t. (bs ! t, f t)) ` {0..<length bs} = set bs"
  by (auto simp: image_image set_conv_nth)

text \<open>Before the commit point: the modified blocks go to the log, then the header.\<close>

lemma log_then_head:
  assumes g: "log_geom s bs" and ok: "cache_ok s {}" and d: "dirty_blocks s = set bs"
  defines "h \<equiv> hdr bs (bs_disk s (l_start s))"
  defines "ws \<equiv> map (\<lambda>t. (log_blk s (Suc t), content s (bs ! t))) [0..<length bs] @ [(l_start s, h)]"
  shows "\<exists>s'. bindk (write_log s) (\<lambda>_. write_head) = Ok () s' \<and> wrotes ws s s' \<and> dirty_blocks s' = set bs
    \<and> (\<forall>t<length bs. content s' (log_blk s (Suc t)) = content s (bs ! t)) \<and> content s' (l_start s) = h"
proof -
  let ?st = "l_start s" and ?lb = "\<lambda>t. log_blk s (Suc t)"
  let ?w1 = "map (\<lambda>t. (?lb t, content s (bs ! t))) [0..<length bs]"
  have len: "length bs < LOGSIZE" "card (set bs) < NBUF"
    using g card_length [of bs] by (auto simp: log_geom_def LOGSIZE_def NBUF_def)
  have lbst: "?lb t \<noteq> ?st" if "t < length bs" for t using that len(1) by (intro log_blk_start) linarith
  have lb2: "i = j" if "i < length bs" "j < length bs" "?lb i = ?lb j" for i j
    using that len(1) log_blk_inj [of "Suc i" "Suc j" s] by auto
  obtain s1 where s1: "write_log s = Ok () s1" "wrotes ?w1 s s1" using write_log_wrotes [OF g ok d] by blast
  have g1: "log_geom s1 bs" "l_start s1 = ?st"
    using log_wrotes [OF s1(2)] log_fields(1) [of s1 s] g s1(2) by (simp_all add: wrotes_def)
  have st: "?st \<notin> fst ` set ?w1" using lbst [symmetric] by (simp add: image_image image_iff)
  have "set bs \<inter> fst ` set ?w1 = {}" using log_geomD(6) [OF g] by fastforce
  then have d1: "dirty_blocks s1 = set bs" using s1(2) d by (auto simp: wrotes_def)
  have c0: "content s1 ?st = bs_disk s ?st"
    using s1(2) st synced_free [OF ok] log_start [OF g] d by (auto simp: wrotes_def upds_other synced_def)
  obtain s2 where s2: "write_head s1 = Ok () s2" "wrote ?st h s1 s2"
    using write_head_wrote [OF g1(1)] s1(2) d1 len(2) c0 g1(2) by (auto simp: wrotes_def h_def)
  note w2 = wrotes_append [OF s1(2) wrote_wrotes [OF s2(2)]]
  have "distinct (map fst ?w1)" using lb2 by (auto simp: distinct_map inj_on_def comp_def)
  then have "content s2 (?lb t) = content s (bs ! t)" if "t < length bs" for t
    using w2 that lbst [OF that] upds_nth [of ?w1 "?lb t" "content s (bs ! t)" "content s"] by (auto simp: wrotes_def)
  moreover have "dirty_blocks s2 = set bs" "content s2 ?st = h" using s2(2) d1 log_start [OF g] by (auto simp: wrote_def)
  ultimately show ?thesis using s1(1) s2(1) w2 by (simp add: ws_def)
qed

text \<open>After it: the blocks go home and the header is cleared; recovery does the same.\<close>

lemma install_and_clear:
  assumes g: "log_geom s bs" and ok: "cache_ok s {}" and d: "dirty_blocks s = set bs \<or> dirty_blocks s = {}"
  defines "ws \<equiv> map (\<lambda>t. (bs ! t, content s (log_blk s (Suc t)))) [0..<length bs]
     @ [(l_start s, hdr [] (content s (l_start s)))]"
  shows "\<exists>s'. bindk (install_trans s) (\<lambda>_ s. write_head (s\<lparr>l_n := 0\<rparr>)) = Ok () s'
    \<and> wrotes ws s (s'\<lparr>l_n := l_n s\<rparr>) \<and> cache_ok s' {} \<and> dirty_blocks s' = {} \<and> l_n s' = 0"
proof -
  let ?st = "l_start s"
  obtain s1 where s1: "install_trans s = Ok () s1"
      "wrotes (map (\<lambda>t. (bs ! t, content s (log_blk s (Suc t)))) [0..<length bs]) s s1"
    using install_trans_wrotes [OF g ok d] by blast
  have g1: "log_geom s1 bs" "l_start s1 = ?st" "l_n s1 = l_n s"
    using log_wrotes [OF s1(2)] log_fields [of s1 s] g s1(2) by (simp_all add: wrotes_def)
  have c1: "content s1 ?st = content s ?st"
    using s1(2) log_start [OF g] by (simp add: wrotes_def upds_other)
  have d1: "dirty_blocks s1 = {}" using s1(2) d by (auto simp: wrotes_def)
  obtain s2 where s2: "write_head (s1\<lparr>l_n := 0\<rparr>) = Ok () s2" "wrote ?st (hdr [] (content s ?st)) (s1\<lparr>l_n := 0\<rparr>) s2"
    using write_head_wrote [OF log_geom_done [OF g1(1)]] s1(2) d1 c1 g1(2) by (auto simp: wrotes_def NBUF_def)
  have "bstate.more (s2\<lparr>l_n := l_n s\<rparr>) = bstate.more s1"
    using s2(2) g1(3) by (cases s1; cases s2) (simp add: wrote_def)
  then have "wrote ?st (hdr [] (content s ?st)) s1 (s2\<lparr>l_n := l_n s\<rparr>)" using s2(2) by (simp add: wrote_def)
  from wrotes_append [OF s1(2) wrote_wrotes [OF this]]
  have "wrotes ws s (s2\<lparr>l_n := l_n s\<rparr>)" by (simp add: ws_def)
  moreover have "l_n s2 = 0" using s2(2) log_fields(4) [of s2 "s1\<lparr>l_n := 0\<rparr>"] by (simp add: wrote_def)
  ultimately show ?thesis using s1(1) s2 d1 by (auto simp: wrote_def)
qed

lemma commit_trace:
  assumes g: "log_geom s bs" and ok: "cache_ok s {}" and d: "dirty_blocks s = set bs" and n: "bs \<noteq> []"
  shows "\<exists>s'. commit s = Ok () s' \<and> wrotes (commit_writes s bs) s (s'\<lparr>l_n := l_n s\<rparr>) \<and> cache_ok s' {}
    \<and> dirty_blocks s' = {} \<and> l_n s' = 0"
proof -
  obtain s1 where s1: "bindk (write_log s) (\<lambda>_. write_head) = Ok () s1"
      "wrotes (map (\<lambda>t. (log_blk s (Suc t), content s (bs ! t))) [0..<length bs] @ [(l_start s, hdr bs (bs_disk s (l_start s)))]) s s1"
      "dirty_blocks s1 = set bs" "\<forall>t<length bs. content s1 (log_blk s (Suc t)) = content s (bs ! t)"
      "content s1 (l_start s) = hdr bs (bs_disk s (l_start s))"
    using log_then_head [OF g ok d] by blast
  have g1: "log_geom s1 bs" "log_blk s1 = log_blk s" "l_start s1 = l_start s" "l_n s1 = l_n s"
    using log_wrotes [OF s1(2)] log_fields [of s1 s] g s1(2) by (simp_all add: wrotes_def)
  have m: "map (\<lambda>t. (bs ! t, content s1 (log_blk s (Suc t)))) [0..<length bs] = map (\<lambda>t. (bs ! t, content s (bs ! t))) [0..<length bs]"
    using s1(4) by (intro map_cong) auto
  obtain s2 where s2: "bindk (install_trans s1) (\<lambda>_ s. write_head (s\<lparr>l_n := 0\<rparr>)) = Ok () s2"
      "wrotes (map (\<lambda>t. (bs ! t, content s (bs ! t))) [0..<length bs] @ [(l_start s, hdr [] (content s1 (l_start s)))]) s1 (s2\<lparr>l_n := l_n s\<rparr>)"
      "cache_ok s2 {}" "dirty_blocks s2 = {}" "l_n s2 = 0"
    using install_and_clear [OF g1(1) _ disjI1 [OF s1(3)], unfolded g1 m] s1(2) unfolding wrotes_def by blast
  have "commit s = bindk (bindk (write_log s) (\<lambda>_. write_head)) (\<lambda>_ s. bindk (install_trans s) (\<lambda>_ s. write_head (s\<lparr>l_n := 0\<rparr>)))"
    using g n by (simp add: commit_def log_geom_def bindk_assoc)
  then have "commit s = Ok () s2" using s1(1) s2(1) by simp
  moreover have "wrotes (commit_writes s bs) s (s2\<lparr>l_n := l_n s\<rparr>)"
    using wrotes_append [OF s1(2) s2(2)] s1(5) by (simp add: commit_writes_def Let_def)
  ultimately show ?thesis using s2 by blast
qed


subsection \<open>Recovery\<close>

lemma fold_list_update:
  "n \<le> length xs \<Longrightarrow> fold (\<lambda>i xs. xs[i := f i]) [0..<n] xs = map f [0..<n] @ drop n xs"
proof (induction n)
  case (Suc n)
  then show ?case by (simp add: list_update_append Cons_nth_drop_Suc [symmetric])
qed simp

text \<open>The header on disk names the blocks \<open>bs\<close>.\<close>

definition header_is :: "'z lstate_scheme \<Rightarrow> uint list \<Rightarrow> bool" where
  "header_is s bs \<longleftrightarrow> (let lh = bs_disk s (l_start s) in length lh = BSIZE \<and> get_word 0 lh = of_nat (length bs)
     \<and> (\<forall>i<length bs. get_word (Suc i) lh = bs ! i))"

definition log_area :: "'z lstate_scheme \<Rightarrow> uint set" where
  "log_area s = log_blk s ` {..<LOGSIZE}"

definition fresh_cache :: "'z lstate_scheme \<Rightarrow> bool" where
  "fresh_cache s \<longleftrightarrow> cache_ok s {} \<and> dirty_blocks s = {} \<and> length (l_block s) = LOGSIZE"

lemma fresh_content: "fresh_cache s \<Longrightarrow> content s = bs_disk s"
  using synced_free [of s] by (auto simp: fresh_cache_def synced_def fun_eq_iff)

lemma sint_small: "n < LOGSIZE \<Longrightarrow> sint (of_nat n :: uint) = int n"
  by (simp add: LOGSIZE_def sint_uint unsigned_of_nat signed_take_bit_int_eq_self take_bit_nat_eq_self)

lemma recover_spec:
  assumes r: "fresh_cache r" "l_dev r = 1" and h: "header_is r bs" "length bs < LOGSIZE" "distinct bs"
    and area: "\<forall>b\<in>log_area r. b < bs_disksize r \<and> b \<notin> set bs" and bs: "\<forall>b\<in>set bs. b < bs_disksize r"
  defines "ws \<equiv> map (\<lambda>t. (bs ! t, bs_disk r (log_blk r (Suc t)))) [0..<length bs]
     @ [(l_start r, hdr [] (bs_disk r (l_start r)))]"
  shows "\<exists>r'. recover_from_log r = Ok () r' \<and> fresh_cache r' \<and> l_n r' = 0 \<and> bs_disk r' = upds ws (bs_disk r)
    \<and> l_start r' = l_start r \<and> l_dev r' = 1 \<and> bs_disksize r' = bs_disksize r"
proof -
  have ok: "cache_ok r {}" "dirty_blocks r = {}" "content r = bs_disk r"
    using r fresh_content by (auto simp: fresh_cache_def)
  have st: "l_start r < bs_disksize r"
    using area by (auto simp: log_area_def log_blk_def LOGSIZE_def dest: bspec [of _ _ 0])
  let ?b = "map (\<lambda>i. get_word (Suc i) (bs_disk r (l_start r))) [0..<length bs] @ drop (length bs) (l_block r)"
  have b: "?b = bs @ drop (length bs) (l_block r)"
    using h(1) by (auto simp: header_is_def Let_def intro!: nth_equalityI)
  let ?r = "r\<lparr>l_n := int (length bs), l_block := ?b\<rparr>"
  obtain r1 where r1: "read_head r = Ok () r1" "cache_ok r1 {}" "calm ?r r1"
    using read_head_spec [OF ok(1)] ok(2,3) r st h(1,2)
    by (auto simp: NBUF_def header_is_def Let_def sint_small fold_list_update fresh_cache_def)
  have f: "l_start r1 = l_start r" "l_dev r1 = 1" "l_n r1 = int (length bs)" "l_block r1 = bs @ drop (length bs) (l_block r)"
    using log_fields [of r1 ?r] r1(3) r(2) unfolding b by (simp_all add: calm_def)
  have v: "content r1 = bs_disk r" "bs_disk r1 = bs_disk r" "dirty_blocks r1 = {}" "bs_disksize r1 = bs_disksize r" "log_blk r1 = log_blk r"
    using r1(3) ok f by (simp_all add: calm_def log_blk_def fun_eq_iff)
  have g: "log_geom r1 bs"
    using f v h area bs r by (simp add: log_geom_def log_area_def fresh_cache_def)
  obtain r2 where r2: "bindk (install_trans r1) (\<lambda>_ s. write_head (s\<lparr>l_n := 0\<rparr>)) = Ok () r2"
      "wrotes ws r1 (r2\<lparr>l_n := l_n r1\<rparr>)" "cache_ok r2 {}" "dirty_blocks r2 = {}" "l_n r2 = 0"
    using install_and_clear [OF g r1(2), unfolded v f(1)] unfolding ws_def by blast
  have "recover_from_log r = Ok () r2" using r1(1) r2(1) by (simp add: recover_from_log_def)
  moreover have "l_start r2 = l_start r" "l_dev r2 = 1" "length (l_block r2) = LOGSIZE"
    using log_fields [of "r2\<lparr>l_n := l_n r1\<rparr>" r1] r2(2) f h(2) r(1) by (simp_all add: wrotes_def fresh_cache_def)
  ultimately show ?thesis using r2 v by (auto simp: fresh_cache_def wrotes_def)
qed

lemma readsb_spec:
  assumes ok: "cache_ok s {}" "dirty_blocks s = {}" "1 < bs_disksize s"
  shows "\<exists>s'. readsb 1 s = Ok (sb_of (content s 1)) s' \<and> cache_ok s' {} \<and> calm s s'"
proof -
  obtain b s1 where b: "bread 1 1 s = Ok b s1" "cache_ok s1 {b}" "calm s s1" "keyed s1 b 1" "b_data (bufof s1 b) = content s 1"
    using bread_any [OF ok(1) ok(3)] ok(2) by (auto simp: NBUF_def)
  have "content s1 1 = bs_disk s1 1" using synced_free [OF ok(1)] ok(2) b(3) by (simp add: calm_def synced_def)
  then obtain s2 where "brelse b s1 = Ok () s2" "cache_ok s2 {}" "calm s1 s2"
    using brelse_any [OF b(2), of b 1] b(4) by auto
  then show ?thesis using b calm_trans [OF b(3)] by (auto simp: readsb_def Let_def)
qed


subsection \<open>Adding a block to the transaction\<close>

definition log_room :: "'z lstate_scheme \<Rightarrow> bool" where
  "log_room s \<longleftrightarrow> l_n s < l_size s - 1 \<and> l_size s \<le> int LOGSIZE \<and> 1 \<le> l_outstanding s"

definition absorb :: "uint \<Rightarrow> uint list \<Rightarrow> uint list" where
  "absorb b bs = (if b \<in> set bs then bs else bs @ [b])"

lemma logged_length: "log_inv s \<Longrightarrow> int (length (logged s)) = l_n s"
  by (auto simp: log_inv_def logged_def)

lemma log_write_eq:
  assumes inv: "log_inv s" and room: "log_room s" and b: "b = b_blockno (bufof s i)"
  shows "\<exists>xs. log_write i s = Ok () (upd_buf i (\<lambda>x. x\<lparr>b_dirty := True\<rparr>)
       (s\<lparr>l_block := xs, l_n := int (length (absorb b (logged s)))\<rparr>))
    \<and> length xs = LOGSIZE \<and> take (length (absorb b (logged s))) xs = absorb b (logged s)"
proof -
  let ?n = "nat (l_n s)"
  have n: "?n < LOGSIZE" "l_n s = int ?n" "length (l_block s) = LOGSIZE" "length (logged s) = ?n"
    using inv room by (auto simp: log_inv_def log_room_def logged_def LOGSIZE_def)
  have g: "\<not> (l_n s \<ge> int LOGSIZE \<or> l_n s \<ge> l_size s - 1)" "\<not> l_outstanding s < 1"
    using room n by (auto simp: log_room_def)
  show ?thesis
  proof (cases "find_idx (\<lambda>x. x = b) (logged s)")
    case None
    then have nb: "b \<notin> set (logged s)" by (auto simp: find_idx_None)
    have "take (Suc ?n) ((l_block s)[?n := b]) = logged s @ [b]"
      using n by (simp add: logged_def take_Suc_conv_app_nth)
    then show ?thesis using g n nb None unfolding absorb_def
      by (intro exI [of _ "(l_block s)[?n := b]"]) (auto simp: log_write_def Let_def b [symmetric] logged_def add.commute)
  next
    case (Some k)
    then have k: "k < ?n" "logged s ! k = b" using n(4) by (auto simp: find_idx_Some)
    then have "b \<in> set (logged s)" using n(4) nth_mem by metis
    moreover have "(l_block s)[k := b] = l_block s" using k by (auto simp: logged_def)
    moreover have "s\<lparr>l_block := l_block s, l_n := l_n s\<rparr> = s" by simp
    ultimately show ?thesis using g n Some k unfolding absorb_def
      by (intro exI [of _ "l_block s"]) (auto simp: log_write_def Let_def b [symmetric] logged_def)
  qed
qed

lemma log_write_spec:
  assumes ok: "cache_ok s H" and i: "i \<in> H" "keyed s i b" and inv: "log_inv s" and room: "log_room s"
    and b: "b \<notin> log_area s"
  shows "\<exists>s'. log_write i s = Ok () s' \<and> cache_ok s' H \<and> log_inv s' \<and> content s' = content s \<and> bs_disk s' = bs_disk s
    \<and> bs_writes s' = bs_writes s \<and> dirty_blocks s' = insert b (dirty_blocks s) \<and> bs_disksize s' = bs_disksize s
    \<and> bs_pid s' = bs_pid s \<and> l_start s' = l_start s \<and> l_size s' = l_size s \<and> l_outstanding s' = l_outstanding s
    \<and> logged s' = absorb b (logged s) \<and> lstate.more s' = lstate.more s
    \<and> (\<forall>j\<in>H. keyed s' j = keyed s j \<and> b_data (bufof s' j) = b_data (bufof s j))"
proof -
  have bi: "b = b_blockno (bufof s i)" using i(2) by (simp add: keyed_def)
  let ?bs = "absorb b (logged s)" and ?f = "\<lambda>x::buf. x\<lparr>b_dirty := True\<rparr>"
  obtain xs where e: "log_write i s = Ok () (upd_buf i ?f (s\<lparr>l_block := xs, l_n := int (length ?bs)\<rparr>))"
      and xs: "length xs = LOGSIZE" "take (length ?bs) xs = ?bs"
    using log_write_eq [OF inv room bi] by blast
  let ?s = "upd_buf i ?f (s\<lparr>l_block := xs, l_n := int (length ?bs)\<rparr>)"
  have i': "i < NBUF" "b_valid (bufof s i)" using cache_okD(2,3) [OF ok] i by (auto simp: buf_ok_def Let_def keyed_def)
  note u = held_upd [OF ok i(1), of ?f ?s, simplified, OF i'(2)]
  have "content ?s = (content s)(b := b_data (bufof s i))" using u(2) bi by (simp add: upd_buf_def)
  then have c: "content ?s = content s" unfolding content_keyed [OF ok i'(1) i(2), symmetric] by simp
  have d: "dirty_blocks ?s = insert b (dirty_blocks s)" "cache_ok ?s H" using u(1,3) bi by (simp_all add: upd_buf_def)
  have k: "keyed ?s j = keyed s j \<and> b_data (bufof ?s j) = b_data (bufof s j)" if "j \<in> H" for j
    using that cache_okD(2) [OF ok] u(4) [of j] u(5) [of j] by (auto simp: upd_buf_def fun_eq_iff)
  have lg: "logged ?s = ?bs" "length ?bs \<le> Suc (length (logged s))" "set ?bs = insert b (set (logged s))" "distinct ?bs"
    using xs inv by (auto simp: logged_def absorb_def upd_buf_def log_inv_def)
  have b': "\<forall>t<LOGSIZE. log_blk s t \<noteq> b" using b by (auto simp: log_area_def)
  have "int (length ?bs) < int LOGSIZE" using logged_length [OF inv] lg(2) room by (simp add: log_room_def)
  then have "log_inv ?s"
    using inv lg d(1) xs b' by (simp add: log_inv_def log_blk_def upd_buf_def)
  then show ?thesis using e c d k lg by (simp add: upd_buf_def)
qed


text \<open>One block changed inside a transaction: read, modify, \<open>log_write\<close>, release.\<close>

lemma log_inv_room: "log_inv s \<Longrightarrow> card (dirty_blocks s) < NBUF"
  using card_length [of "logged s"] by (auto simp: log_inv_def logged_def LOGSIZE_def NBUF_def)

lemma tx_update:
  assumes ok: "cache_ok s {}" and inv: "log_inv s" and room: "log_room s"
    and b: "b < bs_disksize s" "b \<notin> log_area s"
  shows "\<exists>i s1 s2 s3. bread 1 b s = Ok i s1 \<and> b_data (bufof s1 i) = content s b
    \<and> log_write i (set_bdata i d s1) = Ok () s2 \<and> brelse i s2 = Ok () s3 \<and> cache_ok s3 {} \<and> log_inv s3
    \<and> content s3 = (content s)(b := d) \<and> bs_disk s3 = bs_disk s \<and> bs_writes s3 = bs_writes s
    \<and> bs_disksize s3 = bs_disksize s \<and> bs_pid s3 = bs_pid s \<and> l_start s3 = l_start s \<and> l_size s3 = l_size s
    \<and> l_outstanding s3 = l_outstanding s \<and> logged s3 = absorb b (logged s) \<and> lstate.more s3 = lstate.more s"
proof -
  obtain i s1 where r: "bread 1 b s = Ok i s1" "cache_ok s1 {i}" "calm s s1" "keyed s1 i b" "b_data (bufof s1 i) = content s b"
    using bread_any [OF ok b(1)] log_inv_room [OF inv] by auto
  let ?s = "set_bdata i d s1"
  have m: "bstate.more ?s = bstate.more s" using r(3) by (simp add: set_bdata_def calm_def)
  have i': "i < length (bs_buf s1)" using cache_okD(1,2) [OF r(2)] by auto
  have u: "cache_ok ?s {i}" "content ?s = (content s)(b := d)" "dirty_blocks ?s = dirty_blocks s" "keyed ?s i b"
    "bs_disk ?s = bs_disk s" "bs_disksize ?s = bs_disksize s" "bs_writes ?s = bs_writes s" "bs_pid ?s = bs_pid s"
    using set_data_spec [OF r(2), of i d] r(3,4) i' by (simp_all add: set_bdata_def calm_def keyed_def)
  note f = log_fields [OF m]
  have inv': "log_inv ?s" "log_room ?s" "b \<notin> log_area ?s" "logged ?s = logged s"
    using inv room b(2) u(3,5,6) f
    by (simp_all add: log_inv_def log_room_def log_area_def log_blk_def logged_def)
  obtain s2 where s2: "log_write i ?s = Ok () s2" "cache_ok s2 {i}" "log_inv s2" "content s2 = content ?s"
      "bs_disk s2 = bs_disk ?s" "bs_writes s2 = bs_writes ?s" "dirty_blocks s2 = insert b (dirty_blocks ?s)"
      "bs_disksize s2 = bs_disksize ?s" "bs_pid s2 = bs_pid ?s" "l_start s2 = l_start ?s" "l_size s2 = l_size ?s"
      "l_outstanding s2 = l_outstanding ?s" "logged s2 = absorb b (logged ?s)" "lstate.more s2 = lstate.more ?s"
      "keyed s2 i = keyed ?s i"
    using log_write_spec [OF u(1) _ u(4) inv'(1-3)] by blast
  obtain s3 where s3: "brelse i s2 = Ok () s3" "cache_ok s3 {}" "calm s2 s3"
    using brelse_any [OF s2(2), of i b] s2(7,15) u(4) by auto
  have m3: "bstate.more s3 = bstate.more s2" using s3(3) by (simp add: calm_def)
  note f3 = log_fields [OF m3]
  have "lstate.more s3 = lstate.more s" using m m3 s2(14) by (cases s3; cases s2; cases s; cases ?s) simp
  moreover have "log_inv s3" "logged s3 = logged s2"
    using s2(3) s3(3) f3 by (simp_all add: log_inv_def log_blk_def logged_def calm_def)
  ultimately show ?thesis using r(1,5) s2 s3 u f f3 inv'(4) by (auto simp: calm_def)
qed

subsection \<open>Crashes\<close>

lemma log_inv_geom: "cache_ok s {} \<Longrightarrow> log_inv s \<Longrightarrow> log_geom s (logged s)"
  using dirty_lt [of s "{}"] by (auto simp: log_inv_def log_geom_def logged_def)

lemma log_area_split:
  assumes g: "log_geom s bs"
  shows "length bs < LOGSIZE" "l_start s \<notin> set bs" "t < length bs \<Longrightarrow> log_blk s (Suc t) \<notin> set bs"
    "t < length bs \<Longrightarrow> log_blk s (Suc t) \<noteq> l_start s" "l_start s \<in> log_area s"
    "distinct (map fst (map (\<lambda>t. (log_blk s (Suc t), content s (bs ! t))) [0..<length bs]))"
    "distinct (map fst (map (\<lambda>t. (bs ! t, content s (bs ! t))) [0..<length bs]))"
    "fst ` set (map (\<lambda>t. (log_blk s (Suc t), content s (bs ! t))) [0..<length bs]) \<subseteq> log_area s"
    "l_start s \<notin> fst ` set (map (\<lambda>t. (log_blk s (Suc t), content s (bs ! t))) [0..<length bs])"
proof -
  show len: "length bs < LOGSIZE" and "l_start s \<notin> set bs" using g log_start [OF g] by (auto simp: log_geom_def)
  show "log_blk s (Suc t) \<notin> set bs" if "t < length bs" using log_geomD(6) [OF g that] .
  show st: "log_blk s (Suc t) \<noteq> l_start s" if "t < length bs" for t using that len by (intro log_blk_start) linarith
  show "l_start s \<in> log_area s" unfolding log_area_def by (rule image_eqI [of _ _ 0]) (auto simp: log_blk_def LOGSIZE_def)
  have "i = j" if "i < length bs" "j < length bs" "log_blk s (Suc i) = log_blk s (Suc j)" for i j
    using that len log_blk_inj [of "Suc i" "Suc j" s] by auto
  then show "distinct (map fst (map (\<lambda>t. (log_blk s (Suc t), content s (bs ! t))) [0..<length bs]))"
    by (auto simp: distinct_map inj_on_def comp_def)
  show "distinct (map fst (map (\<lambda>t. (bs ! t, content s (bs ! t))) [0..<length bs]))" using g by (simp add: comp_def map_nth log_geom_def)
  show "fst ` set (map (\<lambda>t. (log_blk s (Suc t), content s (bs ! t))) [0..<length bs]) \<subseteq> log_area s"
    using len by (auto simp: log_area_def)
  show "l_start s \<notin> fst ` set (map (\<lambda>t. (log_blk s (Suc t), content s (bs ! t))) [0..<length bs])"
    using st [symmetric] by (simp add: image_image image_iff)
qed

text \<open>The disk a crash leaves after the first \<open>k\<close> writes of a commit.\<close>

lemma crash_disk:
  assumes g: "log_geom s bs" and ok: "cache_ok s {}" and d: "dirty_blocks s = set bs"
    and h: "length (bs_disk s (l_start s)) = BSIZE" "get_word 0 (bs_disk s (l_start s)) = 0"
    and k: "k \<le> length (commit_writes s bs)"
    and e: "bs_disk r = upds (take k (commit_writes s bs)) (bs_disk s)" "l_start r = l_start s"
  shows "\<exists>cs. header_is r cs \<and> (cs = [] \<or> cs = bs \<and> (\<forall>t<length bs. bs_disk r (log_blk s (Suc t)) = content s (bs ! t)))
    \<and> (\<forall>b. b \<notin> log_area s \<longrightarrow> b \<notin> set cs \<longrightarrow> bs_disk r b = (if k \<le> length bs then bs_disk s b else content s b))
    \<and> (k \<le> length bs \<longrightarrow> cs = [])"
proof -
  let ?st = "l_start s" and ?n = "length bs" and ?lb = "\<lambda>t. log_blk s (Suc t)"
  let ?w1 = "map (\<lambda>t. (?lb t, content s (bs ! t))) [0..<?n]" and ?w2 = "map (\<lambda>t. (bs ! t, content s (bs ! t))) [0..<?n]"
  let ?h = "hdr bs (bs_disk s ?st)"
  note A = log_area_split [OF g]
  have cw: "commit_writes s bs = ?w1 @ (?st, ?h) # ?w2 @ [(?st, hdr [] ?h)]" by (simp add: commit_writes_def Let_def)
  have clean: "bs_disk s b = content s b" if "b \<notin> set bs" for b using synced_free [OF ok] d that by (auto simp: synced_def)
  have hh: "length ?h = BSIZE" "get_word 0 ?h = of_nat ?n" "\<forall>i<?n. get_word (Suc i) ?h = bs ! i"
    "length (hdr [] ?h) = BSIZE" "get_word 0 (hdr [] ?h) = 0"
    using hdr_words [OF h(1) A(1)] hdr_words [of ?h "[]"] by (simp_all add: LOGSIZE_def)
  have out: "b \<noteq> ?st \<and> upds ?w1 f b = f b" if "b \<notin> log_area s" for b f
    using that A(5) subsetD [OF A(8)] by (intro conjI upds_other) blast+
  consider "k \<le> ?n" | j where "k = Suc (?n + j)" "j \<le> ?n" | "k = Suc (Suc (?n + ?n))"
  proof -
    assume c: "k \<le> ?n \<Longrightarrow> thesis" "\<And>j. k = Suc (?n + j) \<Longrightarrow> j \<le> ?n \<Longrightarrow> thesis" "k = Suc (Suc (?n + ?n)) \<Longrightarrow> thesis"
    have "k \<le> Suc (Suc (?n + ?n))" using k by (simp add: cw)
    then show thesis using c(1,3) c(2) [of "k - Suc ?n"] by linarith
  qed
  then show ?thesis
  proof cases
    case 1
    then have r: "bs_disk r = upds (take k ?w1) (bs_disk s)" by (simp add: e(1) cw)
    have sub: "fst ` set (take k ?w1) \<subseteq> fst ` set ?w1" using set_take_subset [of k ?w1] by blast
    have eq: "bs_disk r b = bs_disk s b" if "b \<notin> fst ` set ?w1" for b unfolding r using that sub by (intro upds_other) blast
    then have "bs_disk r b = bs_disk s b" if "b \<notin> log_area s" for b using that A(8) by blast
    moreover have "bs_disk r ?st = bs_disk s ?st" by (rule eq) (rule A(9))
    ultimately show ?thesis using 1 h e(2) by (intro exI [of _ "[]"]) (auto simp: header_is_def Let_def)
  next
    case 2
    then have r: "bs_disk r = upds (take j ?w2) ((upds ?w1 (bs_disk s))(?st := ?h))" by (simp add: e(1) cw)
    have "fst ` set (take j ?w2) \<subseteq> fst ` set ?w2" using set_take_subset [of j ?w2] by blast
    then have "fst ` set (take j ?w2) \<subseteq> set bs" by simp
    then have r': "bs_disk r b = ((upds ?w1 (bs_disk s))(?st := ?h)) b" if "b \<notin> set bs" for b
      unfolding r using that by (intro upds_other) blast
    have "bs_disk r (?lb t) = content s (bs ! t)" if "t < ?n" for t
      using r' [OF A(3) [OF that]] A(4) [OF that] upds_nth [OF A(6), of "?lb t" "content s (bs ! t)"] that by auto
    moreover have "bs_disk r ?st = ?h" using r' [OF A(2)] by simp
    moreover have "bs_disk r b = content s b" if "b \<notin> log_area s" "b \<notin> set bs" for b
      using r' [OF that(2)] out [OF that(1)] clean [OF that(2)] by simp
    ultimately show ?thesis using 2 hh e(2) by (intro exI [of _ bs]) (auto simp: header_is_def Let_def)
  next
    case 3
    then have r: "bs_disk r = (upds ?w2 ((upds ?w1 (bs_disk s))(?st := ?h)))(?st := hdr [] ?h)" by (simp add: e(1) cw)
    have "bs_disk r b = content s b" if b: "b \<notin> log_area s" for b
    proof (cases "b \<in> set bs")
      case True
      then have "upds ?w2 f b = content s b" for f using A(7) by (intro upds_nth) (auto simp: in_set_conv_nth)
      then show ?thesis using r out [OF b] by simp
    next
      case False
      then have "upds ?w2 f b = f b" for f by (intro upds_other) simp
      then show ?thesis using r out [OF b] clean [OF False] by simp
    qed
    then show ?thesis using 3 hh e(2) r by (intro exI [of _ "[]"]) (auto simp: header_is_def Let_def)
  qed
qed


lemma initlog_spec:
  assumes r: "cache_ok r {}" "dirty_blocks r = {}" "length (l_block r) = LOGSIZE" "1 < bs_disksize r"
  defines "sb \<equiv> sb_of (bs_disk r 1)"
  shows "\<exists>r1. initlog 1 r = recover_from_log r1 \<and> fresh_cache r1 \<and> l_dev r1 = 1 \<and> l_start r1 = sb_logstart sb
    \<and> l_size r1 = sint (sb_nlog sb) \<and> bs_disk r1 = bs_disk r \<and> bs_disksize r1 = bs_disksize r"
proof -
  have f: "fresh_cache r" using r by (simp add: fresh_cache_def)
  obtain s where s: "readsb 1 r = Ok sb s" "cache_ok s {}" "calm r s"
    using readsb_spec [OF r(1,2,4)] fresh_content [OF f] by (auto simp: sb_def)
  let ?s = "s\<lparr>l_start := sb_logstart sb, l_size := sint (sb_nlog sb), l_dev := 1\<rparr>"
  have "cache_ok ?s {}" "dirty_blocks ?s = {}" using s r(2) by (simp_all add: cache_view_defs calm_def)
  moreover have "length (l_block ?s) = LOGSIZE" using log_fields(5) [of s r] s(3) r(3) by (simp add: calm_def)
  ultimately show ?thesis using s
    by (intro exI [of _ ?s]) (simp add: initlog_def LOGSIZE_def BSIZE_def fresh_cache_def calm_def)
qed

lemma recovers:
  assumes g: "log_geom s bs" and r: "fresh_cache r" "l_dev r = 1" "l_start r = l_start s" "bs_disksize r = bs_disksize s"
    and h: "header_is r cs" "cs = [] \<or> cs = bs"
  shows "\<exists>r'. recover_from_log r = Ok () r' \<and> log_inv r' \<and> cache_ok r' {} \<and> l_n r' = 0 \<and> content r' = bs_disk r'
    \<and> (\<forall>t<length cs. bs_disk r' (cs ! t) = bs_disk r (log_blk s (Suc t)))
    \<and> (\<forall>b. b \<notin> log_area s \<longrightarrow> b \<notin> set cs \<longrightarrow> bs_disk r' b = bs_disk r b)"
proof -
  have lb: "log_blk r = log_blk s" "log_area r = log_area s" using r(3) by (simp_all add: log_blk_def log_area_def fun_eq_iff)
  note A = log_area_split [OF g]
  have c: "length cs < LOGSIZE" "distinct cs" "\<forall>b\<in>log_area r. b < bs_disksize r \<and> b \<notin> set cs" "\<forall>b\<in>set cs. b < bs_disksize r"
    using h(2) g A(1) r(4) by (auto simp: log_geom_def log_area_def lb)
  let ?w = "map (\<lambda>t. (cs ! t, bs_disk r (log_blk r (Suc t)))) [0..<length cs]"
  let ?h = "hdr [] (bs_disk r (l_start r))"
  obtain r' where r': "recover_from_log r = Ok () r'" "fresh_cache r'" "l_n r' = 0"
      "bs_disk r' = upds (?w @ [(l_start r, ?h)]) (bs_disk r)"
      "l_start r' = l_start r" "l_dev r' = 1" "bs_disksize r' = bs_disksize r"
    using recover_spec [OF r(1,2) h(1) c] by blast
  have st: "l_start r \<notin> set cs" "l_start r \<in> log_area s" using A(2,5) h(2) r(3) by auto
  have "length ?h = BSIZE" "get_word 0 ?h = 0"
    using hdr_words [of "bs_disk r (l_start r)" "[]"] h(1) by (simp_all add: header_is_def Let_def LOGSIZE_def)
  then have "log_inv r'"
    using r' r(2) c(3) by (auto simp: log_inv_def fresh_cache_def logged_def log_area_def log_blk_def LOGSIZE_def)
  moreover have "bs_disk r' (cs ! t) = bs_disk r (log_blk s (Suc t))" if "t < length cs" for t
  proof -
    have "upds ?w (bs_disk r) (cs ! t) = bs_disk r (log_blk r (Suc t))"
      using c(2) that by (intro upds_nth) (auto simp: comp_def map_nth)
    moreover have "cs ! t \<noteq> l_start r" using st(1) that nth_mem by metis
    ultimately show ?thesis using r'(4) lb by simp
  qed
  moreover have "bs_disk r' b = bs_disk r b" if "b \<notin> log_area s" "b \<notin> set cs" for b
    using r'(4) that st(2) upds_other [of b ?w] by auto
  ultimately show ?thesis using r'(1,2,3) fresh_content by (auto simp: fresh_cache_def)
qed

lemma reboot:
  assumes g: "log_geom s bs" and ok: "cache_ok s {}" and d: "dirty_blocks s = set bs"
    and h: "length (bs_disk s (l_start s)) = BSIZE" "get_word 0 (bs_disk s (l_start s)) = 0"
    and sb: "sb_logstart (sb_of (bs_disk s 1)) = l_start s" "1 < bs_disksize s" "1 \<notin> log_area s" "1 \<notin> dirty_blocks s"
    and k: "k \<le> length (commit_writes s bs)"
    and r: "bs_buf r = replicate (Suc NBUF) zero_buf" "bs_disk r = upds (take k (commit_writes s bs)) (bs_disk s)"
      "bs_disksize r = bs_disksize s" "length (l_block r) = LOGSIZE"
  shows "\<exists>r'. initlog 1 (binit r) = Ok () r' \<and> log_inv r' \<and> cache_ok r' {} \<and> content r' = bs_disk r' \<and> l_n r' = 0
    \<and> (\<forall>b. b \<notin> log_area s \<longrightarrow> bs_disk r' b = (if k \<le> length bs then bs_disk s b else content s b))"
proof -
  have one: "bs_disk r 1 = bs_disk s 1"
  proof -
    have "fst ` set (commit_writes s bs) \<subseteq> log_area s \<union> set bs"
      using log_area_split(5,8) [OF g] by (auto simp: commit_writes_def Let_def)
    then have "1 \<notin> fst ` set (take k (commit_writes s bs))" using sb(3,4) d set_take_subset by fastforce
    then show ?thesis using r(2) upds_other by simp
  qed
  have "l_block (binit r) = l_block r" by (rule log_fields(5)) (rule more_binit)
  then obtain r1 where r1: "initlog 1 (binit r) = recover_from_log r1" "fresh_cache r1" "l_dev r1 = 1" "l_start r1 = l_start s"
      "bs_disk r1 = bs_disk r" "bs_disksize r1 = bs_disksize s"
    using initlog_spec [of "binit r"] binit_ok [OF r(1)] sb(1,2) r(3,4) one by auto
  obtain cs where cs: "header_is r1 cs" "cs = [] \<or> cs = bs \<and> (\<forall>t<length bs. bs_disk r1 (log_blk s (Suc t)) = content s (bs ! t))"
      "\<forall>b. b \<notin> log_area s \<longrightarrow> b \<notin> set cs \<longrightarrow> bs_disk r1 b = (if k \<le> length bs then bs_disk s b else content s b)"
      "k \<le> length bs \<longrightarrow> cs = []"
    using crash_disk [OF g ok d h k, of r1] r1(4,5) r(2) by auto
  obtain r' where r': "recover_from_log r1 = Ok () r'" "log_inv r'" "cache_ok r' {}" "l_n r' = 0" "content r' = bs_disk r'"
      "\<forall>t<length cs. bs_disk r' (cs ! t) = bs_disk r1 (log_blk s (Suc t))"
      "\<forall>b. b \<notin> log_area s \<longrightarrow> b \<notin> set cs \<longrightarrow> bs_disk r' b = bs_disk r1 b"
    using recovers [OF g r1(2-4,6) cs(1)] cs(2) by blast
  have "bs_disk r' b = (if k \<le> length bs then bs_disk s b else content s b)" if "b \<notin> log_area s" for b
  proof (cases "b \<in> set cs")
    case True
    then obtain t where "t < length cs" "b = cs ! t" by (auto simp: in_set_conv_nth)
    then show ?thesis using r'(6) cs(2,4) by auto
  next
    case False
    then show ?thesis using r'(7) cs(3) that by simp
  qed
  then show ?thesis using r' r1(1) by auto
qed

lemma commit_contents:
  assumes g: "log_geom s bs" and b: "b \<notin> log_area s"
  shows "upds (commit_writes s bs) (content s) b = content s b"
proof -
  note A = log_area_split [OF g]
  let ?w2 = "map (\<lambda>t. (bs ! t, content s (bs ! t))) [0..<length bs]"
  have 1: "upds (map (\<lambda>t. (log_blk s (Suc t), content s (bs ! t))) [0..<length bs]) f b = f b" for f
    using b subsetD [OF A(8)] by (intro upds_other) blast
  have 2: "upds ?w2 f b = (if b \<in> set bs then content s b else f b)" for f
    using upds_nth [OF A(7), of b "content s b"] upds_other [of b ?w2] by (auto simp: in_set_conv_nth)
  show ?thesis using 1 2 b A(5) by (auto simp: commit_writes_def Let_def)
qed

subsection \<open>Properties\<close>

text \<open>
  Claim C2. A transaction is atomic with respect to crashes. Take a state with a pending transaction,
  its commit, and a crash after any number \<open>k\<close> of the disk writes of that commit. Booting from the disk
  the crash left (\<^verbatim>\<open>binit\<close> and \<^verbatim>\<open>initlog\<close> with its recovery) succeeds and leaves outside the log
  area exactly the old disk when the header had not yet been written, and exactly the contents the
  transaction produced otherwise; the log is empty again. A commit that runs to the end leaves the
  contents of the transaction.
\<close>

theorem log_crash_atomic:
  assumes "cache_ok s {}" "log_inv s" "0 < l_n s"
    and "sb_logstart (sb_of (bs_disk s 1)) = l_start s" "1 < bs_disksize s" "1 \<notin> log_area s" "1 \<notin> dirty_blocks s"
  shows "\<exists>s' ws. commit s = Ok () s' \<and> bs_writes s' = bs_writes s @ ws
    \<and> (\<forall>b. b \<notin> log_area s \<longrightarrow> bs_disk s' b = content s b)
    \<and> (\<forall>k (r :: 'z lstate_scheme). k \<le> length ws \<and> bs_buf r = replicate (Suc NBUF) zero_buf
         \<and> bs_disk r = upds (take k ws) (bs_disk s) \<and> bs_disksize r = bs_disksize s \<and> length (l_block r) = LOGSIZE \<longrightarrow>
         (\<exists>r'. initlog 1 (binit r) = Ok () r' \<and> log_inv r' \<and> cache_ok r' {} \<and> content r' = bs_disk r' \<and> l_n r' = 0
            \<and> (\<forall>b. b \<notin> log_area s \<longrightarrow> bs_disk r' b = (if k \<le> nat (l_n s) then bs_disk s b else content s b))))"
proof -
  let ?bs = "logged s"
  have g: "log_geom s ?bs" by (rule log_inv_geom [OF assms(1,2)])
  have d: "dirty_blocks s = set ?bs" and h: "length (bs_disk s (l_start s)) = BSIZE" "get_word 0 (bs_disk s (l_start s)) = 0"
    and n: "length ?bs = nat (l_n s)" "?bs \<noteq> []"
    using assms(2,3) by (auto simp: log_inv_def logged_def)
  obtain s' where s': "commit s = Ok () s'" "wrotes (commit_writes s ?bs) s (s'\<lparr>l_n := l_n s\<rparr>)"
      "cache_ok s' {}" "dirty_blocks s' = {}"
    using commit_trace [OF g assms(1) d n(2)] by blast
  have "bs_disk s' = content s'" using synced_free [OF s'(3)] s'(4) by (simp add: synced_def fun_eq_iff)
  then have "bs_disk s' b = content s b" if "b \<notin> log_area s" for b
    using s'(2) commit_contents [OF g that] by (simp add: wrotes_def)
  moreover have "bs_writes s' = bs_writes s @ commit_writes s ?bs" using s'(2) by (simp add: wrotes_def)
  ultimately show ?thesis
    using s'(1) reboot [OF g assms(1) d h assms(4-7)] unfolding n(1) [symmetric]
    by (intro exI [of _ s'] exI [of _ "commit_writes s ?bs"] conjI allI impI) (assumption | blast)+
qed


definition demo_disk :: "uint \<Rightarrow> byte list" where
  "demo_disk b = (if b = 1 then put_word 4 2 (replicate BSIZE 0) else replicate BSIZE 0)"

definition demo_ls :: lstate where
  "demo_ls = \<lparr>bs_buf = replicate (Suc NBUF) zero_buf, bs_disk = demo_disk, bs_disksize = 1000, bs_pid = 3,
     bs_woken = [], bs_writes = [], l_start = 2, l_size = 30, l_outstanding = 1, l_committing = False, l_dev = 1,
     l_n = 0, l_block = replicate LOGSIZE 0\<rparr>"

lemma demo_ls_ok:
  "cache_ok (binit demo_ls) {}" "log_inv (binit demo_ls)" "log_room (binit demo_ls)" "content (binit demo_ls) = demo_disk"
  "bs_disk (binit demo_ls) = demo_disk" "bs_disksize (binit demo_ls) = 1000" "l_start (binit demo_ls) = 2"
  "logged (binit demo_ls) = []" "x < 2 \<or> 32 \<le> x \<Longrightarrow> x \<notin> log_area (binit demo_ls)"
proof -
  have b: "bs_buf demo_ls = replicate (Suc NBUF) zero_buf" by (simp add: demo_ls_def)
  note B = binit_ok [OF b] log_fields [OF more_binit, of demo_ls]
  show "cache_ok (binit demo_ls) {}" "content (binit demo_ls) = demo_disk" "bs_disk (binit demo_ls) = demo_disk"
    "bs_disksize (binit demo_ls) = 1000" "l_start (binit demo_ls) = 2" "logged (binit demo_ls) = []" "log_room (binit demo_ls)"
    using B by (simp_all add: demo_ls_def logged_def log_room_def LOGSIZE_def)
  have z: "get_word 0 (replicate BSIZE 0) = 0" by (simp add: get_word_def of_le_def BSIZE_def)
  have t: "2 + word_of_nat t < (1000::uint) \<and> \<not> 2 + word_of_nat t < (2::uint) \<and> \<not> 32 \<le> 2 + (word_of_nat t::uint)" if "t < 30" for t
  proof -
    have "unat (2 + word_of_nat t :: uint) = 2 + t" using that by (simp add: unat_word_ariths unat_of_nat)
    then show ?thesis using that by (simp add: word_less_nat_alt word_le_nat_alt)
  qed
  then show "log_inv (binit demo_ls)"
    using B z by (simp add: log_inv_def log_blk_def demo_ls_def logged_def demo_disk_def LOGSIZE_def)
  show "x \<notin> log_area (binit demo_ls)" if "x < 2 \<or> 32 \<le> x"
    using that t B by (auto simp: log_area_def log_blk_def demo_ls_def LOGSIZE_def)
qed

lemma demo_pending:
  "\<exists>s :: lstate. cache_ok s {} \<and> log_inv s \<and> l_n s = 1 \<and> content s = demo_disk(50 := replicate BSIZE 7)
    \<and> bs_disk s = demo_disk \<and> l_start s = 2 \<and> bs_disksize s = 1000 \<and> dirty_blocks s = {50}
    \<and> log_area s = log_area (binit demo_ls)"
proof -
  obtain s3 :: lstate where s3: "cache_ok s3 {}" "log_inv s3" "content s3 = demo_disk(50 := replicate BSIZE 7)"
      "bs_disk s3 = demo_disk" "bs_disksize s3 = 1000" "l_start s3 = 2" "logged s3 = absorb 50 []"
    using tx_update [OF demo_ls_ok(1-3), of 50 "replicate BSIZE 7"] demo_ls_ok(4-9) by auto
  then have "l_n s3 = 1" using logged_length [OF s3(2)] by (simp add: absorb_def)
  moreover have "dirty_blocks s3 = {50}" using s3(2,7) by (auto simp: log_inv_def absorb_def)
  moreover have "log_area s3 = log_area (binit demo_ls)" using s3(6) demo_ls_ok(7) by (simp add: log_area_def log_blk_def)
  ultimately show ?thesis using s3 by (intro exI [of _ s3]) simp
qed

theorem log_crash_atomic_witness:
  "\<exists>s s' :: lstate. \<exists>ws. commit s = Ok () s' \<and> bs_disk s 50 = replicate BSIZE 0 \<and> bs_disk s' 50 = replicate BSIZE 7
    \<and> bs_writes s' = bs_writes s @ ws
    \<and> (\<forall>k. k \<le> length ws \<longrightarrow> (\<exists>r r' :: lstate. bs_disk r = upds (take k ws) (bs_disk s)
         \<and> initlog 1 (binit r) = Ok () r' \<and> bs_disk r' 50 = replicate BSIZE (if k \<le> 1 then 0 else 7)))"
proof -
  obtain s :: lstate where s: "cache_ok s {}" "log_inv s" "l_n s = 1" "content s = demo_disk(50 := replicate BSIZE 7)"
      "bs_disk s = demo_disk" "l_start s = 2" "bs_disksize s = 1000" "dirty_blocks s = {50}" "log_area s = log_area (binit demo_ls)"
    using demo_pending by blast
  have a: "1 \<notin> log_area s" "50 \<notin> log_area s" using demo_ls_ok(9) s(9) by auto
  have sb: "sb_logstart (sb_of (bs_disk s 1)) = l_start s"
    using s(5,6) by (simp add: sb_of_def demo_disk_def BSIZE_def)
  obtain s' ws where w: "commit s = Ok () s'" "bs_writes s' = bs_writes s @ ws" "bs_disk s' 50 = replicate BSIZE 7"
    and crash: "\<And>k (r :: lstate). k \<le> length ws \<and> bs_buf r = replicate (Suc NBUF) zero_buf
         \<and> bs_disk r = upds (take k ws) (bs_disk s) \<and> bs_disksize r = bs_disksize s \<and> length (l_block r) = LOGSIZE \<Longrightarrow>
         \<exists>r'. initlog 1 (binit r) = Ok () r' \<and> bs_disk r' 50 = (if k \<le> 1 then bs_disk s 50 else content s 50)"
    using log_crash_atomic [OF s(1,2) _ sb _ a(1), where ?'z = unit] s(3,4,7,8) a(2) by fastforce
  have "\<exists>r r' :: lstate. bs_disk r = upds (take k ws) (bs_disk s)
         \<and> initlog 1 (binit r) = Ok () r' \<and> bs_disk r' 50 = replicate BSIZE (if k \<le> 1 then 0 else 7)" if k: "k \<le> length ws" for k
  proof -
    let ?r = "demo_ls\<lparr>bs_disk := upds (take k ws) (bs_disk s)\<rparr>"
    obtain r' where "initlog 1 (binit ?r) = Ok () r'" "bs_disk r' 50 = (if k \<le> 1 then bs_disk s 50 else content s 50)"
      using crash [of k ?r] k s(7) by (auto simp: demo_ls_def)
    then show ?thesis using s(4,5) by (intro exI [of _ ?r] exI [of _ r']) (simp add: demo_disk_def)
  qed
  moreover have "bs_disk s 50 = replicate BSIZE 0" using s(5) by (simp add: demo_disk_def)
  ultimately show ?thesis using w by blast
qed


text \<open>Change the blocks of a list one after the other inside a transaction.\<close>

primrec tx_writes :: "byte list \<Rightarrow> uint list \<Rightarrow> 'z lstate_scheme \<Rightarrow> (unit, 'z lstate_scheme) kres" where
  "tx_writes d [] s = Ok () s"
| "tx_writes d (b # bs) s =
     bindk (bread 1 b s) (\<lambda>i s. bindk (log_write i (set_bdata i d s)) (\<lambda>_ s. bindk (brelse i s) (\<lambda>_. tx_writes d bs)))"

lemma tx_writes_full:
  assumes "cache_ok s {}" "log_inv s" "l_size s = int LOGSIZE" "1 \<le> l_outstanding s"
    and "distinct (logged s @ bs)" "\<forall>b\<in>set bs. b < bs_disksize s \<and> b \<notin> log_area s"
    and "length (logged s) + length bs = LOGSIZE"
  shows "tx_writes d bs s = Panic ''too big a transaction''"
  using assms
proof (induction bs arbitrary: s)
  case Nil
  then show ?case by (auto simp: log_inv_def logged_def)
next
  case (Cons b bs)
  note n = logged_length [OF Cons.prems(2)]
  have b: "b < bs_disksize s" "b \<notin> log_area s" using Cons.prems(6) by auto
  show ?case
  proof (cases "bs = []")
    case True
    then have "l_n s = int LOGSIZE - 1" using Cons.prems(7) n by simp
    moreover obtain i s1 where "bread 1 b s = Ok i s1" "calm s s1"
      using bread_any [OF Cons.prems(1) b(1)] log_inv_room [OF Cons.prems(2)] by auto
    ultimately show ?thesis
      using Cons.prems(3) log_fields [of s1 s] log_fields [of "set_bdata i d s1" s1]
      by (simp add: calm_def log_write_def set_bdata_def)
  next
    case False
    then have "length (logged s) + 1 < LOGSIZE" using Cons.prems(7) by (cases bs) auto
    then have room: "log_room s" using Cons.prems(3,4) n by (simp add: log_room_def)
    obtain i s1 s2 s3 where s: "bread 1 b s = Ok i s1" "log_write i (set_bdata i d s1) = Ok () s2" "brelse i s2 = Ok () s3"
        "cache_ok s3 {}" "log_inv s3" "bs_disksize s3 = bs_disksize s" "l_start s3 = l_start s" "l_size s3 = l_size s"
        "l_outstanding s3 = l_outstanding s" "logged s3 = absorb b (logged s)"
      using tx_update [OF Cons.prems(1,2) room b] by blast
    have a: "log_area s3 = log_area s" "logged s3 = logged s @ [b]"
      using s(7,10) Cons.prems(5) by (auto simp: log_area_def log_blk_def absorb_def)
    have "tx_writes d bs s3 = Panic ''too big a transaction''"
      using Cons.prems s(6,8,9) a by (intro Cons.IH [OF s(4,5)]) auto
    then show ?thesis using s(1-3) by simp
  qed
qed

text \<open>
  Claim C30. The space a transaction reserves is one block more than the log can hold. With an empty log
  of \<open>LOGSIZE\<close> blocks, as \<^verbatim>\<open>mkfs\<close> makes it, \<^verbatim>\<open>begin_op\<close> admits three operations of
  \<open>MAXOPBLOCKS\<close> blocks each and puts a fourth to sleep; when the three operations use the thirty
  blocks they were admitted for, \<^verbatim>\<open>log_write\<close> panics.
\<close>

theorem log_reservation_short:
  assumes "cache_ok s {}" "log_inv s" "l_n s = 0" "l_outstanding s = 0" "\<not> l_committing s" "l_size s = int LOGSIZE"
    and "distinct bs" "int (length bs) = 3 * MAXOPBLOCKS" "\<forall>b\<in>set bs. b < bs_disksize s \<and> b \<notin> log_area s"
  shows "\<exists>s'. timesk 3 begin_op s = Ok () s' \<and> begin_op s' = Sleep ChLog s'
    \<and> tx_writes d bs s' = Panic ''too big a transaction''"
proof -
  let ?s = "s\<lparr>l_outstanding := 3\<rparr>"
  have b: "timesk 3 begin_op s = Ok () ?s" "begin_op ?s = Sleep ChLog ?s"
    using assms(3-5) by (simp_all add: eval_nat_numeral begin_op_def MAXOPBLOCKS_def LOGSIZE_def)
  have v: "cache_ok ?s {}" "dirty_blocks ?s = dirty_blocks s" using assms(1) by (simp_all add: cache_view_defs)
  then have "log_inv ?s" using assms(2) by (simp add: log_inv_def log_blk_def logged_def)
  moreover have "log_area ?s = log_area s" by (simp add: log_area_def log_blk_def)
  ultimately have "tx_writes d bs ?s = Panic ''too big a transaction''"
    using assms v by (intro tx_writes_full) (auto simp: logged_def MAXOPBLOCKS_def LOGSIZE_def)
  then show ?thesis using b by blast
qed

definition demo_ls0 :: lstate where
  "demo_ls0 = (binit demo_ls)\<lparr>l_outstanding := 0\<rparr>"

theorem log_reservation_short_witness:
  "\<exists>s'. timesk 3 begin_op demo_ls0 = Ok () s' \<and> begin_op s' = Sleep ChLog s'
    \<and> tx_writes (replicate BSIZE 7) (map (\<lambda>i. 100 + of_nat i) [0..<30]) s' = Panic ''too big a transaction''"
proof -
  note D = demo_ls_ok log_fields [OF more_binit, of demo_ls]
  have v: "cache_ok demo_ls0 {}" "dirty_blocks demo_ls0 = dirty_blocks (binit demo_ls)" "log_area demo_ls0 = log_area (binit demo_ls)"
    using D(1) by (simp_all add: demo_ls0_def cache_view_defs log_area_def log_blk_def)
  have i: "log_inv demo_ls0" using D(2) v(2) by (simp add: log_inv_def log_blk_def logged_def demo_ls0_def)
  have u: "unat (100 + word_of_nat i :: uint) = 100 + i" if "i < 30" for i
    using that by (simp add: unat_word_ariths unat_of_nat)
  have "100 + word_of_nat i < (1000::uint) \<and> 32 \<le> (100 + word_of_nat i :: uint)" if "i < 30" for i
    using u [OF that] that by (simp add: word_less_nat_alt word_le_nat_alt)
  then have r: "\<forall>b\<in>set (map (\<lambda>i. 100 + of_nat i) [0..<30]). b < bs_disksize demo_ls0 \<and> b \<notin> log_area demo_ls0"
    using D(6,9) v(3) by (auto simp: demo_ls0_def)
  have dd: "distinct (map (\<lambda>i. 100 + of_nat i :: uint) [0..<30])"
    using u by (auto simp: distinct_map inj_on_def) (metis add_left_cancel)
  show ?thesis
    using log_reservation_short [OF v(1) i _ _ _ _ dd _ r] D(10-16)
    by (simp add: demo_ls0_def demo_ls_def LOGSIZE_def MAXOPBLOCKS_def)
qed

end
