(* ===== verification/Fs.thy ===== *)
theory Fs
  imports Log
begin

text \<open>
  Blocks and inodes of \<^verbatim>\<open>fs.c\<close>: the free bitmap, the inode cache, the block map of a file, and
  reading and writing a file's contents, on top of the write-ahead log.

  An inode pointer is the index of its entry in \<^verbatim>\<open>icache\<close>; the null pointer, where the code has one,
  is \<open>None\<close>. The structures on disk are byte lists. Critical sections of \<^verbatim>\<open>icache.lock\<close> are single
  steps. The table \<^verbatim>\<open>devsw\<close> of device functions is an argument of the operations that use it.
\<close>

subsection \<open>Layout\<close>

definition NDIRECT :: nat where "NDIRECT = 12"
definition NINDIRECT :: nat where "NINDIRECT = 128"
definition MAXFILE :: nat where "MAXFILE = NDIRECT + NINDIRECT"
definition IPB :: nat where "IPB = 8"
definition BPB :: nat where "BPB = 4096"
definition NINODE :: nat where "NINODE = 50"
definition NDEV :: int where "NDEV = 10"
definition ROOTDEV :: uint where "ROOTDEV = 1"
definition ROOTINO :: uint where "ROOTINO = 1"
definition T_DIR :: ushort where "T_DIR = 1"
definition T_FILE :: ushort where "T_FILE = 2"
definition T_DEV :: ushort where "T_DEV = 3"

definition put_bytes :: "nat \<Rightarrow> byte list \<Rightarrow> byte list \<Rightarrow> byte list" where
  "put_bytes off bs d = take off d @ bs @ drop (off + length bs) d"

definition get_bytes :: "nat \<Rightarrow> nat \<Rightarrow> byte list \<Rightarrow> byte list" where
  "get_bytes off n d = take n (drop off d)"

record dinode =
  d_type :: ushort
  d_major :: ushort
  d_minor :: ushort
  d_nlink :: ushort
  d_size :: uint
  d_addrs :: "uint list"

definition dinode_bytes :: "dinode \<Rightarrow> byte list" where
  "dinode_bytes di = le16_bytes (d_type di) @ le16_bytes (d_major di) @ le16_bytes (d_minor di) @ le16_bytes (d_nlink di)
     @ le_bytes (d_size di) @ concat (map le_bytes (d_addrs di))"

definition dinode_of :: "byte list \<Rightarrow> dinode" where
  "dinode_of d = \<lparr>d_type = of_le16 (get_bytes 0 2 d), d_major = of_le16 (get_bytes 2 2 d),
     d_minor = of_le16 (get_bytes 4 2 d), d_nlink = of_le16 (get_bytes 6 2 d), d_size = of_le (get_bytes 8 4 d),
     d_addrs = map (\<lambda>i. of_le (get_bytes (12 + 4 * i) 4 d)) [0..<Suc NDIRECT]\<rparr>"

definition get_dinode :: "nat \<Rightarrow> byte list \<Rightarrow> dinode" where
  "get_dinode k d = dinode_of (get_bytes (64 * k) 64 d)"

definition put_dinode :: "nat \<Rightarrow> dinode \<Rightarrow> byte list \<Rightarrow> byte list" where
  "put_dinode k di d = put_bytes (64 * k) (dinode_bytes di) d"

definition IBLOCK :: "uint \<Rightarrow> superblock \<Rightarrow> uint" where
  "IBLOCK i sb = i div of_nat IPB + sb_inodestart sb"

definition BBLOCK :: "uint \<Rightarrow> superblock \<Rightarrow> uint" where
  "BBLOCK b sb = b div of_nat BPB + sb_bmapstart sb"

subsection \<open>State\<close>

record inode =
  i_dev :: uint
  i_inum :: uint
  i_ref :: int
  i_lock :: sleeplock
  i_valid :: bool
  i_type :: ushort
  i_major :: ushort
  i_minor :: ushort
  i_nlink :: ushort
  i_size :: uint
  i_addrs :: "uint list"

record fstate = lstate +
  f_sb :: superblock
  f_inode :: "inode list"

abbreviation inodeof :: "'z fstate_scheme \<Rightarrow> nat \<Rightarrow> inode" where
  "inodeof s ip \<equiv> f_inode s ! ip"

definition upd_inode :: "nat \<Rightarrow> (inode \<Rightarrow> inode) \<Rightarrow> 'z fstate_scheme \<Rightarrow> 'z fstate_scheme" where
  "upd_inode ip f s = s\<lparr>f_inode := (f_inode s)[ip := f (inodeof s ip)]\<rparr>"

definition acquiresleep_i :: "nat \<Rightarrow> 'z fstate_scheme \<Rightarrow> (unit, 'z fstate_scheme) kres" where
  "acquiresleep_i ip s =
     (if sl_locked (i_lock (inodeof s ip)) then Sleep (ChInodeLock ip) s
      else Ok () (upd_inode ip (\<lambda>i. i\<lparr>i_lock := \<lparr>sl_locked = True, sl_pid = bs_pid s\<rparr>\<rparr>) s))"

definition releasesleep_i :: "nat \<Rightarrow> 'z fstate_scheme \<Rightarrow> 'z fstate_scheme" where
  "releasesleep_i ip s = (upd_inode ip (\<lambda>i. i\<lparr>i_lock := \<lparr>sl_locked = False, sl_pid = 0\<rparr>\<rparr>) s)
     \<lparr>bs_woken := bs_woken s @ [ChInodeLock ip]\<rparr>"

definition holdingsleep_i :: "nat \<Rightarrow> 'z fstate_scheme \<Rightarrow> bool" where
  "holdingsleep_i ip s \<longleftrightarrow> sl_locked (i_lock (inodeof s ip)) \<and> sl_pid (i_lock (inodeof s ip)) = bs_pid s"

subsection \<open>Blocks\<close>

definition bzero :: "uint \<Rightarrow> uint \<Rightarrow> 'z lstate_scheme \<Rightarrow> (unit, 'z lstate_scheme) kres" where
  "bzero dev bno s =
     bindk (bread dev bno s) (\<lambda>bp s.
     bindk (log_write bp (set_bdata bp (replicate BSIZE 0) s)) (\<lambda>_ s.
     brelse bp s))"

text \<open>The bit of block \<open>bi\<close> in a bitmap block.\<close>

definition bit_mask :: "nat \<Rightarrow> byte" where
  "bit_mask bi = push_bit (bi mod 8) 1"

definition bit_free :: "byte list \<Rightarrow> nat \<Rightarrow> bool" where
  "bit_free d bi \<longleftrightarrow> d ! (bi div 8) AND bit_mask bi = 0"

definition bit_set :: "nat \<Rightarrow> byte list \<Rightarrow> byte list" where
  "bit_set bi d = d[bi div 8 := d ! (bi div 8) OR bit_mask bi]"

definition bit_clear :: "nat \<Rightarrow> byte list \<Rightarrow> byte list" where
  "bit_clear bi d = d[bi div 8 := d ! (bi div 8) AND NOT (bit_mask bi)]"

text \<open>The outer loop runs over the first blocks \<open>b\<close> of the bitmap blocks, the inner one is a search.\<close>

primrec balloc_loop :: "uint \<Rightarrow> nat list \<Rightarrow> 'z fstate_scheme \<Rightarrow> (uint, 'z fstate_scheme) kres" where
  "balloc_loop dev [] s = Panic ''balloc: out of blocks''"
| "balloc_loop dev (b # bs) s =
     bindk (bread dev (BBLOCK (of_nat b) (f_sb s)) s) (\<lambda>bp s.
       let d = b_data (bufof s bp) in
       case find (bit_free d) [0..<min BPB (unat (sb_size (f_sb s)) - b)] of
         Some bi \<Rightarrow>
           bindk (log_write bp (set_bdata bp (bit_set bi d) s)) (\<lambda>_ s.
           bindk (brelse bp s) (\<lambda>_ s.
           bindk (bzero dev (of_nat (b + bi)) s) (\<lambda>_ s. Ok (of_nat (b + bi)) s)))
       | None \<Rightarrow> bindk (brelse bp s) (\<lambda>_. balloc_loop dev bs))"

definition balloc :: "uint \<Rightarrow> 'z fstate_scheme \<Rightarrow> (uint, 'z fstate_scheme) kres" where
  "balloc dev s = balloc_loop dev (map (\<lambda>k. k * BPB) [0..<(unat (sb_size (f_sb s)) + BPB - 1) div BPB]) s"

definition bfree :: "uint \<Rightarrow> uint \<Rightarrow> 'z fstate_scheme \<Rightarrow> (unit, 'z fstate_scheme) kres" where
  "bfree dev b s =
     bindk (readsb dev s) (\<lambda>sb s. let s = s\<lparr>f_sb := sb\<rparr> in
     bindk (bread dev (BBLOCK b (f_sb s)) s) (\<lambda>bp s.
       let bi = unat b mod BPB; d = b_data (bufof s bp) in
       if bit_free d bi then Panic ''freeing free block''
       else bindk (log_write bp (set_bdata bp (bit_clear bi d) s)) (\<lambda>_ s. brelse bp s)))"

subsection \<open>Inodes\<close>

definition iinit :: "uint \<Rightarrow> 'z fstate_scheme \<Rightarrow> (unit, 'z fstate_scheme) kres" where
  "iinit dev s =
     (let s = s\<lparr>f_inode := map (\<lambda>i. i\<lparr>i_lock := initsleeplock\<rparr>) (f_inode s)\<rparr> in
      bindk (readsb dev s) (\<lambda>sb s. Ok () (s\<lparr>f_sb := sb\<rparr>)))"

definition iget :: "uint \<Rightarrow> uint \<Rightarrow> 'z fstate_scheme \<Rightarrow> (nat, 'z fstate_scheme) kres" where
  "iget dev inum s =
     (case find_idx (\<lambda>i. i_ref i > 0 \<and> i_dev i = dev \<and> i_inum i = inum) (f_inode s) of
        Some ip \<Rightarrow> Ok ip (upd_inode ip (\<lambda>i. i\<lparr>i_ref := i_ref i + 1\<rparr>) s)
      | None \<Rightarrow>
        (case find_idx (\<lambda>i. i_ref i = 0) (f_inode s) of
           None \<Rightarrow> Panic ''iget: no inodes''
         | Some ip \<Rightarrow> Ok ip (upd_inode ip (\<lambda>i. i\<lparr>i_dev := dev, i_inum := inum, i_ref := 1, i_valid := False\<rparr>) s)))"

primrec ialloc_loop :: "uint \<Rightarrow> ushort \<Rightarrow> nat list \<Rightarrow> 'z fstate_scheme \<Rightarrow> (nat, 'z fstate_scheme) kres" where
  "ialloc_loop dev type [] s = Panic ''ialloc: no inodes''"
| "ialloc_loop dev type (inum # inums) s =
     bindk (bread dev (IBLOCK (of_nat inum) (f_sb s)) s) (\<lambda>bp s.
       let d = b_data (bufof s bp) in
       if d_type (get_dinode (inum mod IPB) d) = 0 then
         let dip = put_bytes 0 (le16_bytes type) (replicate 64 0) in
         bindk (log_write bp (set_bdata bp (put_bytes (64 * (inum mod IPB)) dip d) s)) (\<lambda>_ s.
         bindk (brelse bp s) (\<lambda>_ s.
         iget dev (of_nat inum) s))
       else bindk (brelse bp s) (\<lambda>_. ialloc_loop dev type inums))"

definition ialloc :: "uint \<Rightarrow> ushort \<Rightarrow> 'z fstate_scheme \<Rightarrow> (nat, 'z fstate_scheme) kres" where
  "ialloc dev type s = ialloc_loop dev type [1..<unat (sb_ninodes (f_sb s))] s"

definition dinode_fields :: "inode \<Rightarrow> dinode" where
  "dinode_fields i = \<lparr>d_type = i_type i, d_major = i_major i, d_minor = i_minor i, d_nlink = i_nlink i,
     d_size = i_size i, d_addrs = i_addrs i\<rparr>"

definition iupdate :: "nat \<Rightarrow> 'z fstate_scheme \<Rightarrow> (unit, 'z fstate_scheme) kres" where
  "iupdate ip s =
     (let i = inodeof s ip in
      bindk (bread (i_dev i) (IBLOCK (i_inum i) (f_sb s)) s) (\<lambda>bp s.
        let d = put_dinode (unat (i_inum i) mod IPB) (dinode_fields (inodeof s ip)) (b_data (bufof s bp)) in
      bindk (log_write bp (set_bdata bp d s)) (\<lambda>_ s. brelse bp s)))"

definition idup :: "nat \<Rightarrow> 'z fstate_scheme \<Rightarrow> (nat, 'z fstate_scheme) kres" where
  "idup ip s = Ok ip (upd_inode ip (\<lambda>i. i\<lparr>i_ref := i_ref i + 1\<rparr>) s)"

definition ilock :: "nat \<Rightarrow> 'z fstate_scheme \<Rightarrow> (unit, 'z fstate_scheme) kres" where
  "ilock ip s =
     (if i_ref (inodeof s ip) < 1 then Panic ''ilock''
      else bindk (acquiresleep_i ip s) (\<lambda>_ s.
        if \<not> i_valid (inodeof s ip) then
          bindk (bread (i_dev (inodeof s ip)) (IBLOCK (i_inum (inodeof s ip)) (f_sb s)) s) (\<lambda>bp s.
            let dip = get_dinode (unat (i_inum (inodeof s ip)) mod IPB) (b_data (bufof s bp));
                s = upd_inode ip (\<lambda>i. i\<lparr>i_type := d_type dip, i_major := d_major dip, i_minor := d_minor dip,
                  i_nlink := d_nlink dip, i_size := d_size dip, i_addrs := d_addrs dip\<rparr>) s in
          bindk (brelse bp s) (\<lambda>_ s.
            let s = upd_inode ip (\<lambda>i. i\<lparr>i_valid := True\<rparr>) s in
            if i_type (inodeof s ip) = 0 then Panic ''ilock: no type'' else Ok () s))
        else Ok () s))"

definition iunlock :: "nat \<Rightarrow> 'z fstate_scheme \<Rightarrow> (unit, 'z fstate_scheme) kres" where
  "iunlock ip s =
     (if \<not> holdingsleep_i ip s \<or> i_ref (inodeof s ip) < 1 then Panic ''iunlock''
      else Ok () (releasesleep_i ip s))"

subsection \<open>The block map of a file\<close>

definition bmap :: "nat \<Rightarrow> uint \<Rightarrow> 'z fstate_scheme \<Rightarrow> (uint, 'z fstate_scheme) kres" where
  "bmap ip bn s =
     (if unat bn < NDIRECT then
        let addr = i_addrs (inodeof s ip) ! unat bn in
        if addr = 0 then
          bindk (balloc (i_dev (inodeof s ip)) s) (\<lambda>addr s.
            Ok addr (upd_inode ip (\<lambda>i. i\<lparr>i_addrs := (i_addrs i)[unat bn := addr]\<rparr>) s))
        else Ok addr s
      else
        let bn = unat bn - NDIRECT in
        if bn < NINDIRECT then
          bindk
            (let addr = i_addrs (inodeof s ip) ! NDIRECT in
             if addr = 0 then
               bindk (balloc (i_dev (inodeof s ip)) s) (\<lambda>addr s.
                 Ok addr (upd_inode ip (\<lambda>i. i\<lparr>i_addrs := (i_addrs i)[NDIRECT := addr]\<rparr>) s))
             else Ok addr s) (\<lambda>addr s.
          bindk (bread (i_dev (inodeof s ip)) addr s) (\<lambda>bp s.
          bindk
            (let addr = get_word bn (b_data (bufof s bp)) in
             if addr = 0 then
               bindk (balloc (i_dev (inodeof s ip)) s) (\<lambda>addr s.
               bindk (log_write bp (set_bdata bp (put_word bn addr (b_data (bufof s bp))) s)) (\<lambda>_ s. Ok addr s))
             else Ok addr s) (\<lambda>addr s.
          bindk (brelse bp s) (\<lambda>_ s. Ok addr s))))
        else Panic ''bmap: out of range'')"

definition itrunc_direct :: "nat \<Rightarrow> nat \<Rightarrow> 'z fstate_scheme \<Rightarrow> (unit, 'z fstate_scheme) kres" where
  "itrunc_direct ip k s =
     (if i_addrs (inodeof s ip) ! k \<noteq> 0 then
        bindk (bfree (i_dev (inodeof s ip)) (i_addrs (inodeof s ip) ! k) s) (\<lambda>_ s.
          Ok () (upd_inode ip (\<lambda>i. i\<lparr>i_addrs := (i_addrs i)[k := 0]\<rparr>) s))
      else Ok () s)"

definition itrunc_indirect :: "nat \<Rightarrow> nat \<Rightarrow> nat \<Rightarrow> 'z fstate_scheme \<Rightarrow> (unit, 'z fstate_scheme) kres" where
  "itrunc_indirect ip bp j s =
     (let a = get_word j (b_data (bufof s bp)) in
      if a \<noteq> 0 then bfree (i_dev (inodeof s ip)) a s else Ok () s)"

definition itrunc :: "nat \<Rightarrow> 'z fstate_scheme \<Rightarrow> (unit, 'z fstate_scheme) kres" where
  "itrunc ip s =
     bindk (each (itrunc_direct ip) [0..<NDIRECT] s) (\<lambda>_ s.
     bindk
       (if i_addrs (inodeof s ip) ! NDIRECT \<noteq> 0 then
          bindk (bread (i_dev (inodeof s ip)) (i_addrs (inodeof s ip) ! NDIRECT) s) (\<lambda>bp s.
          bindk (each (itrunc_indirect ip bp) [0..<NINDIRECT] s) (\<lambda>_ s.
          bindk (brelse bp s) (\<lambda>_ s.
          bindk (bfree (i_dev (inodeof s ip)) (i_addrs (inodeof s ip) ! NDIRECT) s) (\<lambda>_ s.
            Ok () (upd_inode ip (\<lambda>i. i\<lparr>i_addrs := (i_addrs i)[NDIRECT := 0]\<rparr>) s)))))
        else Ok () s) (\<lambda>_ s.
     iupdate ip (upd_inode ip (\<lambda>i. i\<lparr>i_size := 0\<rparr>) s)))"

definition iput :: "nat \<Rightarrow> 'z fstate_scheme \<Rightarrow> (unit, 'z fstate_scheme) kres" where
  "iput ip s =
     bindk (acquiresleep_i ip s) (\<lambda>_ s.
     bindk
       (if i_valid (inodeof s ip) \<and> i_nlink (inodeof s ip) = 0 \<and> i_ref (inodeof s ip) = 1 then
          bindk (itrunc ip s) (\<lambda>_ s.
          bindk (iupdate ip (upd_inode ip (\<lambda>i. i\<lparr>i_type := 0\<rparr>) s)) (\<lambda>_ s.
            Ok () (upd_inode ip (\<lambda>i. i\<lparr>i_valid := False\<rparr>) s)))
        else Ok () s) (\<lambda>_ s.
     Ok () (upd_inode ip (\<lambda>i. i\<lparr>i_ref := i_ref i - 1\<rparr>) (releasesleep_i ip s))))"

definition iunlockput :: "nat \<Rightarrow> 'z fstate_scheme \<Rightarrow> (unit, 'z fstate_scheme) kres" where
  "iunlockput ip s = bindk (iunlock ip s) (\<lambda>_. iput ip)"

record stat =
  st_type :: ushort
  st_dev :: uint
  st_ino :: uint
  st_nlink :: ushort
  st_size :: uint

definition stati :: "nat \<Rightarrow> 'z fstate_scheme \<Rightarrow> stat" where
  "stati ip s = (let i = inodeof s ip in
     \<lparr>st_type = i_type i, st_dev = i_dev i, st_ino = i_inum i, st_nlink = i_nlink i, st_size = i_size i\<rparr>)"

subsection \<open>File contents\<close>

text \<open>The bytes one iteration of the copy loops moves; it is positive while bytes are left.\<close>

definition chunk :: "uint \<Rightarrow> uint \<Rightarrow> uint \<Rightarrow> uint" where
  "chunk off tot n = min (n - tot) (512 - off mod 512)"

lemma chunk_progress: "tot < n \<Longrightarrow> unat (n - (tot + chunk off tot n)) < unat (n - tot)"
proof -
  assume t: "tot < n"
  let ?m = "chunk off tot n"
  have pos: "0 < unat (n - tot)" using t by (simp add: unat_gt_0)
  have "unat (512 - off mod 512) = 512 - unat (off mod 512)"
    by (subst unat_sub) (simp_all add: word_le_nat_alt unat_mod)
  then have "0 < unat (512 - off mod 512)" by (simp add: unat_mod)
  then have m: "0 < unat ?m" "unat ?m \<le> unat (n - tot)"
    using pos by (auto simp: chunk_def min_def word_le_nat_alt)
  have "unat (n - (tot + ?m)) = unat (n - tot) - unat ?m"
    unfolding diff_diff_eq [symmetric] using m(2) by (intro unat_sub) (simp add: word_le_nat_alt)
  then show ?thesis using m by simp
qed

function readi_loop :: "nat \<Rightarrow> uint \<Rightarrow> uint \<Rightarrow> uint \<Rightarrow> 'z fstate_scheme \<Rightarrow> (byte list, 'z fstate_scheme) kres" where
  "readi_loop ip off tot n s =
     (if tot < n then
        bindk (bmap ip (off div 512) s) (\<lambda>addr s.
        bindk (bread (i_dev (inodeof s ip)) addr s) (\<lambda>bp s.
          let m = chunk off tot n; out = get_bytes (unat (off mod 512)) (unat m) (b_data (bufof s bp)) in
        bindk (brelse bp s) (\<lambda>_ s.
        bindk (readi_loop ip (off + m) (tot + m) n s) (\<lambda>rest s. Ok (out @ rest) s))))
      else Ok [] s)"
  by pat_completeness auto
termination by (relation "measure (\<lambda>(ip, off, tot, n, s). unat (n - tot))") (auto simp: chunk_progress)

type_synonym 's dev_read = "nat \<Rightarrow> (nat \<Rightarrow> uint \<Rightarrow> 's \<Rightarrow> (int \<times> byte list, 's) kres) option"
type_synonym 's dev_write = "nat \<Rightarrow> (nat \<Rightarrow> byte list \<Rightarrow> uint \<Rightarrow> 's \<Rightarrow> (int, 's) kres) option"

text \<open>The bytes stored at \<^verbatim>\<open>dst\<close> are part of the result.\<close>

definition readi :: "('z fstate_scheme) dev_read \<Rightarrow> nat \<Rightarrow> uint \<Rightarrow> uint \<Rightarrow> 'z fstate_scheme \<Rightarrow>
    (int \<times> byte list, 'z fstate_scheme) kres" where
  "readi dr ip off n s =
     (let i = inodeof s ip in
      if i_type i = T_DEV then
        if sint (i_major i) < 0 \<or> sint (i_major i) \<ge> NDEV then Ok (-1, []) s
        else (case dr (unat (i_major i)) of None \<Rightarrow> Ok (-1, []) s | Some f \<Rightarrow> f ip n s)
      else if off > i_size i \<or> off + n < off then Ok (-1, []) s
      else
        let n = (if off + n > i_size i then i_size i - off else n) in
        bindk (readi_loop ip off 0 n s) (\<lambda>bs s. Ok (sint n, bs) s))"

text \<open>The loop of \<^verbatim>\<open>writei\<close> returns the final offset; \<open>src\<close> holds the bytes still to be copied.\<close>

function writei_loop :: "nat \<Rightarrow> byte list \<Rightarrow> uint \<Rightarrow> uint \<Rightarrow> uint \<Rightarrow> 'z fstate_scheme \<Rightarrow> (uint, 'z fstate_scheme) kres" where
  "writei_loop ip src off tot n s =
     (if tot < n then
        bindk (bmap ip (off div 512) s) (\<lambda>addr s.
        bindk (bread (i_dev (inodeof s ip)) addr s) (\<lambda>bp s.
          let m = chunk off tot n;
              d = put_bytes (unat (off mod 512)) (take (unat m) src) (b_data (bufof s bp)) in
        bindk (log_write bp (set_bdata bp d s)) (\<lambda>_ s.
        bindk (brelse bp s) (\<lambda>_ s.
        writei_loop ip (drop (unat m) src) (off + m) (tot + m) n s))))
      else Ok off s)"
  by pat_completeness auto
termination by (relation "measure (\<lambda>(ip, src, off, tot, n, s). unat (n - tot))") (auto simp: chunk_progress)

definition writei :: "('z fstate_scheme) dev_write \<Rightarrow> nat \<Rightarrow> byte list \<Rightarrow> uint \<Rightarrow> uint \<Rightarrow> 'z fstate_scheme \<Rightarrow>
    (int, 'z fstate_scheme) kres" where
  "writei dw ip src off n s =
     (let i = inodeof s ip in
      if i_type i = T_DEV then
        if sint (i_major i) < 0 \<or> sint (i_major i) \<ge> NDEV then Ok (-1) s
        else (case dw (unat (i_major i)) of None \<Rightarrow> Ok (-1) s | Some f \<Rightarrow> f ip src n s)
      else if off > i_size i \<or> off + n < off then Ok (-1) s
      else if off + n > of_nat (MAXFILE * BSIZE) then Ok (-1) s
      else
        bindk (writei_loop ip src off 0 n s) (\<lambda>off s.
        if n > 0 \<and> off > i_size (inodeof s ip) then
          bindk (iupdate ip (upd_inode ip (\<lambda>i. i\<lparr>i_size := off\<rparr>) s)) (\<lambda>_ s. Ok (sint n) s)
        else Ok (sint n) s))"

declare readi_loop.simps [simp del] writei_loop.simps [simp del]

end
