(* ===== verification/Dir.thy ===== *)
theory Dir
  imports Fs
begin

text \<open>
  Directories and path names of \<^verbatim>\<open>fs.c\<close>. A directory is a file of 16-byte entries; a path is the
  list of bytes before its terminating nul.
\<close>

definition DIRSIZ :: nat where "DIRSIZ = 14"

record dirent =
  de_inum :: ushort
  de_name :: "byte list"

definition dirent_bytes :: "dirent \<Rightarrow> byte list" where
  "dirent_bytes de = le16_bytes (de_inum de) @ de_name de"

definition dirent_of :: "byte list \<Rightarrow> dirent" where
  "dirent_of d = \<lparr>de_inum = of_le16 d, de_name = take DIRSIZ (drop 2 d)\<rparr>"

definition namecmp :: "byte list \<Rightarrow> byte list \<Rightarrow> int" where
  "namecmp p q = strncmp_buf p q DIRSIZ"

text \<open>The offsets the directory loops run through: the size of a directory fits a file, so they do not wrap.\<close>

definition de_offs :: "uint \<Rightarrow> uint list" where
  "de_offs sz = map (\<lambda>k. of_nat (16 * k)) [0..<(unat sz + 15) div 16]"

primrec dirlookup_loop :: "('z fstate_scheme) dev_read \<Rightarrow> nat \<Rightarrow> byte list \<Rightarrow> uint list \<Rightarrow> 'z fstate_scheme \<Rightarrow>
    ((nat \<times> uint) option, 'z fstate_scheme) kres" where
  "dirlookup_loop dr dp name [] s = Ok None s"
| "dirlookup_loop dr dp name (off # offs) s =
     bindk (readi dr dp off 16 s) (\<lambda>r s.
       if fst r \<noteq> 16 then Panic ''dirlookup read''
       else
         let de = dirent_of (snd r) in
         if de_inum de = 0 then dirlookup_loop dr dp name offs s
         else if namecmp name (de_name de) = 0 then
           bindk (iget (i_dev (inodeof s dp)) (ucast (de_inum de)) s) (\<lambda>ip s. Ok (Some (ip, off)) s)
         else dirlookup_loop dr dp name offs s)"

definition dirlookup :: "('z fstate_scheme) dev_read \<Rightarrow> nat \<Rightarrow> byte list \<Rightarrow> 'z fstate_scheme \<Rightarrow>
    ((nat \<times> uint) option, 'z fstate_scheme) kres" where
  "dirlookup dr dp name s =
     (if i_type (inodeof s dp) \<noteq> T_DIR then Panic ''dirlookup not DIR''
      else dirlookup_loop dr dp name (de_offs (i_size (inodeof s dp))) s)"

text \<open>The offset of the first free entry, or the size of the directory.\<close>

primrec dirlink_find :: "('z fstate_scheme) dev_read \<Rightarrow> nat \<Rightarrow> uint list \<Rightarrow> uint \<Rightarrow> 'z fstate_scheme \<Rightarrow>
    (uint, 'z fstate_scheme) kres" where
  "dirlink_find dr dp [] fin s = Ok fin s"
| "dirlink_find dr dp (off # offs) fin s =
     bindk (readi dr dp off 16 s) (\<lambda>r s.
       if fst r \<noteq> 16 then Panic ''dirlink read''
       else if de_inum (dirent_of (snd r)) = 0 then Ok off s
       else dirlink_find dr dp offs fin s)"

definition dirlink :: "('z fstate_scheme) dev_read \<Rightarrow> ('z fstate_scheme) dev_write \<Rightarrow> nat \<Rightarrow> byte list \<Rightarrow> uint \<Rightarrow>
    'z fstate_scheme \<Rightarrow> (int, 'z fstate_scheme) kres" where
  "dirlink dr dw dp name inum s =
     bindk (dirlookup dr dp name s) (\<lambda>r s.
       case r of
         Some (ip, off) \<Rightarrow> bindk (iput ip s) (\<lambda>_ s. Ok (-1) s)
       | None \<Rightarrow>
         let sz = i_size (inodeof s dp) in
         bindk (dirlink_find dr dp (de_offs sz) (of_nat (16 * ((unat sz + 15) div 16))) s) (\<lambda>off s.
           let de = \<lparr>de_inum = ucast inum, de_name = strncpy_buf name DIRSIZ\<rparr> in
         bindk (writei dw dp (dirent_bytes de) off 16 s) (\<lambda>r s.
           if r \<noteq> 16 then Panic ''dirlink'' else Ok 0 s)))"

subsection \<open>Paths\<close>

definition slash :: byte where "slash = 47"

definition skipelem :: "byte list \<Rightarrow> byte list \<Rightarrow> (byte list \<times> byte list) option" where
  "skipelem path name =
     (let path = dropWhile (\<lambda>c. c = slash) path in
      if path = [] then None
      else
        let s = takeWhile (\<lambda>c. c \<noteq> slash) path;
            path = dropWhile (\<lambda>c. c \<noteq> slash) path;
            len = length s;
            name = (if len \<ge> DIRSIZ then take DIRSIZ s else s @ 0 # drop (Suc len) name)
        in Some (dropWhile (\<lambda>c. c = slash) path, name))"

lemma skipelem_shorter: "skipelem path name = Some (rest, name') \<Longrightarrow> length rest < length path"
proof -
  assume a: "skipelem path name = Some (rest, name')"
  let ?p = "dropWhile (\<lambda>c. c = slash) path"
  have ne: "?p \<noteq> []" and rest: "rest = dropWhile (\<lambda>c. c = slash) (dropWhile (\<lambda>c. c \<noteq> slash) ?p)"
    using a by (auto simp: skipelem_def Let_def split: if_splits)
  have "hd ?p \<noteq> slash" using ne hd_dropWhile by blast
  then have "length (dropWhile (\<lambda>c. c \<noteq> slash) ?p) < length ?p"
    using ne by (cases ?p) (auto intro: le_less_trans [OF length_dropWhile_le])
  moreover have "length rest \<le> length (dropWhile (\<lambda>c. c \<noteq> slash) ?p)" unfolding rest by (rule length_dropWhile_le)
  moreover have "length ?p \<le> length path" by (rule length_dropWhile_le)
  ultimately show ?thesis by linarith
qed

text \<open>The result is the inode, if any, and the last path element found.\<close>

function namex_loop :: "('z fstate_scheme) dev_read \<Rightarrow> bool \<Rightarrow> nat \<Rightarrow> byte list \<Rightarrow> byte list \<Rightarrow> 'z fstate_scheme \<Rightarrow>
    (nat option \<times> byte list, 'z fstate_scheme) kres" where
  "namex_loop dr parent ip path name s =
     (case skipelem path name of
        None \<Rightarrow>
          if parent then bindk (iput ip s) (\<lambda>_ s. Ok (None, name) s)
          else Ok (Some ip, name) s
      | Some (path, name) \<Rightarrow>
          bindk (ilock ip s) (\<lambda>_ s.
          if i_type (inodeof s ip) \<noteq> T_DIR then bindk (iunlockput ip s) (\<lambda>_ s. Ok (None, name) s)
          else if parent \<and> path = [] then bindk (iunlock ip s) (\<lambda>_ s. Ok (Some ip, name) s)
          else
            bindk (dirlookup dr ip name s) (\<lambda>r s.
              case r of
                None \<Rightarrow> bindk (iunlockput ip s) (\<lambda>_ s. Ok (None, name) s)
              | Some (next, off) \<Rightarrow> bindk (iunlockput ip s) (\<lambda>_. namex_loop dr parent next path name))))"
  by pat_completeness auto
termination
  by (relation "measure (\<lambda>(dr, parent, ip, path, name, s). length path)") (auto intro: skipelem_shorter)

definition namex :: "('z fstate_scheme) dev_read \<Rightarrow> nat \<Rightarrow> byte list \<Rightarrow> bool \<Rightarrow> byte list \<Rightarrow> 'z fstate_scheme \<Rightarrow>
    (nat option \<times> byte list, 'z fstate_scheme) kres" where
  "namex dr cwd path parent name s =
     bindk (if path \<noteq> [] \<and> hd path = slash then iget ROOTDEV ROOTINO s else idup cwd s) (\<lambda>ip s.
       namex_loop dr parent ip path name s)"

definition namei :: "('z fstate_scheme) dev_read \<Rightarrow> nat \<Rightarrow> byte list \<Rightarrow> 'z fstate_scheme \<Rightarrow>
    (nat option, 'z fstate_scheme) kres" where
  "namei dr cwd path s = bindk (namex dr cwd path False (replicate DIRSIZ 0) s) (\<lambda>r s. Ok (fst r) s)"

definition nameiparent :: "('z fstate_scheme) dev_read \<Rightarrow> nat \<Rightarrow> byte list \<Rightarrow> byte list \<Rightarrow> 'z fstate_scheme \<Rightarrow>
    (nat option \<times> byte list, 'z fstate_scheme) kres" where
  "nameiparent dr cwd path name s = namex dr cwd path True name s"

declare namex_loop.simps [simp del]

subsection \<open>Walking a path\<close>

text \<open>
  What a path means: its components are the non-empty pieces between the slashes, each cut to \<open>DIRSIZ\<close>
  bytes, and looking it up is one directory lookup per component.
\<close>

fun split_slash :: "byte list \<Rightarrow> byte list list" where
  "split_slash [] = [[]]"
| "split_slash (c # cs) = (if c = slash then [] # split_slash cs else (c # hd (split_slash cs)) # tl (split_slash cs))"

definition components :: "byte list \<Rightarrow> byte list list" where
  "components path = map (take DIRSIZ) (filter (\<lambda>e. e \<noteq> []) (split_slash path))"

primrec walk :: "('z fstate_scheme) dev_read \<Rightarrow> bool \<Rightarrow> byte list list \<Rightarrow> nat \<Rightarrow> byte list \<Rightarrow> 'z fstate_scheme \<Rightarrow>
    (nat option \<times> byte list, 'z fstate_scheme) kres" where
  "walk dr parent [] ip e0 s =
     (if parent then bindk (iput ip s) (\<lambda>_. Ok (None, e0)) else Ok (Some ip, e0) s)"
| "walk dr parent (e # es) ip e0 s =
     bindk (ilock ip s) (\<lambda>_ s.
       if i_type (inodeof s ip) \<noteq> T_DIR then bindk (iunlockput ip s) (\<lambda>_. Ok (None, e))
       else if parent \<and> es = [] then bindk (iunlock ip s) (\<lambda>_. Ok (Some ip, e))
       else bindk (dirlookup dr ip e s) (\<lambda>r s.
         case r of
           None \<Rightarrow> bindk (iunlockput ip s) (\<lambda>_. Ok (None, e))
         | Some (next, off) \<Rightarrow> bindk (iunlockput ip s) (\<lambda>_. walk dr parent es next e)))"

definition elem_of :: "byte list \<Rightarrow> byte list" where
  "elem_of name = cstr (take DIRSIZ name)"

lemma split_slash_ne [simp]: "split_slash p \<noteq> []"
  by (cases p) auto

lemma split_slash_first:
  "split_slash p = takeWhile (\<lambda>c. c \<noteq> slash) p #
     (case dropWhile (\<lambda>c. c \<noteq> slash) p of [] \<Rightarrow> [] | _ # r \<Rightarrow> split_slash r)"
  by (induction p) auto

lemma components_Nil [simp]: "components [] = []"
  by (simp add: components_def)

lemma components_slashes: "components (dropWhile (\<lambda>c. c = slash) p) = components p"
  by (induction p) (auto simp: components_def)

lemma components_first:
  assumes "p \<noteq> []" "hd p \<noteq> slash"
  shows "components p = take DIRSIZ (takeWhile (\<lambda>c. c \<noteq> slash) p) # components (dropWhile (\<lambda>c. c \<noteq> slash) p)"
proof -
  have t: "takeWhile (\<lambda>c. c \<noteq> slash) p \<noteq> []" using assms by (cases p) auto
  show ?thesis
  proof (cases "dropWhile (\<lambda>c. c \<noteq> slash) p")
    case Nil
    then show ?thesis using t by (simp only: components_def split_slash_first [of p]) simp
  next
    case (Cons c r)
    then have "c = slash" using hd_dropWhile [of "\<lambda>c. c \<noteq> slash" p] by simp
    with Cons t show ?thesis by (simp only: components_def split_slash_first [of p]) simp
  qed
qed

lemma skipelem_None: "skipelem path name = None \<longleftrightarrow> components path = []"
proof -
  let ?p = "dropWhile (\<lambda>c. c = slash) path"
  have "?p \<noteq> [] \<Longrightarrow> components ?p \<noteq> []"
    using components_first [of ?p] hd_dropWhile [of "\<lambda>c. c = slash" path] by simp
  then have "components ?p = [] \<longleftrightarrow> ?p = []" using components_Nil by metis
  moreover have "skipelem path name = None \<longleftrightarrow> ?p = []" unfolding skipelem_def Let_def
    by (cases "?p = []") (simp_all only: if_True if_False simp_thms option.distinct)
  ultimately show ?thesis by (simp only: components_slashes)
qed

lemma skipelem_Some:
  assumes "skipelem path name = Some (rest, name')" "0 \<notin> set path"
  shows "components path = elem_of name' # components rest \<and> (rest = [] \<longleftrightarrow> components rest = []) \<and> 0 \<notin> set rest"
proof -
  let ?p = "dropWhile (\<lambda>c. c = slash) path"
  let ?e = "takeWhile (\<lambda>c. c \<noteq> slash) ?p" and ?q = "dropWhile (\<lambda>c. c \<noteq> slash) ?p"
  have p: "?p \<noteq> []" "hd ?p \<noteq> slash"
    using assms(1) hd_dropWhile [of "\<lambda>c. c = slash" path] by (auto simp: skipelem_def Let_def split: if_splits)
  have r: "rest = dropWhile (\<lambda>c. c = slash) ?q"
    and n: "name' = (if length ?e \<ge> DIRSIZ then take DIRSIZ ?e else ?e @ 0 # drop (Suc (length ?e)) name)"
    using assms(1) p(1) unfolding skipelem_def Let_def
    by (auto simp del: dropWhile_eq_Nil_conv split: if_splits)
  have e: "0 \<notin> set ?e" using assms(2) by (meson set_dropWhileD set_takeWhileD)
  then have z: "cstr (take DIRSIZ ?e) = take DIRSIZ ?e"
    unfolding cstr_def by (intro takeWhile_eq_all_conv [THEN iffD2]) (auto dest: in_set_takeD)
  have "elem_of name' = take DIRSIZ ?e"
  proof (cases "length ?e \<ge> DIRSIZ")
    case True
    then show ?thesis using z by (simp add: n elem_of_def)
  next
    case False
    then have "take DIRSIZ name' = ?e @ 0 # take (DIRSIZ - Suc (length ?e)) (drop (Suc (length ?e)) name)"
      by (simp add: n take_Cons')
    moreover have "\<forall>c\<in>set ?e. c \<noteq> 0" using e by metis
    ultimately show ?thesis using False by (simp add: elem_of_def cstr_def)
  qed
  moreover have "components path = take DIRSIZ ?e # components rest"
    using components_first [OF p] by (simp add: components_slashes r)
  moreover have "rest \<noteq> [] \<Longrightarrow> components rest \<noteq> []"
    using components_first [of rest] hd_dropWhile [of "\<lambda>c. c = slash" ?q] by (simp add: r)
  moreover have "0 \<notin> set rest" using assms(2) unfolding r by (meson set_dropWhileD)
  ultimately show ?thesis by auto
qed

lemma dirlookup_elem: "dirlookup dr ip (elem_of name) s = dirlookup dr ip name s"
proof -
  have c: "cstr (take n (cstr (take n xs))) = cstr (take n xs)" for n and xs :: "byte list"
  proof -
    have "length (cstr (take n xs)) \<le> n"
      using length_takeWhile_le [of "\<lambda>b. b \<noteq> 0" "take n xs"] by (simp add: cstr_def)
    then show ?thesis by (simp add: cstr_def)
  qed
  have "namecmp (elem_of name) d = 0 \<longleftrightarrow> namecmp name d = 0" for d
    by (simp add: namecmp_def strncmp_buf_zero elem_of_def c)
  then have "dirlookup_loop dr ip (elem_of name) offs s = dirlookup_loop dr ip name offs s" for offs
    by (induction offs arbitrary: s) (simp_all add: Let_def cong: bindk_cong if_cong)
  then show ?thesis by (simp add: dirlookup_def)
qed

lemma bindk_push:
  "bindk (if c then a else b) f = (if c then bindk a f else bindk b f)"
  "bindk (case opt of None \<Rightarrow> a | Some (x, y) \<Rightarrow> g x y) f = (case opt of None \<Rightarrow> bindk a f | Some (x, y) \<Rightarrow> bindk (g x y) f)"
  by (auto split: option.splits)

lemma namex_loop_walk:
  assumes "0 \<notin> set path"
  shows "bindk (namex_loop dr parent ip path name s) (\<lambda>r. Ok (fst r, elem_of (snd r))) =
    walk dr parent (components path) ip (elem_of name) s"
  using assms
proof (induction "length path" arbitrary: path name ip s rule: less_induct)
  case less
  show ?case
  proof (cases "skipelem path name")
    case None
    then have "components path = []" by (simp add: skipelem_None)
    with None show ?thesis by (subst namex_loop.simps) (simp add: bindk_assoc)
  next
    case (Some r)
    obtain rest name' where r: "r = (rest, name')" by (cases r)
    note e = skipelem_Some [OF Some [unfolded r] less.prems]
    have l: "length rest < length path" using Some r skipelem_shorter by blast
    show ?thesis
      using e less.hyps [OF l] dirlookup_elem [of dr _ name']
      by (subst namex_loop.simps) (simp add: Some r bindk_push bindk_assoc cong: if_cong option.case_cong prod.case_cong)
  qed
qed

text \<open>Claim C32. \<^verbatim>\<open>namei\<close> and \<^verbatim>\<open>nameiparent\<close> find what the path means: starting at the root for a path with a
  leading slash and at the current directory otherwise, one directory lookup for each component in turn,
  with the same locking, the same result and the same final state as the walk over the list of
  components; \<^verbatim>\<open>nameiparent\<close> stops before the last component and returns it.\<close>

theorem namex_walks:
  assumes "0 \<notin> set path"
  shows "bindk (namex dr cwd path parent name s) (\<lambda>r. Ok (fst r, elem_of (snd r))) =
    bindk (if path \<noteq> [] \<and> hd path = slash then iget ROOTDEV ROOTINO s else idup cwd s)
      (\<lambda>ip. walk dr parent (components path) ip (elem_of name))"
  unfolding namex_def bindk_assoc namex_loop_walk [OF assms] ..

theorem namex_walks_witness:
  "\<forall>(s :: fstate) dr name. bindk (namex dr 0 [47, 97, 47, 47, 98, 47] True name s) (\<lambda>r. Ok (fst r, elem_of (snd r))) =
     bindk (iget ROOTDEV ROOTINO s) (\<lambda>ip. walk dr True [[97], [98]] ip (elem_of name))"
proof (intro allI)
  fix s :: fstate and dr name
  have "components [47, 97, 47, 47, 98, 47] = [[97], [98]]" by (simp add: components_def slash_def DIRSIZ_def)
  then show "bindk (namex dr 0 [47, 97, 47, 47, 98, 47] True name s) (\<lambda>r. Ok (fst r, elem_of (snd r))) =
     bindk (iget ROOTDEV ROOTINO s) (\<lambda>ip. walk dr True [[97], [98]] ip (elem_of name))"
    using namex_walks [of "[47, 97, 47, 47, 98, 47]" dr 0 True name s] by (simp add: slash_def)
qed

end
