(* ===== verification/Pipe.thy ===== *)
theory Pipe
  imports Syscall
begin

text \<open>
  Pipes: \<^verbatim>\<open>pipeclose\<close>, \<^verbatim>\<open>pipewrite\<close> and \<^verbatim>\<open>piperead\<close> of \<^verbatim>\<open>pipe.c\<close>, on the kernel state with the process
  table, so that the wakeups and sleeps are the ones of \<open>Proc\<close>.

  A pipe is named by its kernel address. \<^verbatim>\<open>nread\<close> and \<^verbatim>\<open>nwrite\<close> are 32-bit counters that are never
  reset; the lemmas hold across their wrap-around. \<^verbatim>\<open>pipealloc\<close> is in theory \<open>Exec\<close>.
\<close>

subsection \<open>State\<close>

definition PIPESIZE :: nat where "PIPESIZE = 2048"

record pipe =
  pi_lock :: spinlock
  pi_data :: "byte list"
  nread :: uint
  nwrite :: uint
  readopen :: bool
  writeopen :: bool

record pipestate = pstate +
  pi_pipes :: "nat \<Rightarrow> pipe"

definition upd_pipe :: "nat \<Rightarrow> (pipe \<Rightarrow> pipe) \<Rightarrow> 'z pipestate_scheme \<Rightarrow> 'z pipestate_scheme" where
  "upd_pipe a f k = k\<lparr>pi_pipes := (pi_pipes k)(a := f (pi_pipes k a))\<rparr>"

definition acquire_pi :: "nat \<Rightarrow> 'z pipestate_scheme \<Rightarrow> (unit, 'z pipestate_scheme) kres" where
  "acquire_pi a k = (case acquire (pi_lock (pi_pipes k a)) (k_mach k) of
     Ok l m \<Rightarrow> Ok () (upd_pipe a (\<lambda>p. p\<lparr>pi_lock := l\<rparr>) (k\<lparr>k_mach := m\<rparr>)) | Panic s \<Rightarrow> Panic s
   | Sleep c m \<Rightarrow> Sleep c (k\<lparr>k_mach := m\<rparr>) | Spin \<Rightarrow> Spin)"

definition release_pi :: "nat \<Rightarrow> 'z pipestate_scheme \<Rightarrow> (unit, 'z pipestate_scheme) kres" where
  "release_pi a k = (case release (pi_lock (pi_pipes k a)) (k_mach k) of
     Ok l m \<Rightarrow> Ok () (upd_pipe a (\<lambda>p. p\<lparr>pi_lock := l\<rparr>) (k\<lparr>k_mach := m\<rparr>)) | Panic s \<Rightarrow> Panic s
   | Sleep c m \<Rightarrow> Sleep c (k\<lparr>k_mach := m\<rparr>) | Spin \<Rightarrow> Spin)"

definition set_pilock :: "nat \<Rightarrow> lockref \<Rightarrow> 'z pipestate_scheme \<Rightarrow> 'z pipestate_scheme" where
  "set_pilock a lk k = (case lk of LkOther l \<Rightarrow> upd_pipe a (\<lambda>p. p\<lparr>pi_lock := l\<rparr>) k | _ \<Rightarrow> k)"

subsection \<open>Operations\<close>

definition pipeclose :: "nat \<Rightarrow> bool \<Rightarrow> 'z pipestate_scheme \<Rightarrow> (unit, 'z pipestate_scheme) kres" where
  "pipeclose a writable k =
     bindk (acquire_pi a k) (\<lambda>_ k.
     bindk (if writable then wakeup (ChPipeRead a) (upd_pipe a (\<lambda>p. p\<lparr>writeopen := False\<rparr>) k)
            else wakeup (ChPipeWrite a) (upd_pipe a (\<lambda>p. p\<lparr>readopen := False\<rparr>) k)) (\<lambda>_ k.
       if \<not> readopen (pi_pipes k a) \<and> \<not> writeopen (pi_pipes k a)
       then bindk (release_pi a k) (\<lambda>_ k. Ok () (call (CKfree (of_nat a)) k))
       else release_pi a k))"

definition pipe_put :: "byte \<Rightarrow> pipe \<Rightarrow> pipe" where
  "pipe_put b p = p\<lparr>pi_data := (pi_data p)[unat (nwrite p) mod PIPESIZE := b], nwrite := nwrite p + 1\<rparr>"

definition pipe_full :: "pipe \<Rightarrow> bool" where
  "pipe_full p \<longleftrightarrow> nwrite p = nread p + of_nat PIPESIZE"

text \<open>
  The copying loop of \<^verbatim>\<open>pipewrite\<close>, with \<open>i\<close> bytes written and \<open>r\<close> to go. The value says whether it
  ran to its end; \<open>False\<close> is the early return, with the lock released.
\<close>

definition cur_is_killed :: "'z kstate_scheme \<Rightarrow> (bool, 'z kstate_scheme) kres" where
  "cur_is_killed k = with_cur (\<lambda>p k. Ok (p_killed (k_procs k ! p)) k) k"

fun write_loop ::
  "nat \<Rightarrow> nat \<Rightarrow> uint \<Rightarrow> nat \<Rightarrow> nat \<Rightarrow> 'z pipestate_scheme \<Rightarrow> (bool, 'z pipestate_scheme) kres" where
  "write_loop a cur addr i 0 k = Ok True k"
| "write_loop a cur addr i (Suc r) k =
     (if pipe_full (pi_pipes k a) then
        bindk (if \<not> readopen (pi_pipes k a) then Ok True k else cur_is_killed k) (\<lambda>gone k.
          if gone then bindk (release_pi a k) (\<lambda>_ k. Ok False k)
          else bindk (wakeup (ChPipeRead a) k) (\<lambda>_ k.
               bindk (sleep_enter (ChPipeWrite a) (LkOther (pi_lock (pi_pipes k a))) k) (\<lambda>(ie, lk) k.
               Sleep (ChPipeWrite a) (set_pilock a lk k))))
      else write_loop a cur addr (Suc i) r (upd_pipe a (pipe_put (k_umem k cur (addr + of_nat i))) k))"

definition write_rest ::
  "nat \<Rightarrow> nat \<Rightarrow> uint \<Rightarrow> int \<Rightarrow> nat \<Rightarrow> 'z pipestate_scheme \<Rightarrow> (int, 'z pipestate_scheme) kres" where
  "write_rest a cur addr n i k =
     bindk (write_loop a cur addr i (nat n - i) k) (\<lambda>whole k.
       if whole then
         bindk (wakeup (ChPipeRead a) k) (\<lambda>_ k. bindk (release_pi a k) (\<lambda>_ k. Ok n k))
       else Ok (-1) k)"

definition pipewrite ::
  "nat \<Rightarrow> nat \<Rightarrow> uint \<Rightarrow> int \<Rightarrow> 'z pipestate_scheme \<Rightarrow> (int, 'z pipestate_scheme) kres" where
  "pipewrite a cur addr n k = bindk (acquire_pi a k) (\<lambda>_ k. write_rest a cur addr n 0 k)"

definition pipewrite_resume ::
  "nat \<Rightarrow> nat \<Rightarrow> bool \<Rightarrow> uint \<Rightarrow> int \<Rightarrow> nat \<Rightarrow> 'z pipestate_scheme \<Rightarrow> (int, 'z pipestate_scheme) kres" where
  "pipewrite_resume a cur ie addr n i k =
     bindk (sleep_return cur ie (LkOther (pi_lock (pi_pipes k a))) k) (\<lambda>lk k.
       write_rest a cur addr n i (set_pilock a lk k))"

definition pipe_get :: "pipe \<Rightarrow> byte" where
  "pipe_get p = pi_data p ! (unat (nread p) mod PIPESIZE)"

fun read_loop ::
  "nat \<Rightarrow> nat \<Rightarrow> uint \<Rightarrow> nat \<Rightarrow> nat \<Rightarrow> 'z pipestate_scheme \<Rightarrow> nat \<times> 'z pipestate_scheme" where
  "read_loop a cur addr i 0 k = (i, k)"
| "read_loop a cur addr i (Suc r) k =
     (if nread (pi_pipes k a) = nwrite (pi_pipes k a) then (i, k)
      else read_loop a cur addr (Suc i) r
        (upd_pipe a (\<lambda>p. p\<lparr>nread := nread p + 1\<rparr>)
          (k\<lparr>k_umem := (k_umem k)(cur := (k_umem k cur)(addr + of_nat i := pipe_get (pi_pipes k a)))\<rparr>)))"

definition read_rest ::
  "nat \<Rightarrow> nat \<Rightarrow> uint \<Rightarrow> int \<Rightarrow> 'z pipestate_scheme \<Rightarrow> (int, 'z pipestate_scheme) kres" where
  "read_rest a cur addr n k =
     (if nread (pi_pipes k a) = nwrite (pi_pipes k a) \<and> writeopen (pi_pipes k a) then
        bindk (cur_is_killed k) (\<lambda>killed k.
          if killed then bindk (release_pi a k) (\<lambda>_ k. Ok (-1) k)
          else bindk (sleep_enter (ChPipeRead a) (LkOther (pi_lock (pi_pipes k a))) k) (\<lambda>(ie, lk) k.
               Sleep (ChPipeRead a) (set_pilock a lk k)))
      else let (i, k) = read_loop a cur addr 0 (nat n) k in
        bindk (wakeup (ChPipeWrite a) k) (\<lambda>_ k. bindk (release_pi a k) (\<lambda>_ k. Ok (int i) k)))"

definition piperead ::
  "nat \<Rightarrow> nat \<Rightarrow> uint \<Rightarrow> int \<Rightarrow> 'z pipestate_scheme \<Rightarrow> (int, 'z pipestate_scheme) kres" where
  "piperead a cur addr n k = bindk (acquire_pi a k) (\<lambda>_ k. read_rest a cur addr n k)"

definition piperead_resume ::
  "nat \<Rightarrow> nat \<Rightarrow> bool \<Rightarrow> uint \<Rightarrow> int \<Rightarrow> 'z pipestate_scheme \<Rightarrow> (int, 'z pipestate_scheme) kres" where
  "piperead_resume a cur ie addr n k =
     bindk (sleep_return cur ie (LkOther (pi_lock (pi_pipes k a))) k) (\<lambda>lk k.
       read_rest a cur addr n (set_pilock a lk k))"

subsection \<open>The buffer as a queue\<close>

definition pipe_len :: "pipe \<Rightarrow> nat" where
  "pipe_len p = unat (nwrite p - nread p)"

definition pipe_ok :: "pipe \<Rightarrow> bool" where
  "pipe_ok p \<longleftrightarrow> length (pi_data p) = PIPESIZE \<and> pipe_len p \<le> PIPESIZE"

definition pipe_items :: "pipe \<Rightarrow> byte list" where
  "pipe_items p = map (\<lambda>i. pi_data p ! ((unat (nread p) + i) mod PIPESIZE)) [0..<pipe_len p]"

lemma length_pipe_items [simp]: "length (pipe_items p) = pipe_len p"
  by (simp add: pipe_items_def)

lemma PIPESIZE_dvd: "PIPESIZE dvd 2 ^ 32"
  by (simp add: PIPESIZE_def)

lemma unat_add_mod: "unat (x + y :: uint) mod PIPESIZE = (unat x + unat y) mod PIPESIZE"
  using PIPESIZE_dvd by (simp add: unat_word_ariths mod_mod_cancel)

lemma nwrite_slot: "unat (nwrite p) mod PIPESIZE = (unat (nread p) + pipe_len p) mod PIPESIZE"
  using unat_add_mod [of "nread p" "nwrite p - nread p"] by (simp add: pipe_len_def)

lemma pipe_full_iff: "pipe_full p \<longleftrightarrow> pipe_len p = PIPESIZE"
proof -
  have "pipe_full p \<longleftrightarrow> nwrite p - nread p = of_nat PIPESIZE"
    by (auto simp: pipe_full_def algebra_simps)
  also have "\<dots> \<longleftrightarrow> pipe_len p = PIPESIZE"
    by (simp add: pipe_len_def word_unat_eq_iff PIPESIZE_def)
  finally show ?thesis .
qed

lemma pipe_empty_iff: "nread p = nwrite p \<longleftrightarrow> pipe_len p = 0"
  by (auto simp: pipe_len_def unat_eq_0)

lemma pipe_len_put:
  assumes "pipe_len p < PIPESIZE"
  shows "pipe_len (pipe_put b p) = Suc (pipe_len p)"
proof -
  have "unat (nwrite p - nread p + 1) = unat (nwrite p - nread p) + 1"
    using assms unat_add_of_nat [of "nwrite p - nread p" 1] by (simp add: pipe_len_def PIPESIZE_def)
  then show ?thesis by (simp add: pipe_len_def pipe_put_def algebra_simps)
qed

lemma slot_inj:
  assumes "i < j" "j < N"
  shows "(r + i) mod N \<noteq> (r + j) mod (N::nat)"
proof
  assume "(r + i) mod N = (r + j) mod N"
  then have "N dvd j - i" using assms mod_eq_dvd_iff_nat [of "r + i" "r + j" N] by simp
  then show False using assms dvd_imp_le [of N "j - i"] by simp
qed

lemma pipe_put_ok:
  assumes "pipe_ok p" "pipe_len p < PIPESIZE"
  shows "pipe_ok (pipe_put b p)" "pipe_items (pipe_put b p) = pipe_items p @ [b]"
proof -
  show "pipe_ok (pipe_put b p)"
    using assms pipe_len_put [of p b] by (simp add: pipe_ok_def pipe_put_def)
  have "(unat (nread p) + pipe_len p) mod PIPESIZE \<noteq> (unat (nread p) + i) mod PIPESIZE"
    if "i < pipe_len p" for i
    using slot_inj [OF that assms(2)] by (rule not_sym)
  then show "pipe_items (pipe_put b p) = pipe_items p @ [b]"
    using assms pipe_len_put [OF assms(2), of b]
    by (simp add: pipe_items_def pipe_put_def nwrite_slot pipe_ok_def)
qed

lemma pipe_put_simps [simp]:
  "nread (pipe_put b p) = nread p" "readopen (pipe_put b p) = readopen p"
  "writeopen (pipe_put b p) = writeopen p" "pi_lock (pipe_put b p) = pi_lock p"
  by (simp_all add: pipe_put_def)

lemma pipe_take_ok:
  assumes "pipe_ok p" "nread p \<noteq> nwrite p"
  shows "pipe_ok (p\<lparr>nread := nread p + 1\<rparr>)"
    "pipe_items p = pipe_get p # pipe_items (p\<lparr>nread := nread p + 1\<rparr>)"
proof -
  have l: "pipe_len (p\<lparr>nread := nread p + 1\<rparr>) = pipe_len p - 1" "0 < pipe_len p"
    using assms(2) by (simp_all add: pipe_len_def diff_diff_eq [symmetric] unat_minus_one unat_gt_0)
  then show "pipe_ok (p\<lparr>nread := nread p + 1\<rparr>)" using assms by (auto simp: pipe_ok_def)
  have "(unat (nread p + 1) + i) mod PIPESIZE = (unat (nread p) + Suc i) mod PIPESIZE" for i
    using arg_cong [OF unat_add_mod [of "nread p" 1], of "\<lambda>x. (x + i) mod PIPESIZE"]
    by (simp add: mod_simps)
  then show "pipe_items p = pipe_get p # pipe_items (p\<lparr>nread := nread p + 1\<rparr>)"
    using l by (cases "pipe_len p") (simp_all add: pipe_items_def pipe_get_def upt_conv_Cons
        map_Suc_upt [symmetric] del: upt_Suc)
qed


subsection \<open>Runs with the lock held\<close>

definition pi_held :: "nat \<Rightarrow> mach \<Rightarrow> nat \<Rightarrow> 'z pipestate_scheme \<Rightarrow> bool" where
  "pi_held c m a k \<longleftrightarrow> on_cpu c m \<and> k_mach k = pushed c m \<and> \<not> locked (k_ptlock k)
     \<and> locked (pi_lock (pi_pipes k a)) \<and> lk_cpu (pi_lock (pi_pipes k a)) = Some c"

definition pi_ready :: "nat \<Rightarrow> nat \<Rightarrow> 'z pipestate_scheme \<Rightarrow> bool" where
  "pi_ready c a k \<longleftrightarrow> ready c k \<and> \<not> locked (pi_lock (pi_pipes k a))"

abbreviation unlocked :: "spinlock \<Rightarrow> spinlock" where
  "unlocked l \<equiv> l\<lparr>locked := False, lk_cpu := None\<rparr>"

lemma upd_pipe_simps [simp]:
  "pi_pipes (upd_pipe a f k) a = f (pi_pipes k a)" "b \<noteq> a \<Longrightarrow> pi_pipes (upd_pipe a f k) b = pi_pipes k b"
  "k_procs (upd_pipe a f k) = k_procs k" "k_mach (upd_pipe a f k) = k_mach k"
  "k_umem (upd_pipe a f k) = k_umem k" "k_ptlock (upd_pipe a f k) = k_ptlock k"
  "upd_pipe a f (upd_pipe a g k) = upd_pipe a (\<lambda>p. f (g p)) k"
  by (simp_all add: upd_pipe_def)

lemma acquire_pi_ready:
  assumes "pi_ready c a k"
  shows "\<exists>k'. acquire_pi a k = Ok () k' \<and> pi_held c (k_mach k) a k'
    \<and> k_procs k' = k_procs k \<and> k_umem k' = k_umem k
    \<and> (\<exists>l. pi_pipes k' = (pi_pipes k)(a := pi_pipes k a\<lparr>pi_lock := l\<rparr>))"
  using assms
  by (auto simp: pi_ready_def ready_def acquire_pi_def acquire_on_cpu [of c "k_mach k"] pi_held_def
      upd_pipe_def)

lemma release_pi_held:
  assumes "pi_held c m a k"
  shows "\<exists>k'. release_pi a k = Ok () k' \<and> pi_ready c a k' \<and> k_mach k' = settled c m
    \<and> k_procs k' = k_procs k \<and> k_umem k' = k_umem k
    \<and> (\<exists>l. pi_pipes k' = (pi_pipes k)(a := pi_pipes k a\<lparr>pi_lock := l\<rparr>))"
  using assms
  by (auto simp: pi_held_def pi_ready_def ready_def release_pi_def release_held upd_pipe_def
      on_cpu_settled)

lemma wakeup_pi_held:
  assumes "pi_held c m a k"
  shows "\<exists>k'. wakeup ch k = Ok () k' \<and> pi_held c m a k' \<and> k_procs k' = wakeup1 (Some ch) (k_procs k)
    \<and> k_umem k' = k_umem k \<and> pi_pipes k' = pi_pipes k"
proof -
  have "ready c k" using assms by (auto simp: pi_held_def ready_def on_cpu_pushed)
  then show ?thesis
    using assms by (auto simp: wakeup_ready pi_held_def unlockpt_def lockpt_def)
qed

lemma pi_held_upd [simp]:
  "pi_lock (f (pi_pipes k a)) = pi_lock (pi_pipes k a) \<Longrightarrow>
   pi_held c m a (upd_pipe a f k) = pi_held c m a k"
  "pi_held c m a (k\<lparr>k_umem := u\<rparr>) = pi_held c m a k"
  by (simp_all add: pi_held_def)

lemma pipe_ok_lock [simp]: "pipe_ok (p\<lparr>pi_lock := l\<rparr>) = pipe_ok p"
  "pipe_items (p\<lparr>pi_lock := l\<rparr>) = pipe_items p" "pipe_len (p\<lparr>pi_lock := l\<rparr>) = pipe_len p"
  by (simp_all add: pipe_ok_def pipe_items_def pipe_len_def)

text \<open>As long as there is room the loop of \<^verbatim>\<open>pipewrite\<close> only appends.\<close>

lemma write_loop_room:
  assumes "pipe_ok (pi_pipes k a)" "pipe_len (pi_pipes k a) + r \<le> PIPESIZE"
  shows "\<exists>f. write_loop a cur addr i (r + r') k = write_loop a cur addr (i + r) r' (upd_pipe a f k)
    \<and> pi_lock (f (pi_pipes k a)) = pi_lock (pi_pipes k a) \<and> pipe_ok (f (pi_pipes k a))
    \<and> readopen (f (pi_pipes k a)) = readopen (pi_pipes k a)
    \<and> writeopen (f (pi_pipes k a)) = writeopen (pi_pipes k a)
    \<and> pipe_items (f (pi_pipes k a))
      = pipe_items (pi_pipes k a) @ mem_read (k_umem k cur) (addr + of_nat i) r"
  using assms
proof (induction r arbitrary: i k)
  case 0
  have "upd_pipe a (\<lambda>p. p) k = k" by (simp add: upd_pipe_def)
  then show ?case using 0 by (intro exI [of _ "\<lambda>p. p"]) (simp add: mem_read_def)
next
  case (Suc r)
  let ?b = "k_umem k cur (addr + of_nat i)"
  let ?k = "upd_pipe a (pipe_put ?b) k"
  have lt: "pipe_len (pi_pipes k a) < PIPESIZE" using Suc.prems by simp
  have "pipe_ok (pi_pipes ?k a)" "pipe_len (pi_pipes ?k a) + r \<le> PIPESIZE"
    using Suc.prems pipe_put_ok(1) [OF Suc.prems(1) lt] pipe_len_put [OF lt, of ?b] by simp_all
  from Suc.IH [OF this, of "Suc i"] obtain f where
    f: "write_loop a cur addr (Suc i) (r + r') ?k = write_loop a cur addr (Suc i + r) r' (upd_pipe a f ?k)"
      "pi_lock (f (pi_pipes ?k a)) = pi_lock (pi_pipes ?k a)" "pipe_ok (f (pi_pipes ?k a))"
      "readopen (f (pi_pipes ?k a)) = readopen (pi_pipes ?k a)"
      "writeopen (f (pi_pipes ?k a)) = writeopen (pi_pipes ?k a)"
      "pipe_items (f (pi_pipes ?k a))
       = pipe_items (pi_pipes ?k a) @ mem_read (k_umem ?k cur) (addr + of_nat (Suc i)) r"
    by blast
  have "mem_read (k_umem k cur) (addr + of_nat i) (Suc r)
      = ?b # mem_read (k_umem k cur) (addr + of_nat (Suc i)) r"
    by (simp add: mem_read_Cons ac_simps)
  moreover have "\<not> pipe_full (pi_pipes k a)" using lt by (simp add: pipe_full_iff)
  ultimately show ?case
    using f pipe_put_ok(2) [OF Suc.prems(1) lt, of ?b]
    by (intro exI [of _ "\<lambda>p. f (pipe_put ?b p)"]) simp
qed

lemma read_loop_items:
  assumes "pipe_ok (pi_pipes k a)" "i + r < 2 ^ 32"
  shows "\<exists>f u. read_loop a cur addr i r k
      = (i + min r (pipe_len (pi_pipes k a)), upd_pipe a f (k\<lparr>k_umem := (k_umem k)(cur := u)\<rparr>))
    \<and> pi_lock (f (pi_pipes k a)) = pi_lock (pi_pipes k a) \<and> pipe_ok (f (pi_pipes k a))
    \<and> pipe_items (f (pi_pipes k a)) = drop r (pipe_items (pi_pipes k a))
    \<and> u = mem_write (k_umem k cur) (addr + of_nat i) (take r (pipe_items (pi_pipes k a)))"
  using assms
proof (induction r arbitrary: i k)
  case 0
  have "upd_pipe a (\<lambda>p. p) k = k" by (simp add: upd_pipe_def)
  then show ?case using 0 by (intro exI [of _ "\<lambda>p. p"] exI [of _ "k_umem k cur"]) simp
next
  case (Suc r)
  let ?p = "pi_pipes k a"
  let ?m = "(k_umem k cur)(addr + of_nat i := pipe_get ?p)"
  let ?k = "upd_pipe a (\<lambda>p. p\<lparr>nread := nread p + 1\<rparr>) (k\<lparr>k_umem := (k_umem k)(cur := ?m)\<rparr>)"
  show ?case
  proof (cases "nread ?p = nwrite ?p")
    case True
    have "upd_pipe a (\<lambda>p. p) k = k" by (simp add: upd_pipe_def)
    moreover have "pipe_items ?p = []" "pipe_len ?p = 0"
      using True by (simp_all add: pipe_empty_iff flip: length_0_conv)
    ultimately show ?thesis using True Suc.prems
      by (intro exI [of _ "\<lambda>p. p"] exI [of _ "k_umem k cur"]) simp
  next
    case False
    note t = pipe_take_ok [OF Suc.prems(1) False]
    have l: "pipe_len ?p = Suc (pipe_len (?p\<lparr>nread := nread ?p + 1\<rparr>))"
      using arg_cong [OF t(2), of length] by simp
    have "pipe_ok (pi_pipes ?k a)" "Suc i + r < 2 ^ 32" using t(1) Suc.prems by simp_all
    from Suc.IH [OF this] obtain f u where
      f: "read_loop a cur addr (Suc i) r ?k
        = (Suc i + min r (pipe_len (pi_pipes ?k a)), upd_pipe a f (?k\<lparr>k_umem := (k_umem ?k)(cur := u)\<rparr>))"
        "pi_lock (f (pi_pipes ?k a)) = pi_lock (pi_pipes ?k a)" "pipe_ok (f (pi_pipes ?k a))"
        "pipe_items (f (pi_pipes ?k a)) = drop r (pipe_items (pi_pipes ?k a))"
        "u = mem_write (k_umem ?k cur) (addr + of_nat (Suc i)) (take r (pipe_items (pi_pipes ?k a)))"
      by blast
    have u: "u = mem_write (k_umem k cur) (addr + of_nat i) (take (Suc r) (pipe_items ?p))"
      using f(5) t(2) Suc.prems(2) by (simp add: mem_write_Cons ac_simps)
    have "upd_pipe a f (?k\<lparr>k_umem := (k_umem ?k)(cur := u)\<rparr>)
        = upd_pipe a (\<lambda>p. f (p\<lparr>nread := nread p + 1\<rparr>)) (k\<lparr>k_umem := (k_umem k)(cur := u)\<rparr>)"
      by (simp add: upd_pipe_def)
    then have "read_loop a cur addr i (Suc r) k = (i + min (Suc r) (pipe_len ?p),
        upd_pipe a (\<lambda>p. f (p\<lparr>nread := nread p + 1\<rparr>)) (k\<lparr>k_umem := (k_umem k)(cur := u)\<rparr>))"
      using f(1) False l by simp
    moreover have "pi_lock (f (?p\<lparr>nread := nread ?p + 1\<rparr>)) = pi_lock ?p"
        "pipe_ok (f (?p\<lparr>nread := nread ?p + 1\<rparr>))"
        "pipe_items (f (?p\<lparr>nread := nread ?p + 1\<rparr>)) = drop (Suc r) (pipe_items ?p)"
      using f(2-4) t(2) by simp_all
    ultimately show ?thesis using u by blast
  qed
qed


lemma pipewrite_room:
  assumes "pi_ready c a k" "pipe_ok (pi_pipes k a)" "0 \<le> n"
    and "pipe_len (pi_pipes k a) + nat n \<le> PIPESIZE"
  shows "\<exists>k'. pipewrite a cur addr n k = Ok n k' \<and> pi_ready c a k' \<and> pipe_ok (pi_pipes k' a)
    \<and> pipe_items (pi_pipes k' a) = pipe_items (pi_pipes k a) @ mem_read (k_umem k cur) addr (nat n)
    \<and> k_procs k' = wakeup1 (Some (ChPipeRead a)) (k_procs k) \<and> k_umem k' = k_umem k"
proof -
  obtain k1 l where k1: "acquire_pi a k = Ok () k1" "pi_held c (k_mach k) a k1"
      "k_procs k1 = k_procs k" "k_umem k1 = k_umem k"
      "pi_pipes k1 = (pi_pipes k)(a := pi_pipes k a\<lparr>pi_lock := l\<rparr>)"
    using acquire_pi_ready [OF assms(1)] by blast
  have "pipe_ok (pi_pipes k1 a)" "pipe_len (pi_pipes k1 a) + nat n \<le> PIPESIZE"
    using k1(5) assms by simp_all
  from write_loop_room [OF this, of cur addr 0 0] obtain f where
    f: "write_loop a cur addr 0 (nat n) k1 = Ok True (upd_pipe a f k1)"
      "pi_lock (f (pi_pipes k1 a)) = pi_lock (pi_pipes k1 a)" "pipe_ok (f (pi_pipes k1 a))"
      "pipe_items (f (pi_pipes k1 a)) = pipe_items (pi_pipes k1 a) @ mem_read (k_umem k1 cur) addr (nat n)"
    by auto
  have "pi_held c (k_mach k) a (upd_pipe a f k1)" using k1(2) f(2) by simp
  from wakeup_pi_held [OF this, of "ChPipeRead a"] obtain k2 where
    k2: "wakeup (ChPipeRead a) (upd_pipe a f k1) = Ok () k2" "pi_held c (k_mach k) a k2"
      "k_procs k2 = wakeup1 (Some (ChPipeRead a)) (k_procs k1)" "k_umem k2 = k_umem k1"
      "pi_pipes k2 = pi_pipes (upd_pipe a f k1)" by auto
  obtain k3 l' where "release_pi a k2 = Ok () k3" "pi_ready c a k3"
      "k_procs k3 = k_procs k2" "k_umem k3 = k_umem k2"
      "pi_pipes k3 = (pi_pipes k2)(a := pi_pipes k2 a\<lparr>pi_lock := l'\<rparr>)"
    using release_pi_held [OF k2(2)] by blast
  then show ?thesis
    using k1 k2 f by (auto simp: pipewrite_def write_rest_def)
qed

lemma piperead_items:
  assumes "pi_ready c a k" "pipe_ok (pi_pipes k a)" "0 \<le> n" "n < 2 ^ 32" "pipe_items (pi_pipes k a) \<noteq> []"
  shows "\<exists>k'. piperead a cur addr n k = Ok (int (min (nat n) (pipe_len (pi_pipes k a)))) k'
    \<and> pi_ready c a k' \<and> pipe_ok (pi_pipes k' a)
    \<and> pipe_items (pi_pipes k' a) = drop (nat n) (pipe_items (pi_pipes k a))
    \<and> k_procs k' = wakeup1 (Some (ChPipeWrite a)) (k_procs k)
    \<and> k_umem k' cur = mem_write (k_umem k cur) addr (take (nat n) (pipe_items (pi_pipes k a)))"
proof -
  obtain k1 l where k1: "acquire_pi a k = Ok () k1" "pi_held c (k_mach k) a k1"
      "k_procs k1 = k_procs k" "k_umem k1 = k_umem k"
      "pi_pipes k1 = (pi_pipes k)(a := pi_pipes k a\<lparr>pi_lock := l\<rparr>)"
    using acquire_pi_ready [OF assms(1)] by blast
  have ne: "nread (pi_pipes k1 a) \<noteq> nwrite (pi_pipes k1 a)"
    using assms(5) k1(5) by (simp add: pipe_empty_iff flip: length_greater_0_conv)
  have "pipe_ok (pi_pipes k1 a)" "0 + nat n < 2 ^ 32" using k1(5) assms by simp_all
  from read_loop_items [OF this, of cur addr] obtain f where
    f: "read_loop a cur addr 0 (nat n) k1 = (min (nat n) (pipe_len (pi_pipes k1 a)),
        upd_pipe a f (k1\<lparr>k_umem := (k_umem k1)(cur := mem_write (k_umem k1 cur) addr
          (take (nat n) (pipe_items (pi_pipes k1 a))))\<rparr>))" (is "_ = (_, ?k1)")
      "pi_lock (f (pi_pipes k1 a)) = pi_lock (pi_pipes k1 a)" "pipe_ok (f (pi_pipes k1 a))"
      "pipe_items (f (pi_pipes k1 a)) = drop (nat n) (pipe_items (pi_pipes k1 a))"
    by auto
  have "pi_held c (k_mach k) a ?k1" using k1(2) f(2) by simp
  from wakeup_pi_held [OF this, of "ChPipeWrite a"] obtain k2 where
    k2: "wakeup (ChPipeWrite a) ?k1 = Ok () k2" "pi_held c (k_mach k) a k2"
      "k_procs k2 = wakeup1 (Some (ChPipeWrite a)) (k_procs k1)" "k_umem k2 = k_umem ?k1"
      "pi_pipes k2 = pi_pipes ?k1" by auto
  obtain k3 l' where "release_pi a k2 = Ok () k3" "pi_ready c a k3"
      "k_procs k3 = k_procs k2" "k_umem k3 = k_umem k2"
      "pi_pipes k3 = (pi_pipes k2)(a := pi_pipes k2 a\<lparr>pi_lock := l'\<rparr>)"
    using release_pi_held [OF k2(2)] by blast
  then show ?thesis
    using k1 k2 f ne by (auto simp: piperead_def read_rest_def)
qed

subsection \<open>First in, first out\<close>

text \<open>
  Claim C24. A pipe is a byte queue. A write that fits returns its length and puts the writer's bytes
  behind those already there; a read that follows returns the oldest bytes, as many as it asked for
  or as there are, in the reader's memory, and leaves the rest. The counters may wrap around.
\<close>

theorem pipe_write_read_fifo:
  assumes "pi_ready c a k" and "pipe_ok (pi_pipes k a)" and "0 < n"
    and "length (pipe_items (pi_pipes k a)) + nat n \<le> PIPESIZE" and "0 \<le> n'" and "n' < 2 ^ 31"
  shows "\<exists>k1 k2. pipewrite a w addr n k = Ok n k1
    \<and> piperead a r buf n' k1 = Ok (min n' (int (length (pipe_items (pi_pipes k a))) + n)) k2
    \<and> (let q = pipe_items (pi_pipes k a) @ mem_read (k_umem k w) addr (nat n) in
        mem_read (k_umem k2 r) buf (min (nat n') (length q)) = take (nat n') q
        \<and> pipe_items (pi_pipes k2 a) = drop (nat n') q)"
proof -
  let ?q = "pipe_items (pi_pipes k a) @ mem_read (k_umem k w) addr (nat n)"
  from pipewrite_room [OF assms(1,2), of n w addr] assms(3,4) obtain k1 where
    k1: "pipewrite a w addr n k = Ok n k1" "pi_ready c a k1" "pipe_ok (pi_pipes k1 a)"
      "pipe_items (pi_pipes k1 a) = ?q" "k_umem k1 = k_umem k" by auto
  have len: "pipe_len (pi_pipes k1 a) = length ?q" using arg_cong [OF k1(4), of length] by simp
  have "?q \<noteq> []" using assms(3) by (simp flip: length_greater_0_conv)
  with piperead_items [OF k1(2,3), of n' r buf] assms(5,6) k1(4) obtain k2 where
    k2: "piperead a r buf n' k1 = Ok (int (min (nat n') (length ?q))) k2"
      "pipe_items (pi_pipes k2 a) = drop (nat n') ?q"
      "k_umem k2 r = mem_write (k_umem k1 r) buf (take (nat n') ?q)" unfolding len by auto
  have "mem_read (k_umem k2 r) buf (min (nat n') (length ?q)) = take (nat n') ?q"
    unfolding k2(3) using assms(6) by (intro mem_read_write_same) (auto simp: min_def)
  moreover have "int (min (nat n') (length ?q)) = min n' (int (length (pipe_items (pi_pipes k a))) + n)"
    using assms(3,5) by (auto simp: min_def)
  ultimately show ?thesis using k1(1) k2(1,2) by (simp add: Let_def)
qed

definition demo_pipe :: pipe where
  "demo_pipe = \<lparr>pi_lock = initlock ''pipe'', pi_data = replicate PIPESIZE 0, nread = -1, nwrite = -1,
     readopen = True, writeopen = True\<rparr>"

definition demo_pi :: pipestate where
  "demo_pi = pstate.extend demo_p \<lparr>pi_pipes = (\<lambda>_. demo_pipe)\<rparr>"

lemma demo_pi_simps [simp]:
  "k_procs demo_pi = k_procs demo_k" "k_mach demo_pi = demo_mach" "k_umem demo_pi = k_umem demo_k"
  "k_ptlock demo_pi = initlock ''ptable''" "pi_pipes demo_pi = (\<lambda>_. demo_pipe)"
  using demo_p_simps by (simp_all add: demo_pi_def pstate.defs del: demo_p_simps)

lemma demo_pipe_ok [simp]:
  "pipe_ok demo_pipe" "pipe_items demo_pipe = []" "pipe_len demo_pipe = 0"
  "readopen demo_pipe" "writeopen demo_pipe" "nread demo_pipe = -1" "nwrite demo_pipe = -1" "pi_lock demo_pipe = initlock ''pipe''"
  by (simp_all add: demo_pipe_def pipe_ok_def pipe_len_def pipe_items_def)

lemma pi_ready_demo [simp]: "pi_ready 0 a demo_pi"
  by (simp add: pi_ready_def ready_def initlock_def)

theorem pipe_write_read_fifo_witness:
  "nwrite (pi_pipes demo_pi 5) = -1 \<and> (\<exists>k1 k2. pipewrite 5 0 0x100 3 demo_pi = Ok 3 k1
    \<and> piperead 5 1 0x200 2 k1 = Ok 2 k2 \<and> mem_read (k_umem k2 1) 0x200 2 = [7, 7]
    \<and> pipe_items (pi_pipes k2 5) = [7])"
  using pipe_write_read_fifo [of 0 5 demo_pi 3 2 0 "0x100" 1 "0x200"]
  by (auto simp: PIPESIZE_def Let_def mem_read_def upt_rec)


subsection \<open>Sleeping and waking up\<close>

text \<open>The lock operations do not put a thread to sleep, and change only locks and the machine.\<close>

lemma bindk_eq_Sleep:
  "bindk r f = Sleep c s \<longleftrightarrow> r = Sleep c s \<or> (\<exists>a t. r = Ok a t \<and> f a t = Sleep c s)"
  by (cases r) auto

lemma lock_no_sleep:
  "mycpu m \<noteq> Sleep c s" "pushcli m \<noteq> Sleep c s" "popcli m \<noteq> Sleep c s" "holding lk m \<noteq> Sleep c s"
  "acquire lk m \<noteq> Sleep c s" "release lk m \<noteq> Sleep c s" "myproc m \<noteq> Sleep c s"
proof -
  show 1: "mycpu m \<noteq> Sleep c s" for m by (simp add: mycpu_def split: option.splits)
  show 2: "pushcli m \<noteq> Sleep c s" for m by (simp add: pushcli_def bindk_eq_Sleep 1 Let_def)
  show 3: "popcli m \<noteq> Sleep c s" for m by (simp add: popcli_def bindk_eq_Sleep 1 Let_def)
  show 4: "holding lk m \<noteq> Sleep c s" for lk m by (simp add: holding_def bindk_eq_Sleep 1 2 3 Let_def)
  show "acquire lk m \<noteq> Sleep c s" "release lk m \<noteq> Sleep c s" "myproc m \<noteq> Sleep c s"
    by (simp_all add: acquire_def release_def myproc_def bindk_eq_Sleep 1 2 3 4 Let_def)
qed

definition relocked :: "'z kstate_scheme \<Rightarrow> 'z kstate_scheme \<Rightarrow> bool" where
  "relocked k k' \<longleftrightarrow> k_procs k' = k_procs k \<and> k_umem k' = k_umem k \<and> k_nextpid k' = k_nextpid k
     \<and> k_initproc k' = k_initproc k \<and> kstate.more k' = kstate.more k"

abbreviation quiet :: "('a \<Rightarrow> 's \<Rightarrow> bool) \<Rightarrow> ('a, 's) kres \<Rightarrow> bool" where
  "quiet Q \<equiv> kpost Q (\<lambda>_. False)"

lemma relocked_mach [simp]: "relocked k (k\<lparr>k_mach := m\<rparr>)"
  by (simp add: relocked_def)

lemma relocked_trans: "relocked k k' \<Longrightarrow> relocked k' k'' \<Longrightarrow> relocked k k''"
  by (auto simp: relocked_def)

lemma acquire_pt_quiet: "quiet (\<lambda>_. relocked k) (acquire_pt k)"
  by (auto simp: acquire_pt_def lock_no_sleep relocked_def split: kres.splits)

lemma release_pt_quiet: "quiet (\<lambda>_. relocked k) (release_pt k)"
  by (auto simp: release_pt_def lock_no_sleep relocked_def split: kres.splits)

lemma myproc_k_quiet: "quiet (\<lambda>_. relocked k) (myproc_k k)"
  using lock_no_sleep(7) [of "k_mach k"] by (cases "myproc (k_mach k)") (auto simp: myproc_k_def relocked_mach)

lemma mycpu_k_quiet: "quiet (\<lambda>_. relocked k) (mycpu_k k)"
  using lock_no_sleep(1) [of "k_mach k"] by (cases "mycpu (k_mach k)") (auto simp: mycpu_k_def relocked_mach)

lemma holding_pt_quiet: "quiet (\<lambda>_. relocked k) (holding_pt k)"
  using lock_no_sleep(4) [of "k_ptlock k" "k_mach k"]
  by (cases "holding (k_ptlock k) (k_mach k)") (auto simp: holding_pt_def relocked_mach)

lemma wakeup_quiet:
  "quiet (\<lambda>_. relocked (k\<lparr>k_procs := wakeup1 (Some ch) (k_procs k)\<rparr>)) (wakeup ch k)"
  unfolding wakeup_def
  by (rule kpost_bind [OF acquire_pt_quiet], rule kpost_weaken [OF release_pt_quiet])
     (auto simp: relocked_def)

lemma sched_enter_quiet: "quiet (\<lambda>_. relocked k) (sched_enter k)"
  unfolding sched_enter_def
  by (rule kpost_bind [OF myproc_k_quiet], rule kpost_bind [OF holding_pt_quiet])
     (auto intro!: kpost_bind [OF mycpu_k_quiet] split: option.splits
       simp: relocked_def)

lemma cur_is_killed_quiet: "quiet (\<lambda>_. relocked k) (cur_is_killed k)"
  unfolding cur_is_killed_def with_cur_def
  by (rule kpost_bind [OF myproc_k_quiet]) (auto split: option.splits)

lemma release_other_quiet: "quiet (\<lambda>_. relocked k) (release_other lk k)"
proof (cases lk)
  case (LkOther l)
  show ?thesis unfolding release_other_def LkOther lockref.case
    by (rule kpost_bind [OF acquire_pt_quiet])
       (auto simp: lock_no_sleep split: kres.splits intro: relocked_trans relocked_mach)
qed (auto simp: release_other_def relocked_def)

definition asleep_on :: "nat \<Rightarrow> chan \<Rightarrow> proc list \<Rightarrow> proc list" where
  "asleep_on p ch ps = ps[p := (ps ! p)\<lparr>p_chan := Some ch, p_state := SLEEPING\<rparr>]"

lemma sleep_enter_quiet:
  "quiet (\<lambda>_ k'. \<exists>p. relocked (k\<lparr>k_procs := asleep_on p ch (k_procs k)\<rparr>) k') (sleep_enter ch lk k)"
  unfolding sleep_enter_def asleep_on_def
  by (rule kpost_bind [OF myproc_k_quiet])
     (auto split: option.splits intro!: kpost_bind [OF release_other_quiet] kpost_bind [OF sched_enter_quiet]
       simp: relocked_def)

lemma upd_pipe_mach: "relocked (upd_pipe a f k) (upd_pipe a f (k\<lparr>k_mach := m\<rparr>))"
  by (cases k) (simp add: relocked_def upd_pipe_def)

lemma acquire_pi_quiet:
  "quiet (\<lambda>_ k'. \<exists>l. relocked (upd_pipe a (\<lambda>p. p\<lparr>pi_lock := l\<rparr>) k) k') (acquire_pi a k)"
  by (auto simp: acquire_pi_def lock_no_sleep intro: upd_pipe_mach split: kres.splits)

lemma release_pi_quiet:
  "quiet (\<lambda>_ k'. \<exists>l. relocked (upd_pipe a (\<lambda>p. p\<lparr>pi_lock := l\<rparr>) k) k') (release_pi a k)"
  by (auto simp: release_pi_def lock_no_sleep intro: upd_pipe_mach split: kres.splits)

lemma relocked_pipes: "relocked k k' \<Longrightarrow> pi_pipes k' = pi_pipes k"
  by (cases k; cases k') (simp add: relocked_def)

lemma sched_return_quiet: "quiet (\<lambda>_. relocked k) (sched_return ie k)"
  unfolding sched_return_def
  by (rule kpost_bind [OF mycpu_k_quiet]) (simp add: relocked_def)

definition off_chan :: "nat \<Rightarrow> proc list \<Rightarrow> proc list" where
  "off_chan p ps = ps[p := (ps ! p)\<lparr>p_chan := None\<rparr>]"

lemma sleep_return_quiet:
  "quiet (\<lambda>_. relocked (k\<lparr>k_procs := off_chan p (k_procs k)\<rparr>)) (sleep_return p ie lk k)"
  unfolding sleep_return_def Let_def off_chan_def
  by (rule kpost_bind [OF sched_return_quiet])
     (auto split: lockref.splits kres.splits intro!: kpost_bind [OF release_pt_quiet]
       simp: relocked_def lock_no_sleep)

definition waiting :: "chan \<Rightarrow> proc list \<Rightarrow> bool" where
  "waiting ch ps \<longleftrightarrow> (\<exists>p\<in>set ps. p_state p = SLEEPING \<and> p_chan p = Some ch)"

lemma waiting_wakeup1: "waiting ch (wakeup1 (Some ch') ps) \<longleftrightarrow> ch \<noteq> ch' \<and> waiting ch ps"
  by (fastforce simp: waiting_def wakeup1_def)

lemma waiting_asleep_on: "waiting ch (asleep_on p ch' ps) \<Longrightarrow> ch = ch' \<or> waiting ch ps"
  by (auto simp: waiting_def asleep_on_def dest!: set_update_subset_insert [THEN subsetD])

lemma waiting_off_chan: "waiting ch (off_chan p ps) \<Longrightarrow> waiting ch ps"
  by (auto simp: waiting_def off_chan_def dest!: set_update_subset_insert [THEN subsetD])

text \<open>
  Nobody sleeps on a pipe without a reason: readers only while it is empty and open for writing,
  writers only while it is full and open for reading.
\<close>

definition waits_ok :: "nat \<Rightarrow> proc list \<Rightarrow> pipe \<Rightarrow> bool" where
  "waits_ok a ps p \<longleftrightarrow> (waiting (ChPipeRead a) ps \<longrightarrow> nread p = nwrite p \<and> writeopen p)
     \<and> (waiting (ChPipeWrite a) ps \<longrightarrow> pipe_full p \<and> readopen p)"

abbreviation pipe_waits_ok :: "nat \<Rightarrow> 'z pipestate_scheme \<Rightarrow> bool" where
  "pipe_waits_ok a k \<equiv> waits_ok a (k_procs k) (pi_pipes k a)"

lemma waits_ok_lock [simp]: "waits_ok a ps (p\<lparr>pi_lock := l\<rparr>) = waits_ok a ps p"
  by (simp add: waits_ok_def pipe_full_def)

lemma relocked_pipe:
  assumes "relocked (upd_pipe a (\<lambda>p. p\<lparr>pi_lock := l\<rparr>) k) k'"
  shows "k_procs k' = k_procs k" "pi_pipes k' a = pi_pipes k a\<lparr>pi_lock := l\<rparr>"
  using assms relocked_pipes [OF assms] by (simp_all add: relocked_def)

lemma relocked_procs: "relocked k k' \<Longrightarrow> k_procs k' = k_procs k"
  by (simp add: relocked_def)

lemma acquire_pi_waits: "pipe_waits_ok a k \<Longrightarrow> quiet (\<lambda>_. pipe_waits_ok a) (acquire_pi a k)"
  by (rule kpost_weaken [OF acquire_pi_quiet]) (auto simp: relocked_pipe)

lemma release_pi_waits: "pipe_waits_ok a k \<Longrightarrow> quiet (\<lambda>_. pipe_waits_ok a) (release_pi a k)"
  by (rule kpost_weaken [OF release_pi_quiet]) (auto simp: relocked_pipe)

lemma cur_is_killed_keeps:
  "quiet (\<lambda>_ k'. k_procs k' = k_procs k \<and> pi_pipes k' = pi_pipes k) (cur_is_killed k)"
  by (rule kpost_weaken [OF cur_is_killed_quiet]) (auto dest: relocked_pipes relocked_procs)

lemma wakeup_keeps:
  "quiet (\<lambda>_ k'. k_procs k' = wakeup1 (Some ch) (k_procs k) \<and> pi_pipes k' = pi_pipes k) (wakeup ch k)"
  by (rule kpost_weaken [OF wakeup_quiet]) (auto dest: relocked_pipes relocked_procs)

lemma sleep_enter_keeps:
  "quiet (\<lambda>_ k'. (\<exists>p. k_procs k' = asleep_on p ch (k_procs k)) \<and> pi_pipes k' = pi_pipes k)
     (sleep_enter ch lk k)"
  by (rule kpost_weaken [OF sleep_enter_quiet])
     (clarsimp, frule relocked_pipes, drule relocked_procs, auto)

lemma sleep_return_keeps:
  "quiet (\<lambda>_ k'. k_procs k' = off_chan p (k_procs k) \<and> pi_pipes k' = pi_pipes k) (sleep_return p ie lk k)"
  by (rule kpost_weaken [OF sleep_return_quiet]) (auto dest: relocked_pipes relocked_procs)

lemma set_pilock_waits [simp]: "pipe_waits_ok a (set_pilock a lk k) = pipe_waits_ok a k"
  by (simp add: set_pilock_def split: lockref.splits)

lemma waits_ok_sleep_write:
  "pipe_full p \<Longrightarrow> readopen p \<Longrightarrow>
   waits_ok a (asleep_on q (ChPipeWrite a) (wakeup1 (Some (ChPipeRead a)) ps)) p"
  by (auto simp: waits_ok_def waiting_wakeup1 dest: waiting_asleep_on)

text \<open>Writers that sleep while the copying loop runs do so for a reason; readers may be late.\<close>

definition writers_ok :: "nat \<Rightarrow> 'z pipestate_scheme \<Rightarrow> bool" where
  "writers_ok a k \<longleftrightarrow>
     (waiting (ChPipeWrite a) (k_procs k) \<longrightarrow> pipe_full (pi_pipes k a) \<and> readopen (pi_pipes k a))"

lemma quiet_bind:
  "quiet Q r \<Longrightarrow> (\<And>a s. Q a s \<Longrightarrow> kpost R S (f a s)) \<Longrightarrow> kpost R S (bindk r f)"
  by (cases r) simp_all

lemma write_loop_waits:
  "writers_ok a k \<Longrightarrow>
   kpost (\<lambda>whole k'. whole \<longrightarrow> writers_ok a k') (pipe_waits_ok a) (write_loop a cur addr i r k)"
proof (induction r arbitrary: i k)
  case (Suc r)
  let ?sleep = "\<lambda>k. bindk (wakeup (ChPipeRead a) k) (\<lambda>_ k.
     bindk (sleep_enter (ChPipeWrite a) (LkOther (pi_lock (pi_pipes k a))) k) (\<lambda>(ie, lk) k.
       Sleep (ChPipeWrite a) (set_pilock a lk k)))"
  show ?case
  proof (cases "pipe_full (pi_pipes k a)")
    case True
    have sleep: "kpost Q (pipe_waits_ok a) (?sleep k1)"
      if "pi_pipes k1 = pi_pipes k" "readopen (pi_pipes k a)" for k1 Q
      using True that
      by (intro quiet_bind [OF wakeup_keeps] quiet_bind [OF sleep_enter_keeps])
         (auto intro: waits_ok_sleep_write)
    show ?thesis
    proof (cases "readopen (pi_pipes k a)")
      case True
      show ?thesis using \<open>pipe_full _\<close> True
        by (simp, intro quiet_bind [OF cur_is_killed_keeps])
           (auto intro!: sleep quiet_bind [OF release_pi_quiet])
    next
      case False
      show ?thesis using \<open>pipe_full _\<close> False
        by (auto intro!: quiet_bind [OF release_pi_quiet])
    qed
  next
    case False
    with Suc.prems have "writers_ok a (upd_pipe a (pipe_put b) k)" for b by (simp add: writers_ok_def)
    with False show ?thesis by (simp add: Suc.IH)
  qed
qed simp


lemma write_rest_waits:
  assumes "writers_ok a k"
  shows "kpost (\<lambda>r k'. r \<noteq> -1 \<longrightarrow> pipe_waits_ok a k') (pipe_waits_ok a) (write_rest a cur addr n i k)"
proof -
  have "kpost (\<lambda>r k'. r \<noteq> -1 \<longrightarrow> pipe_waits_ok a k') (pipe_waits_ok a)
      (bindk (wakeup (ChPipeRead a) k') (\<lambda>_ k. bindk (release_pi a k) (\<lambda>_ k. Ok n k)))"
    if "writers_ok a k'" for k' :: "'a pipestate_scheme"
    using that
    by (intro quiet_bind [OF wakeup_keeps] quiet_bind [OF release_pi_waits])
       (auto simp: waits_ok_def waiting_wakeup1 writers_ok_def)
  then show ?thesis
    unfolding write_rest_def by (intro kpost_bind [OF write_loop_waits [OF assms]]) auto
qed

lemma read_loop_keeps:
  "read_loop a cur addr i r k = (j, k') \<Longrightarrow> k_procs k' = k_procs k
     \<and> writeopen (pi_pipes k' a) = writeopen (pi_pipes k a) \<and> nwrite (pi_pipes k' a) = nwrite (pi_pipes k a)
     \<and> (nread (pi_pipes k a) = nwrite (pi_pipes k a) \<longrightarrow> nread (pi_pipes k' a) = nwrite (pi_pipes k' a))"
  by (induction r arbitrary: i k) (auto split: if_splits)

lemma read_rest_waits:
  assumes "pipe_waits_ok a k"
  shows "kpost (\<lambda>_. pipe_waits_ok a) (pipe_waits_ok a) (read_rest a cur addr n k)"
proof (cases "nread (pi_pipes k a) = nwrite (pi_pipes k a) \<and> writeopen (pi_pipes k a)")
  case True
  have "kpost (\<lambda>_. pipe_waits_ok a) (pipe_waits_ok a)
      (if b then bindk (release_pi a k1) (\<lambda>_ k. Ok (- 1) k)
       else bindk (sleep_enter (ChPipeRead a) (LkOther (pi_lock (pi_pipes k1 a))) k1) (\<lambda>(ie, lk) k.
               Sleep (ChPipeRead a) (set_pilock a lk k)))"
    if "k_procs k1 = k_procs k" "pi_pipes k1 = pi_pipes k" for k1 b
  proof (cases b)
    case True
    then show ?thesis using assms that by (auto intro!: quiet_bind [OF release_pi_waits])
  next
    case False
    have "waits_ok a (asleep_on q (ChPipeRead a) (k_procs k)) (pi_pipes k a)" for q
      using assms True by (auto simp: waits_ok_def dest: waiting_asleep_on)
    then show ?thesis using False that by (auto intro!: quiet_bind [OF sleep_enter_keeps])
  qed
  with True show ?thesis unfolding read_rest_def by (auto intro!: quiet_bind [OF cur_is_killed_keeps])
next
  case False
  obtain j k1 where k1: "read_loop a cur addr 0 (nat n) k = (j, k1)" by (cases "read_loop a cur addr 0 (nat n) k")
  have "waits_ok a (wakeup1 (Some (ChPipeWrite a)) (k_procs k1)) (pi_pipes k1 a)"
    using read_loop_keeps [OF k1] assms by (simp add: waits_ok_def waiting_wakeup1)
  then show ?thesis
    using False k1 unfolding read_rest_def
    by (auto intro!: quiet_bind [OF wakeup_keeps] quiet_bind [OF release_pi_waits])
qed

lemma waits_ok_close:
  "waits_ok a ps p \<Longrightarrow> waits_ok a (wakeup1 (Some (ChPipeRead a)) ps) (p\<lparr>writeopen := False\<rparr>)"
  "waits_ok a ps p \<Longrightarrow> waits_ok a (wakeup1 (Some (ChPipeWrite a)) ps) (p\<lparr>readopen := False\<rparr>)"
  by (auto simp: waits_ok_def waiting_wakeup1 pipe_full_def)

lemma pipeclose_waits:
  assumes "pipe_waits_ok a k"
  shows "kpost (\<lambda>_. pipe_waits_ok a) (pipe_waits_ok a) (pipeclose a wr k)"
proof -
  have rel: "kpost (\<lambda>_. pipe_waits_ok a) (pipe_waits_ok a)
      (if \<not> readopen (pi_pipes k1 a) \<and> \<not> writeopen (pi_pipes k1 a)
       then bindk (release_pi a k1) (\<lambda>_ k. Ok () (call (CKfree (of_nat a)) k)) else release_pi a k1)"
    if "pipe_waits_ok a k1" for k1 :: "'a pipestate_scheme"
    using that kpost_weaken [OF release_pi_waits [OF that], of _ "pipe_waits_ok a"]
    by (auto intro!: quiet_bind [OF release_pi_waits] simp: call_def)
  show ?thesis unfolding pipeclose_def
    by (rule quiet_bind [OF acquire_pi_waits [OF assms]], cases wr; simp only: if_True if_False)
       (rule quiet_bind [OF wakeup_keeps], rule rel, simp add: waits_ok_close)+
qed

text \<open>
  Claim C25. No lost wakeup on a pipe. If processes sleep on a pipe only for a reason (readers while it
  is empty and open for writing, writers while it is full and open for reading), the same holds after
  every step of \<^verbatim>\<open>pipewrite\<close>, \<^verbatim>\<open>piperead\<close> and \<^verbatim>\<open>pipeclose\<close>, whether it returns or goes to sleep, and
  after the resumed halves, except when a write fails with -1.
\<close>

theorem pipe_no_lost_wakeup:
  assumes "pipe_waits_ok a k"
  shows "kpost (\<lambda>r k'. r \<noteq> -1 \<longrightarrow> pipe_waits_ok a k') (pipe_waits_ok a) (pipewrite a cur addr n k)
    \<and> kpost (\<lambda>r k'. r \<noteq> -1 \<longrightarrow> pipe_waits_ok a k') (pipe_waits_ok a) (pipewrite_resume a cur ie addr n i k)
    \<and> kpost (\<lambda>_. pipe_waits_ok a) (pipe_waits_ok a) (piperead a cur addr n k)
    \<and> kpost (\<lambda>_. pipe_waits_ok a) (pipe_waits_ok a) (piperead_resume a cur ie addr n k)
    \<and> kpost (\<lambda>_. pipe_waits_ok a) (pipe_waits_ok a) (pipeclose a wr k)"
proof (intro conjI)
  have w: "writers_ok a k'" if "pipe_waits_ok a k'" for k' :: "'a pipestate_scheme"
    using that by (simp add: waits_ok_def writers_ok_def)
  have off: "waits_ok a (off_chan cur (k_procs k)) (pi_pipes k a)"
    using assms by (auto simp: waits_ok_def dest: waiting_off_chan)
  show "kpost (\<lambda>r k'. r \<noteq> -1 \<longrightarrow> pipe_waits_ok a k') (pipe_waits_ok a) (pipewrite a cur addr n k)"
    unfolding pipewrite_def by (intro quiet_bind [OF acquire_pi_waits [OF assms]] write_rest_waits w)
  show "kpost (\<lambda>_. pipe_waits_ok a) (pipe_waits_ok a) (piperead a cur addr n k)"
    unfolding piperead_def by (intro quiet_bind [OF acquire_pi_waits [OF assms]] read_rest_waits)
  show "kpost (\<lambda>r k'. r \<noteq> -1 \<longrightarrow> pipe_waits_ok a k') (pipe_waits_ok a) (pipewrite_resume a cur ie addr n i k)"
    unfolding pipewrite_resume_def
    by (rule quiet_bind [OF sleep_return_keeps]) (auto intro!: write_rest_waits w simp: off)
  show "kpost (\<lambda>_. pipe_waits_ok a) (pipe_waits_ok a) (piperead_resume a cur ie addr n k)"
    unfolding piperead_resume_def
    by (rule quiet_bind [OF sleep_return_keeps]) (auto intro!: read_rest_waits simp: off)
  show "kpost (\<lambda>_. pipe_waits_ok a) (pipe_waits_ok a) (pipeclose a wr k)"
    by (rule pipeclose_waits [OF assms])
qed

lemma demo_pi_waits [simp]: "pipe_waits_ok a demo_pi"
  by (simp add: waits_ok_def waiting_def)

theorem pipe_no_lost_wakeup_witness:
  "kpost (\<lambda>r k'. r \<noteq> -1 \<longrightarrow> pipe_waits_ok 5 k') (pipe_waits_ok 5) (pipewrite 5 0 0x100 3 demo_pi)
    \<and> (\<exists>k'. pipewrite 5 0 0x100 3 demo_pi = Ok 3 k' \<and> pipe_waits_ok 5 k')"
proof -
  have "kpost (\<lambda>r k'. r \<noteq> -1 \<longrightarrow> pipe_waits_ok 5 k') (pipe_waits_ok 5) (pipewrite 5 0 0x100 3 demo_pi)"
    using pipe_no_lost_wakeup [OF demo_pi_waits [of 5]] by blast
  moreover obtain k' where "pipewrite 5 0 0x100 3 demo_pi = Ok 3 k'"
    using pipewrite_room [of 0 5 demo_pi 3 0 "0x100"] by (auto simp: PIPESIZE_def)
  ultimately show ?thesis by simp
qed

text \<open>
  Claim C26. A failing write can strand a reader. When the writer has been killed, a write of more than
  \<^verbatim>\<open>PIPESIZE\<close> bytes to an empty pipe fills it, finds the process killed and returns -1 without the
  wakeup that ends a normal write: a reader asleep on the pipe stays asleep although the pipe is full.
\<close>

theorem killed_write_strands_reader:
  assumes "pi_ready c a k" and "pipe_ok (pi_pipes k a)" and "pipe_items (pi_pipes k a) = []"
    and "int PIPESIZE < n" and "running c w k" and "p_killed (k_procs k ! w)"
    and "j < length (k_procs k)" and "p_state (k_procs k ! j) = SLEEPING"
    and "p_chan (k_procs k ! j) = Some (ChPipeRead a)"
  shows "\<exists>k'. pipewrite a w addr n k = Ok (-1) k' \<and> length (pipe_items (pi_pipes k' a)) = PIPESIZE
    \<and> p_state (k_procs k' ! j) = SLEEPING \<and> p_chan (k_procs k' ! j) = Some (ChPipeRead a)"
proof -
  obtain k1 l where k1: "acquire_pi a k = Ok () k1" "pi_held c (k_mach k) a k1"
      "k_procs k1 = k_procs k" "k_umem k1 = k_umem k"
      "pi_pipes k1 = (pi_pipes k)(a := pi_pipes k a\<lparr>pi_lock := l\<rparr>)"
    using acquire_pi_ready [OF assms(1)] by blast
  have "pipe_len (pi_pipes k a) = 0" using assms(3) by (simp flip: length_pipe_items)
  then have "pipe_ok (pi_pipes k1 a)" "pipe_len (pi_pipes k1 a) + PIPESIZE \<le> PIPESIZE"
    using k1(5) assms by simp_all
  moreover obtain r' where r: "nat n = PIPESIZE + Suc r'"
    using assms(4) by (metis less_imp_Suc_add add_Suc_right zless_nat_eq_int_zless)
  ultimately obtain f where
    f: "write_loop a w addr 0 (PIPESIZE + Suc r') k1
        = write_loop a w addr (0 + PIPESIZE) (Suc r') (upd_pipe a f k1)"
      "pi_lock (f (pi_pipes k1 a)) = pi_lock (pi_pipes k1 a)"
      "pipe_items (f (pi_pipes k1 a))
       = pipe_items (pi_pipes k1 a) @ mem_read (k_umem k1 w) (addr + of_nat 0) PIPESIZE"
    using write_loop_room [of k1 a PIPESIZE w addr 0 "Suc r'"] by blast
  have len: "pipe_len (f (pi_pipes k1 a)) = PIPESIZE"
    using arg_cong [OF f(3), of length] \<open>pipe_len (pi_pipes k a) = 0\<close> k1(5) by simp
  let ?k = "upd_pipe a f k1"
  have held: "pi_held c (k_mach k) a ?k" using k1(2) f(2) by simp
  then have run: "running c w ?k" "settled c (k_mach ?k) = k_mach ?k"
    using assms(5) by (auto simp: running_def pi_held_def cproc_pushed on_cpu_pushed)
  then have "cur_is_killed ?k = Ok True ?k"
    using assms(6) k1(3) by (simp add: cur_is_killed_def with_cur_running)
  moreover have "pipe_full (pi_pipes ?k a)" using len by (simp add: pipe_full_iff)
  moreover obtain k2 l' where "release_pi a ?k = Ok () k2" "k_procs k2 = k_procs ?k"
      "pi_pipes k2 = (pi_pipes ?k)(a := pi_pipes ?k a\<lparr>pi_lock := l'\<rparr>)"
    using release_pi_held [OF held] by blast
  ultimately show ?thesis
    using k1(1,3) f(1) r len assms(8,9) by (auto simp: pipewrite_def write_rest_def)
qed

definition demo_pi2 :: pipestate where
  "demo_pi2 = demo_pi\<lparr>k_procs := [(demo_proc 1 RUNNING)\<lparr>p_killed := True\<rparr>,
     (demo_proc 2 SLEEPING)\<lparr>p_chan := Some (ChPipeRead 5)\<rparr>]\<rparr>"

theorem killed_write_strands_reader_witness:
  "pipe_waits_ok 5 demo_pi2 \<and> (\<exists>k'. pipewrite 5 0 0x100 3000 demo_pi2 = Ok (-1) k'
    \<and> length (pipe_items (pi_pipes k' 5)) = 2048
    \<and> p_state (k_procs k' ! 1) = SLEEPING)"
proof -
  have "pi_ready 0 5 demo_pi2" "running 0 0 demo_pi2" "pi_pipes demo_pi2 5 = demo_pipe"
    "k_procs demo_pi2 = [(demo_proc 1 RUNNING)\<lparr>p_killed := True\<rparr>,
       (demo_proc 2 SLEEPING)\<lparr>p_chan := Some (ChPipeRead 5)\<rparr>]"
    using pi_ready_demo [of 5] by (simp_all add: demo_pi2_def pi_ready_def ready_def running_def)
  with killed_write_strands_reader [of 0 5 demo_pi2 3000 0 1 "0x100"] show ?thesis
    by (auto simp: PIPESIZE_def waits_ok_def waiting_def)
qed

end
