(* ===== verification/File.thy ===== *)
theory File
  imports Dir Pipe
begin

text \<open>
  Open files: \<^verbatim>\<open>file.c\<close>. \<^verbatim>\<open>pipealloc\<close>, which also needs the page allocator, is in theory \<open>Exec\<close>.

  The state joins the file system (\<open>v_fs\<close>), the processes with their memories and pipes (\<open>v_pi\<close>) and
  the file table. A file pointer is the index of its entry, a pipe pointer the address of its page.
  Critical sections of \<^verbatim>\<open>ftable.lock\<close> are single steps. An operation that has to wait ends in
  \<open>Sleep\<close> with the state at that moment.
\<close>

datatype fdtype = FD_NONE | FD_PIPE | FD_INODE

record ofile =
  ff_type :: fdtype
  ff_ref :: int
  ff_readable :: bool
  ff_writable :: bool
  ff_pipe :: nat
  ff_ip :: nat
  ff_off :: uint

record vstate =
  v_fs :: fstate
  v_pi :: pipestate
  v_file :: "ofile list"

definition NFILE :: nat where "NFILE = 100"

definition in_fs :: "(fstate \<Rightarrow> ('a, fstate) kres) \<Rightarrow> 'z vstate_scheme \<Rightarrow> ('a, 'z vstate_scheme) kres" where
  "in_fs f s = zoomk (\<lambda>x. s\<lparr>v_fs := x\<rparr>) (f (v_fs s))"

definition in_pi :: "(pipestate \<Rightarrow> ('a, pipestate) kres) \<Rightarrow> 'z vstate_scheme \<Rightarrow> ('a, 'z vstate_scheme) kres" where
  "in_pi f s = zoomk (\<lambda>x. s\<lparr>v_pi := x\<rparr>) (f (v_pi s))"

abbreviation fileof :: "'z vstate_scheme \<Rightarrow> nat \<Rightarrow> ofile" where
  "fileof s f \<equiv> v_file s ! f"

definition upd_file :: "nat \<Rightarrow> (ofile \<Rightarrow> ofile) \<Rightarrow> 'z vstate_scheme \<Rightarrow> 'z vstate_scheme" where
  "upd_file f g s = s\<lparr>v_file := (v_file s)[f := g (fileof s f)]\<rparr>"

text \<open>Bytes of the current process's memory.\<close>

definition user_read :: "nat \<Rightarrow> uint \<Rightarrow> nat \<Rightarrow> 'z vstate_scheme \<Rightarrow> byte list" where
  "user_read cur addr n s = mem_read (k_umem (v_pi s) cur) addr n"

definition user_write :: "nat \<Rightarrow> uint \<Rightarrow> byte list \<Rightarrow> 'z vstate_scheme \<Rightarrow> 'z vstate_scheme" where
  "user_write cur addr bs s =
     s\<lparr>v_pi := (v_pi s)\<lparr>k_umem := (k_umem (v_pi s))(cur := mem_write (k_umem (v_pi s) cur) addr bs)\<rparr>\<rparr>"

subsection \<open>The file table\<close>

definition filealloc :: "'z vstate_scheme \<Rightarrow> (nat option, 'z vstate_scheme) kres" where
  "filealloc s =
     (case find_idx (\<lambda>f. ff_ref f = 0) (v_file s) of
        Some f \<Rightarrow> Ok (Some f) (upd_file f (\<lambda>x. x\<lparr>ff_ref := 1\<rparr>) s)
      | None \<Rightarrow> Ok None s)"

definition filedup :: "nat \<Rightarrow> 'z vstate_scheme \<Rightarrow> (nat, 'z vstate_scheme) kres" where
  "filedup f s =
     (if ff_ref (fileof s f) < 1 then Panic ''filedup''
      else Ok f (upd_file f (\<lambda>x. x\<lparr>ff_ref := ff_ref x + 1\<rparr>) s))"

definition fileclose :: "nat \<Rightarrow> 'z vstate_scheme \<Rightarrow> (unit, 'z vstate_scheme) kres" where
  "fileclose f s =
     (if ff_ref (fileof s f) < 1 then Panic ''fileclose''
      else
        let s = upd_file f (\<lambda>x. x\<lparr>ff_ref := ff_ref x - 1\<rparr>) s in
        if ff_ref (fileof s f) > 0 then Ok () s
        else
          let ff = fileof s f; s = upd_file f (\<lambda>x. x\<lparr>ff_ref := 0, ff_type := FD_NONE\<rparr>) s in
          (case ff_type ff of
             FD_PIPE \<Rightarrow> in_pi (pipeclose (ff_pipe ff) (ff_writable ff)) s
           | FD_INODE \<Rightarrow>
               bindk (in_fs begin_op s) (\<lambda>_ s.
               bindk (in_fs (iput (ff_ip ff)) s) (\<lambda>_ s. in_fs end_op s))
           | FD_NONE \<Rightarrow> Ok () s))"

definition filestat :: "nat \<Rightarrow> 'z vstate_scheme \<Rightarrow> (stat option, 'z vstate_scheme) kres" where
  "filestat f s =
     (if ff_type (fileof s f) = FD_INODE then
        let ip = ff_ip (fileof s f) in
        bindk (in_fs (ilock ip) s) (\<lambda>_ s.
          let st = stati ip (v_fs s) in
        bindk (in_fs (iunlock ip) s) (\<lambda>_ s. Ok (Some st) s))
      else Ok None s)"

subsection \<open>Reading and writing\<close>

definition fileread :: "fstate dev_read \<Rightarrow> nat \<Rightarrow> nat \<Rightarrow> uint \<Rightarrow> int \<Rightarrow> 'z vstate_scheme \<Rightarrow> (int, 'z vstate_scheme) kres" where
  "fileread dr cur f addr n s =
     (if \<not> ff_readable (fileof s f) then Ok (-1) s
      else case ff_type (fileof s f) of
        FD_PIPE \<Rightarrow> in_pi (piperead (ff_pipe (fileof s f)) cur addr n) s
      | FD_INODE \<Rightarrow>
          let ip = ff_ip (fileof s f) in
          bindk (in_fs (ilock ip) s) (\<lambda>_ s.
          bindk (in_fs (readi dr ip (ff_off (fileof s f)) (of_int n)) s) (\<lambda>r s.
            let s = user_write cur addr (snd r) s;
                s = (if fst r > 0 then upd_file f (\<lambda>x. x\<lparr>ff_off := ff_off x + of_int (fst r)\<rparr>) s else s) in
          bindk (in_fs (iunlock ip) s) (\<lambda>_ s. Ok (fst r) s)))
      | FD_NONE \<Rightarrow> Panic ''fileread'')"

definition write_max :: int where
  "write_max = ((MAXOPBLOCKS - 1 - 1 - 2) div 2) * 512"

text \<open>The loop of \<^verbatim>\<open>filewrite\<close>: one transaction per round. The value is the final \<^verbatim>\<open>i\<close>.\<close>

function filewrite_loop :: "fstate dev_write \<Rightarrow> nat \<Rightarrow> nat \<Rightarrow> uint \<Rightarrow> int \<Rightarrow> int \<Rightarrow> 'z vstate_scheme \<Rightarrow>
    (int, 'z vstate_scheme) kres" where
  "filewrite_loop dw cur f addr i n s =
     (if i < n then
        let n1 = (if n - i > write_max then write_max else n - i); ip = ff_ip (fileof s f) in
        bindk (in_fs begin_op s) (\<lambda>_ s.
        bindk (in_fs (ilock ip) s) (\<lambda>_ s.
        bindk (in_fs (writei dw ip (user_read cur (addr + of_int i) (nat n1) s) (ff_off (fileof s f)) (of_int n1)) s) (\<lambda>r s.
          let s = (if r > 0 then upd_file f (\<lambda>x. x\<lparr>ff_off := ff_off x + of_int r\<rparr>) s else s) in
        bindk (in_fs (iunlock ip) s) (\<lambda>_ s.
        bindk (in_fs end_op s) (\<lambda>_ s.
          if r < 0 then Ok i s
          else if r \<noteq> n1 then Panic ''short filewrite''
          else filewrite_loop dw cur f addr (i + n1) n s)))))
      else Ok i s)"
  by pat_completeness auto
termination
  by (relation "measure (\<lambda>(dw, cur, f, addr, i, n, s). nat (n - i))") (auto simp: write_max_def MAXOPBLOCKS_def)

definition filewrite :: "fstate dev_write \<Rightarrow> nat \<Rightarrow> nat \<Rightarrow> uint \<Rightarrow> int \<Rightarrow> 'z vstate_scheme \<Rightarrow> (int, 'z vstate_scheme) kres" where
  "filewrite dw cur f addr n s =
     (if \<not> ff_writable (fileof s f) then Ok (-1) s
      else case ff_type (fileof s f) of
        FD_PIPE \<Rightarrow> in_pi (pipewrite (ff_pipe (fileof s f)) cur addr n) s
      | FD_INODE \<Rightarrow> bindk (filewrite_loop dw cur f addr 0 n s) (\<lambda>i s. Ok (if i = n then n else -1) s)
      | FD_NONE \<Rightarrow> Panic ''filewrite'')"

subsection \<open>Pipes\<close>

text \<open>
  The two files of a new pipe at address \<open>a\<close>. The data bytes of the pipe are whatever the page held.
\<close>

definition pipe_files :: "nat \<Rightarrow> nat \<Rightarrow> nat \<Rightarrow> 'z vstate_scheme \<Rightarrow> 'z vstate_scheme" where
  "pipe_files a f0 f1 s =
     (let s = s\<lparr>v_pi := upd_pipe a (\<lambda>p. p\<lparr>readopen := True, writeopen := True, nwrite := 0, nread := 0,
                   pi_lock := initlock ''pipe''\<rparr>) (v_pi s)\<rparr>;
          s = upd_file f0 (\<lambda>x. x\<lparr>ff_type := FD_PIPE, ff_readable := True, ff_writable := False, ff_pipe := a\<rparr>) s
      in upd_file f1 (\<lambda>x. x\<lparr>ff_type := FD_PIPE, ff_readable := False, ff_writable := True, ff_pipe := a\<rparr>) s)"

declare filewrite_loop.simps [simp del]

end
