(* ===== verification/Kalloc.thy ===== *)
theory Kalloc
  imports Proclife
begin

text \<open>
  The physical page allocator of \<^verbatim>\<open>kalloc.c\<close>: a free list threaded through the free pages
  themselves, in byte-addressed kernel memory.

  The address \<^verbatim>\<open>end\<close> comes from the linker and is a parameter. The locale \<open>page_allocator\<close> is what the
  rest of the kernel relies on; it is interpreted on \<^verbatim>\<open>kalloc\<close> and \<^verbatim>\<open>kfree\<close>.
\<close>

subsection \<open>State and operations\<close>

definition KERNBASE :: uint where "KERNBASE = 0x80000000"
definition PHYSTOP :: uint where "PHYSTOP = 0xE000000"

definition V2P :: "uint \<Rightarrow> uint" where "V2P a = a - KERNBASE"
definition P2V :: "uint \<Rightarrow> uint" where "P2V a = a + KERNBASE"

definition PGROUNDUP :: "uint \<Rightarrow> uint" where
  "PGROUNDUP sz = (sz + PGSIZE - 1) AND NOT (PGSIZE - 1)"

definition PGROUNDDOWN :: "uint \<Rightarrow> uint" where
  "PGROUNDDOWN a = a AND NOT (PGSIZE - 1)"

record kmem =
  km_mach :: mach
  km_lock :: spinlock
  use_lock :: bool
  freelist :: uint
  km_mem :: mem

definition acquire_km :: "'z kmem_scheme \<Rightarrow> (unit, 'z kmem_scheme) kres" where
  "acquire_km s = (if use_lock s then
     (case acquire (km_lock s) (km_mach s) of
        Ok l m \<Rightarrow> Ok () (s\<lparr>km_lock := l, km_mach := m\<rparr>) | Panic e \<Rightarrow> Panic e
      | Sleep c m \<Rightarrow> Sleep c (s\<lparr>km_mach := m\<rparr>) | Spin \<Rightarrow> Spin) else Ok () s)"

definition release_km :: "'z kmem_scheme \<Rightarrow> (unit, 'z kmem_scheme) kres" where
  "release_km s = (if use_lock s then
     (case release (km_lock s) (km_mach s) of
        Ok l m \<Rightarrow> Ok () (s\<lparr>km_lock := l, km_mach := m\<rparr>) | Panic e \<Rightarrow> Panic e
      | Sleep c m \<Rightarrow> Sleep c (s\<lparr>km_mach := m\<rparr>) | Spin \<Rightarrow> Spin) else Ok () s)"

definition kfree :: "uint \<Rightarrow> uint \<Rightarrow> 'z kmem_scheme \<Rightarrow> (unit, 'z kmem_scheme) kres" where
  "kfree kend v s =
     (if v mod PGSIZE \<noteq> 0 \<or> v < kend \<or> V2P v \<ge> PHYSTOP then Panic ''kfree''
      else
        bindk (acquire_km (s\<lparr>km_mem := memset (km_mem s) v 1 PGSIZE\<rparr>)) (\<lambda>_ s.
        release_km (s\<lparr>km_mem := st32 (km_mem s) v (freelist s), freelist := v\<rparr>)))"

definition kalloc :: "'z kmem_scheme \<Rightarrow> (uint, 'z kmem_scheme) kres" where
  "kalloc s =
     bindk (acquire_km s) (\<lambda>_ s.
       let r = freelist s;
           s = (if r \<noteq> 0 then s\<lparr>freelist := ld32 (km_mem s) r\<rparr> else s)
       in bindk (release_km s) (\<lambda>_ s. Ok r s))"

definition page_ok :: "uint \<Rightarrow> uint \<Rightarrow> bool" where
  "page_ok kend v \<longleftrightarrow> v mod PGSIZE = 0 \<and> kend \<le> v \<and> V2P v < PHYSTOP"

lemma kfree_Ok_page: "kfree kend v s = Ok u s' \<Longrightarrow> page_ok kend v"
  by (auto simp: kfree_def page_ok_def split: if_splits)

lemma unat_uint_lt: "unat (x :: uint) < 4294967296"
  using unsigned_less [of x, where 'a = nat] by simp

text \<open>A page is far below the top of the address space, so the next page is above it.\<close>

lemma page_next:
  assumes "page_ok kend v"
  shows "unat (v + PGSIZE) = unat v + 4096" "v < v + PGSIZE" "v \<noteq> 0"
proof -
  have "unat v < 0x8E000000"
  proof (rule ccontr)
    assume "\<not> unat v < 0x8E000000"
    then have "0x8E000000 \<le> v" by (simp add: word_le_nat_alt)
    then have "V2P v \<ge> PHYSTOP"
      using word_le_minus_mono_left [of "0x8E000000" v KERNBASE]
      by (simp add: V2P_def PHYSTOP_def KERNBASE_def word_le_nat_alt unat_sub_if_size word_size)
    then show False using assms by (auto simp: page_ok_def)
  qed
  then show n: "unat (v + PGSIZE) = unat v + 4096"
    using unat_add_of_nat [of v 4096] by (simp add: PGSIZE_def)
  then show "v < v + PGSIZE" by (simp add: word_less_nat_alt)
  show "v \<noteq> 0" using assms by (auto simp: page_ok_def V2P_def PHYSTOP_def KERNBASE_def)
qed

function freerange_loop :: "uint \<Rightarrow> uint \<Rightarrow> uint \<Rightarrow> 'z kmem_scheme \<Rightarrow> (unit, 'z kmem_scheme) kres" where
  "freerange_loop kend vend p s =
     (if p + PGSIZE \<le> vend then
        (case kfree kend p s of Ok _ s' \<Rightarrow> freerange_loop kend vend (p + PGSIZE) s'
         | Panic e \<Rightarrow> Panic e | Sleep c s' \<Rightarrow> Sleep c s' | Spin \<Rightarrow> Spin)
      else Ok () s)"
  by pat_completeness auto
termination
  by (relation "measure (\<lambda>(kend, vend, p, s). 2 ^ 32 - unat p)")
     (auto dest!: kfree_Ok_page page_next(1) simp: unat_uint_lt intro!: diff_less_mono2)

declare freerange_loop.simps [simp del]

definition freerange :: "uint \<Rightarrow> uint \<Rightarrow> uint \<Rightarrow> 'z kmem_scheme \<Rightarrow> (unit, 'z kmem_scheme) kres" where
  "freerange kend vstart vend s = freerange_loop kend vend (PGROUNDUP vstart) s"

definition kinit1 :: "uint \<Rightarrow> uint \<Rightarrow> uint \<Rightarrow> 'z kmem_scheme \<Rightarrow> (unit, 'z kmem_scheme) kres" where
  "kinit1 kend vstart vend s =
     freerange kend vstart vend (s\<lparr>km_lock := initlock ''kmem'', use_lock := False\<rparr>)"

definition kinit2 :: "uint \<Rightarrow> uint \<Rightarrow> uint \<Rightarrow> 'z kmem_scheme \<Rightarrow> (unit, 'z kmem_scheme) kres" where
  "kinit2 kend vstart vend s =
     bindk (freerange kend vstart vend s) (\<lambda>_ s. Ok () (s\<lparr>use_lock := True\<rparr>))"


subsection \<open>What the kernel relies on\<close>

primrec allocs :: "('s \<Rightarrow> ('p, 's) kres) \<Rightarrow> nat \<Rightarrow> 's \<Rightarrow> ('p list, 's) kres" where
  "allocs alloc 0 s = Ok [] s"
| "allocs alloc (Suc n) s = bindk (alloc s) (\<lambda>x s. bindk (allocs alloc n s) (\<lambda>xs s. Ok (x # xs) s))"

primrec frees :: "('p \<Rightarrow> 's \<Rightarrow> (unit, 's) kres) \<Rightarrow> 'p list \<Rightarrow> 's \<Rightarrow> (unit, 's) kres" where
  "frees free [] s = Ok () s"
| "frees free (v # vs) s = bindk (free v s) (\<lambda>_. frees free vs)"

text \<open>
  A pool of pages, \<open>inv s xs\<close> saying that the pages \<open>xs\<close> are free in state \<open>s\<close>.
\<close>

locale page_allocator =
  fixes inv :: "'s \<Rightarrow> 'p list \<Rightarrow> bool"
    and alloc :: "'s \<Rightarrow> ('p, 's) kres"
    and free :: "'p \<Rightarrow> 's \<Rightarrow> (unit, 's) kres"
    and null :: 'p
    and page :: "'p \<Rightarrow> bool"
  assumes alloc_none: "inv s [] \<Longrightarrow> \<exists>s'. alloc s = Ok null s' \<and> inv s' []"
    and alloc_some: "inv s (x # xs) \<Longrightarrow> \<exists>s'. alloc s = Ok x s' \<and> inv s' xs"
    and free_page: "inv s xs \<Longrightarrow> page v \<Longrightarrow> v \<notin> set xs \<Longrightarrow> \<exists>s'. free v s = Ok () s' \<and> inv s' (v # xs)"
    and inv_pages: "inv s xs \<Longrightarrow> distinct xs \<and> null \<notin> set xs \<and> (\<forall>x\<in>set xs. page x)"
begin

lemma allocs_take:
  "inv s xs \<Longrightarrow> n \<le> length xs \<Longrightarrow> \<exists>s'. allocs alloc n s = Ok (take n xs) s' \<and> inv s' (drop n xs)"
proof (induction n arbitrary: s xs)
  case (Suc n)
  then obtain x ys where xs: "xs = x # ys" by (cases xs) auto
  with Suc.prems obtain s1 where s1: "alloc s = Ok x s1" "inv s1 ys"
    using alloc_some [of s x ys] by auto
  with Suc.IH [of s1 ys] Suc.prems xs show ?case by auto
qed auto

lemma frees_push:
  "inv s xs \<Longrightarrow> \<forall>v\<in>set vs. page v \<Longrightarrow> distinct vs \<Longrightarrow> set vs \<inter> set xs = {} \<Longrightarrow>
   \<exists>s'. frees free vs s = Ok () s' \<and> inv s' (rev vs @ xs)"
proof (induction vs arbitrary: s xs)
  case (Cons v vs)
  then obtain s1 where "free v s = Ok () s1" "inv s1 (v # xs)"
    using free_page [of s xs v] by auto
  with Cons.IH [of s1 "v # xs"] Cons.prems show ?case by auto
qed auto

text \<open>Pages handed out are pairwise different, and can all be given back.\<close>

lemma allocs_frees:
  assumes "inv s xs" "n \<le> length xs"
  shows "\<exists>ps s1 s2. allocs alloc n s = Ok ps s1 \<and> distinct ps \<and> null \<notin> set ps \<and> (\<forall>p\<in>set ps. page p)
    \<and> frees free ps s1 = Ok () s2 \<and> inv s2 (rev ps @ drop n xs)"
proof -
  obtain s1 where s1: "allocs alloc n s = Ok (take n xs) s1" "inv s1 (drop n xs)"
    using allocs_take [OF assms] by blast
  have d: "distinct xs" "null \<notin> set xs" "\<forall>x\<in>set xs. page x" using inv_pages [OF assms(1)] by auto
  have "\<exists>s2. frees free (take n xs) s1 = Ok () s2 \<and> inv s2 (rev (take n xs) @ drop n xs)"
    using s1 d set_take_subset [of n xs] by (intro frees_push) (auto simp: set_take_disj_set_drop_if_distinct)
  then show ?thesis using s1 d set_take_subset [of n xs] by (auto intro!: exI [of _ "take n xs"])
qed

end

subsection \<open>The free list in memory\<close>

primrec free_list :: "mem \<Rightarrow> uint \<Rightarrow> uint list \<Rightarrow> bool" where
  "free_list m f [] \<longleftrightarrow> f = 0"
| "free_list m f (x # xs) \<longleftrightarrow> f = x \<and> free_list m (ld32 m x) xs"

definition kmem_inv :: "uint \<Rightarrow> nat \<Rightarrow> 'z kmem_scheme \<Rightarrow> uint list \<Rightarrow> bool" where
  "kmem_inv kend c s xs \<longleftrightarrow> free_list (km_mem s) (freelist s) xs \<and> distinct xs
     \<and> (\<forall>x\<in>set xs. page_ok kend x) \<and> on_cpu c (km_mach s) \<and> \<not> locked (km_lock s)"

lemma page_aligned_iff: "v mod PGSIZE = 0 \<longleftrightarrow> unat v mod 4096 = 0"
  by (simp add: PGSIZE_def word_unat_eq_iff unat_mod)

lemma page_disjoint:
  assumes "page_ok kend x" "page_ok kend v" "x \<noteq> v"
  shows "disjoint_ranges x 4 v 4096"
proof -
  have "unat x mod 4096 = 0" "unat v mod 4096 = 0"
    using assms(1,2) by (simp_all add: page_ok_def page_aligned_iff)
  then obtain a b where ab: "unat x = 4096 * a" "unat v = 4096 * b" by (auto elim!: dvdE dest!: mod_0_imp_dvd)
  have "\<exists>q. unat (x - v) = 4096 * q"
  proof (cases "v \<le> x")
    case True
    then have "unat (x - v) = 4096 * (a - b)"
      using ab by (simp add: unat_sub word_le_nat_alt diff_mult_distrib2)
    then show ?thesis ..
  next
    case False
    then have "unat (x - v) = 4096 * (a + 1048576 - b)"
      using ab by (simp add: unat_sub_if_size word_size word_le_nat_alt diff_mult_distrib2 add_mult_distrib2)
    then show ?thesis ..
  qed
  then obtain q where q: "unat (x - v) = 4096 * q" ..
  moreover have "unat (x - v) \<noteq> 0" using assms(3) by (simp add: unat_eq_0)
  ultimately have "0 < q" "q < 1048576" using unat_uint_lt [of "x - v"] by auto
  moreover have e: "x + of_nat i - v = x - v + of_nat i" for i by simp
  ultimately have "4096 \<le> unat (x + of_nat i - v)" if "i < 4" for i
    using that q unat_add_of_nat [of "x - v" i] unfolding e by simp
  then show ?thesis by (simp add: disjoint_ranges_def)
qed

lemma free_list_frame:
  "free_list m f xs \<Longrightarrow> (\<And>x. x \<in> set xs \<Longrightarrow> ld32 m' x = ld32 m x) \<Longrightarrow> free_list m' f xs"
  by (induction xs arbitrary: f) auto


lemma unat_PGROUNDDOWN: "unat (PGROUNDDOWN a) = unat a div 4096 * 4096"
proof -
  have m: "PGROUNDDOWN a = a AND NOT (mask 12)"
    by (simp add: PGROUNDDOWN_def PGSIZE_def mask_eq_exp_minus_1)
  have "PGROUNDDOWN a = push_bit 12 (drop_bit 12 a)"
    unfolding m
    by (rule bit_word_eqI) (auto simp: bit_and_iff bit_not_iff bit_mask_iff bit_push_bit_iff bit_drop_bit_eq)
  moreover have "unat a div 4096 * 4096 < 4294967296"
    using unat_uint_lt [of a] div_mult_mod_eq [of "unat a" 4096] by linarith
  ultimately show ?thesis
    by (simp add: push_bit_eq_mult drop_bit_eq_div unat_word_ariths unat_div)
qed

lemma unat_PGROUNDUP:
  assumes "unat a + 4095 < 2 ^ 32"
  shows "unat (PGROUNDUP a) = (unat a + 4095) div 4096 * 4096"
proof -
  have "PGROUNDUP a = PGROUNDDOWN (a + of_nat 4095)" by (simp add: PGROUNDUP_def PGROUNDDOWN_def PGSIZE_def add.commute)
  then show ?thesis using assms by (simp only: unat_PGROUNDDOWN unat_add_of_nat)
qed

definition km_held :: "nat \<Rightarrow> mach \<Rightarrow> 'z kmem_scheme \<Rightarrow> bool" where
  "km_held c m s \<longleftrightarrow> on_cpu c m \<and> (if use_lock s then km_mach s = pushed c m \<and> locked (km_lock s)
     \<and> lk_cpu (km_lock s) = Some c else km_mach s = m \<and> \<not> locked (km_lock s))"

lemma acquire_km_free:
  assumes "on_cpu c (km_mach s)" "\<not> locked (km_lock s)"
  shows "\<exists>s1. acquire_km s = Ok () s1 \<and> km_mem s1 = km_mem s \<and> freelist s1 = freelist s
    \<and> km_held c (km_mach s) s1"
  using assms by (simp add: acquire_km_def acquire_on_cpu [of c] km_held_def)

lemma release_km_held:
  assumes "km_held c m s"
  shows "\<exists>s1. release_km s = Ok () s1 \<and> km_mem s1 = km_mem s \<and> freelist s1 = freelist s
    \<and> on_cpu c (km_mach s1) \<and> \<not> locked (km_lock s1)"
  using assms by (auto simp: release_km_def release_held km_held_def on_cpu_settled split: if_splits)

lemma kalloc_inv:
  assumes "kmem_inv kend c s xs"
  shows "\<exists>s'. kalloc s = Ok (case xs of [] \<Rightarrow> 0 | x # _ \<Rightarrow> x) s' \<and> kmem_inv kend c s' (tl xs)"
proof -
  obtain s1 where s1: "acquire_km s = Ok () s1" "km_mem s1 = km_mem s" "freelist s1 = freelist s"
      "km_held c (km_mach s) s1"
    using assms acquire_km_free [of c s] by (auto simp: kmem_inv_def)
  let ?s = "if freelist s1 \<noteq> 0 then s1\<lparr>freelist := ld32 (km_mem s1) (freelist s1)\<rparr> else s1"
  have "km_held c (km_mach s) ?s" using s1(4) by (simp add: km_held_def)
  then obtain s2 where s2: "release_km ?s = Ok () s2" "km_mem s2 = km_mem ?s" "freelist s2 = freelist ?s"
      "on_cpu c (km_mach s2)" "\<not> locked (km_lock s2)"
    using release_km_held by blast
  have "kalloc s = Ok (freelist s) s2" using s1 s2(1) by (simp add: kalloc_def Let_def)
  then show ?thesis
    using assms s1(2,3) s2(2-5) page_next(3) [of kend 0]
    by (cases xs) (auto simp: kmem_inv_def)
qed

lemma kfree_inv:
  assumes "kmem_inv kend c s xs" "page_ok kend v" "v \<notin> set xs"
  shows "\<exists>s'. kfree kend v s = Ok () s' \<and> kmem_inv kend c s' (v # xs) \<and> use_lock s' = use_lock s"
proof -
  let ?s0 = "s\<lparr>km_mem := memset (km_mem s) v 1 PGSIZE\<rparr>"
  obtain s1 where s1: "acquire_km ?s0 = Ok () s1" "km_mem s1 = km_mem ?s0" "freelist s1 = freelist s"
      "km_held c (km_mach s) s1"
    using assms acquire_km_free [of c ?s0] by (auto simp: kmem_inv_def)
  let ?s = "s1\<lparr>km_mem := st32 (km_mem s1) v (freelist s1), freelist := v\<rparr>"
  have "km_held c (km_mach s) ?s" using s1(4) by (simp add: km_held_def)
  then obtain s2 where s2: "release_km ?s = Ok () s2" "km_mem s2 = km_mem ?s" "freelist s2 = freelist ?s"
      "on_cpu c (km_mach s2)" "\<not> locked (km_lock s2)"
    using release_km_held by blast
  have "ld32 (km_mem s2) x = ld32 (km_mem s) x" if "x \<in> set xs" for x
  proof -
    have d: "disjoint_ranges x 4 v 4096"
      using assms that by (intro page_disjoint) (auto simp: kmem_inv_def)
    then have "disjoint_ranges x 4 v 4" by (fastforce simp: disjoint_ranges_def)
    then show ?thesis
      using d s1(2) s2(2) by (simp add: ld32_st32_other memset_write ld32_def st32_def mem_read_write_other PGSIZE_def)
  qed
  then have "free_list (km_mem s2) (freelist s) xs"
    using assms by (auto simp: kmem_inv_def intro: free_list_frame)
  then have "kmem_inv kend c s2 (v # xs)"
    using assms s1(3) s2 by (simp add: kmem_inv_def)
  moreover have "kfree kend v s = Ok () s2"
    using assms(2) s1(1) s2(1) by (auto simp: kfree_def page_ok_def)
  moreover have "use_lock s2 = use_lock s"
    using s1(1) s2(1) by (auto simp: acquire_km_def release_km_def split: if_splits kres.splits)
  ultimately show ?thesis by blast
qed

interpretation kpool: page_allocator "kmem_inv kend c" kalloc "kfree kend" 0 "page_ok kend" for kend c
proof unfold_locales
  fix s :: "'a kmem_scheme" and x xs v
  show "kmem_inv kend c s [] \<Longrightarrow> \<exists>s'. kalloc s = Ok 0 s' \<and> kmem_inv kend c s' []"
    using kalloc_inv [of kend c s "[]"] by simp
  show "kmem_inv kend c s (x # xs) \<Longrightarrow> \<exists>s'. kalloc s = Ok x s' \<and> kmem_inv kend c s' xs"
    using kalloc_inv [of kend c s "x # xs"] by simp
  show "kmem_inv kend c s xs \<Longrightarrow> page_ok kend v \<Longrightarrow> v \<notin> set xs \<Longrightarrow>
      \<exists>s'. kfree kend v s = Ok () s' \<and> kmem_inv kend c s' (v # xs)"
    using kfree_inv [of kend c s xs v] by blast
  show "kmem_inv kend c s xs \<Longrightarrow> distinct xs \<and> 0 \<notin> set xs \<and> (\<forall>x\<in>set xs. page_ok kend x)"
    using page_next(3) [of kend 0] by (auto simp: kmem_inv_def)
qed


subsection \<open>Properties\<close>

text \<open>
  Claim C27. The allocator implements a pool of distinct pages. From a well-formed free list \<open>xs\<close>,
  \<^verbatim>\<open>kalloc\<close> returns its first page, or 0 when there is none, and leaves the others; \<^verbatim>\<open>kfree\<close> of a page
  that is not free puts it in front; \<^verbatim>\<open>kfree\<close> of an address that is no page of physical memory
  panics. Any number of pages up to the size of the pool can be taken; they are pairwise different
  and can all be given back.
\<close>

theorem kalloc_kfree_pool:
  assumes "kmem_inv kend c s xs"
  shows "(\<exists>s'. kalloc s = Ok (case xs of [] \<Rightarrow> 0 | x # _ \<Rightarrow> x) s' \<and> kmem_inv kend c s' (tl xs))
    \<and> (\<forall>v. page_ok kend v \<and> v \<notin> set xs \<longrightarrow> (\<exists>s'. kfree kend v s = Ok () s' \<and> kmem_inv kend c s' (v # xs)))
    \<and> (\<forall>v. \<not> page_ok kend v \<longrightarrow> kfree kend v s = Panic ''kfree'')
    \<and> (\<forall>n\<le>length xs. \<exists>ps s1 s2. allocs kalloc n s = Ok ps s1 \<and> distinct ps \<and> 0 \<notin> set ps
         \<and> frees (kfree kend) ps s1 = Ok () s2 \<and> kmem_inv kend c s2 (rev ps @ drop n xs))"
proof (intro conjI allI impI)
  show "\<exists>s'. kalloc s = Ok (case xs of [] \<Rightarrow> 0 | x # _ \<Rightarrow> x) s' \<and> kmem_inv kend c s' (tl xs)"
    by (rule kalloc_inv [OF assms])
  show "\<exists>s'. kfree kend v s = Ok () s' \<and> kmem_inv kend c s' (v # xs)" if "page_ok kend v \<and> v \<notin> set xs" for v
    using kpool.free_page [OF assms] that by blast
  show "kfree kend v s = Panic ''kfree''" if "\<not> page_ok kend v" for v
    using that unfolding kfree_def page_ok_def by (metis linorder_not_le linorder_not_less)
  show "\<exists>ps s1 s2. allocs kalloc n s = Ok ps s1 \<and> distinct ps \<and> 0 \<notin> set ps
         \<and> frees (kfree kend) ps s1 = Ok () s2 \<and> kmem_inv kend c s2 (rev ps @ drop n xs)" if "n \<le> length xs" for n
    using kpool.allocs_frees [OF assms that] by blast
qed

definition demo_km :: kmem where
  "demo_km = \<lparr>km_mach = demo_mach, km_lock = initlock ''kmem'', use_lock = True, freelist = 0x80200000,
     km_mem = st32 (\<lambda>_. 0) 0x80200000 0x80101000\<rparr>"

lemma demo_km_inv: "kmem_inv 0x80100000 0 demo_km [0x80200000, 0x80101000]"
proof -
  have "ld32 (st32 (\<lambda>_. 0) 0x80200000 0x80101000) 0x80101000 = 0"
    by (simp add: ld32_def mem_read_def st32_def mem_write_def upt_rec of_le_def)
  then show ?thesis
    by (simp add: kmem_inv_def demo_km_def initlock_def page_ok_def PGSIZE_def V2P_def KERNBASE_def PHYSTOP_def)
qed

theorem kalloc_kfree_pool_witness:
  "(\<exists>s'. kalloc demo_km = Ok 0x80200000 s' \<and> kmem_inv 0x80100000 0 s' [0x80101000])
    \<and> kfree 0x80100000 0x80101004 demo_km = Panic ''kfree''"
proof -
  have "\<not> page_ok 0x80100000 0x80101004" by (simp add: page_ok_def PGSIZE_def)
  then show ?thesis using kalloc_kfree_pool [OF demo_km_inv] by simp
qed


definition pages_from :: "uint \<Rightarrow> nat \<Rightarrow> uint list" where
  "pages_from p n = map (\<lambda>i. p + of_nat i * PGSIZE) [0..<n]"

lemma pages_from_Suc: "pages_from p (Suc n) = p # pages_from (p + PGSIZE) n"
  by (simp add: pages_from_def upt_conv_Cons map_Suc_upt [symmetric] algebra_simps del: upt_Suc)

lemma unat_pages_from:
  assumes "unat p + n * 4096 < 2 ^ 32"
  shows "map unat (pages_from p n) = map (\<lambda>i. unat p + i * 4096) [0..<n]"
proof -
  have "unat (p + of_nat i * PGSIZE) = unat p + i * 4096" if "i < n" for i
    using unat_add_of_nat [of p "i * 4096"] assms mult_le_mono1 [of i n 4096] that by (simp add: PGSIZE_def)
  then show ?thesis by (simp add: pages_from_def)
qed

lemma freerange_loop_pages:
  assumes "kmem_inv kend c s xs" "\<forall>v\<in>set (pages_from p n). page_ok kend v"
    and "distinct (pages_from p n)" "set (pages_from p n) \<inter> set xs = {}"
    and "0 < n \<longrightarrow> unat p + n * 4096 \<le> unat vend" "unat vend < unat p + Suc n * 4096" "unat p + Suc n * 4096 < 2 ^ 32"
  shows "\<exists>s'. freerange_loop kend vend p s = Ok () s' \<and> kmem_inv kend c s' (rev (pages_from p n) @ xs)
    \<and> use_lock s' = use_lock s"
  using assms
proof (induction n arbitrary: p s xs)
  case 0
  then have "\<not> p + PGSIZE \<le> vend"
    using unat_add_of_nat [of p 4096] by (simp add: word_le_nat_alt PGSIZE_def)
  then show ?case using 0 by (simp add: freerange_loop.simps pages_from_def)
next
  case (Suc n)
  have p: "unat (p + PGSIZE) = unat p + 4096"
    using unat_add_of_nat [of p 4096] Suc.prems(7) by (simp add: PGSIZE_def)
  obtain s1 where s1: "kfree kend p s = Ok () s1" "kmem_inv kend c s1 (p # xs)" "use_lock s1 = use_lock s"
    using kfree_inv [OF Suc.prems(1), of p] Suc.prems(2,4) by (auto simp: pages_from_Suc)
  have "\<exists>s'. freerange_loop kend vend (p + PGSIZE) s1 = Ok () s'
      \<and> kmem_inv kend c s' (rev (pages_from (p + PGSIZE) n) @ p # xs) \<and> use_lock s' = use_lock s1"
    using Suc.prems p s1(2) by (intro Suc.IH) (auto simp: pages_from_Suc)
  moreover have "p + PGSIZE \<le> vend" using p Suc.prems(5) by (simp add: word_le_nat_alt)
  ultimately show ?case using s1 by (subst freerange_loop.simps) (simp add: pages_from_Suc)
qed

lemma whole_pages:
  fixes a b N :: nat
  assumes "0 < N"
  defines "k \<equiv> (a + (N - 1)) div N"
  defines "n \<equiv> (b - k * N) div N"
  shows "a \<le> k * N" "k * N < a + N"
    and "0 < n \<Longrightarrow> k * N + n * N \<le> b" "b < k * N + Suc n * N"
    and "(\<exists>i<n. v = k * N + i * N) \<longleftrightarrow> v mod N = 0 \<and> a \<le> v \<and> v + N \<le> b"
proof -
  have "k * N \<le> a + (N - 1)" "a + (N - 1) < N + k * N"
    using div_times_less_eq_dividend [of "a + (N - 1)" N] dividend_less_times_div [of N "a + (N - 1)"] assms(1)
    unfolding k_def by (simp_all add: mult.commute)
  then show a: "a \<le> k * N" "k * N < a + N" using assms(1) by linarith+
  have n: "n * N \<le> b - k * N" "b - k * N < Suc n * N"
    using div_times_less_eq_dividend [of "b - k * N" N] dividend_less_times_div [of N "b - k * N"] assms(1)
    unfolding n_def by (simp_all add: mult.commute)
  then show up: "0 < n \<Longrightarrow> k * N + n * N \<le> b" using assms(1) by (cases n) auto
  from n show "b < k * N + Suc n * N" by linarith
  show "(\<exists>i<n. v = k * N + i * N) \<longleftrightarrow> v mod N = 0 \<and> a \<le> v \<and> v + N \<le> b"
  proof
    assume "\<exists>i<n. v = k * N + i * N"
    then obtain i where i: "i < n" "v = k * N + i * N" by blast
    then have "v mod N = 0" by (simp flip: add_mult_distrib)
    moreover have "Suc i * N \<le> n * N" using i by (intro mult_le_mono1) simp
    ultimately show "v mod N = 0 \<and> a \<le> v \<and> v + N \<le> b" using i a up by auto
  next
    assume v: "v mod N = 0 \<and> a \<le> v \<and> v + N \<le> b"
    then obtain q where q: "v = q * N" by (metis mod_0_imp_dvd dvdE mult.commute)
    have "k * N < Suc q * N" using v a(2) q by simp
    then have "k \<le> q" by (simp only: mult_less_cancel2 less_Suc_eq_le)
    then have "v = k * N + (q - k) * N" using q by (simp add: diff_mult_distrib)
    moreover from this have "Suc (q - k) * N < Suc n * N"
      using v n(2) unfolding mult_Suc by linarith
    then have "q - k < n" by (simp only: mult_less_cancel2 Suc_less_eq)
    ultimately show "\<exists>i<n. v = k * N + i * N" by blast
  qed
qed

text \<open>
  Claim C28. Initialisation frees exactly the whole pages of its range. \<^verbatim>\<open>kinit1\<close> on a range that lies
  above the kernel image and inside physical memory returns, and afterwards the free pages are those
  that lie completely between the two addresses, each once.
\<close>

theorem kinit1_frees_range:
  assumes "freelist s = 0" and "on_cpu c (km_mach s)" and "kend \<le> vstart" and "KERNBASE \<le> vstart"
    and "vstart \<le> vend" and "vend \<le> KERNBASE + PHYSTOP"
  shows "\<exists>s' xs. kinit1 kend vstart vend s = Ok () s' \<and> kmem_inv kend c s' xs \<and> \<not> use_lock s'
    \<and> set xs = {v. v mod PGSIZE = 0 \<and> vstart \<le> v \<and> unat v + unat PGSIZE \<le> unat vend}"
proof -
  let ?s = "s\<lparr>km_lock := initlock ''kmem'', use_lock := False\<rparr>"
  define p n where "p = PGROUNDUP vstart" and "n = (unat vend - unat p) div 4096"
  have b: "unat vstart \<le> unat vend" "unat vend \<le> 0x8E000000" "0x80000000 \<le> unat vstart" "unat kend \<le> unat vstart"
    using assms by (simp_all add: word_le_nat_alt KERNBASE_def PHYSTOP_def)
  have p: "unat p = (unat vstart + 4095) div 4096 * 4096"
    unfolding p_def by (rule unat_PGROUNDUP) (use b in simp)
  have p': "unat p = (unat vstart + (4096 - 1)) div 4096 * 4096" using p by simp
  note w = whole_pages(1,2) [where N = 4096 and a = "unat vstart", folded p', simplified]
    whole_pages(3-5) [where N = 4096 and a = "unat vstart" and b = "unat vend", folded p', folded n_def, simplified]
  have small: "unat p + Suc n * 4096 < 2 ^ 32" using w(2,3) b by (cases "n = 0") auto
  have range: "v \<in> set (pages_from p n) \<longleftrightarrow>
      v mod PGSIZE = 0 \<and> vstart \<le> v \<and> unat v + unat PGSIZE \<le> unat vend" for v
  proof -
    have "v \<in> set (pages_from p n) \<longleftrightarrow> unat v \<in> set (map unat (pages_from p n))"
      by (auto dest: word_unat_eq_iff [THEN iffD2])
    also have "\<dots> \<longleftrightarrow> (\<exists>i<n. unat v = unat p + i * 4096)" using unat_pages_from [of p n] small by auto
    also have "\<dots> \<longleftrightarrow> unat v mod 4096 = 0 \<and> unat vstart \<le> unat v \<and> unat v + 4096 \<le> unat vend" by (rule w(5))
    finally show ?thesis unfolding page_aligned_iff word_le_nat_alt by (simp add: PGSIZE_def)
  qed
  have pages: "page_ok kend v" if "v \<in> set (pages_from p n)" for v
  proof -
    have v: "v mod PGSIZE = 0" "unat vstart \<le> unat v" "unat v + 4096 \<le> unat vend"
      using range [of v] that by (simp_all add: word_le_nat_alt PGSIZE_def)
    then have "unat (V2P v) = unat v - 0x80000000" using b by (simp add: V2P_def KERNBASE_def unat_sub word_le_nat_alt)
    then show ?thesis using v b by (simp add: page_ok_def word_le_nat_alt word_less_nat_alt PHYSTOP_def)
  qed
  have "distinct (map unat (pages_from p n))"
    using unat_pages_from [of p n] small by (simp add: distinct_map inj_on_def)
  then have "distinct (pages_from p n)" by (simp add: distinct_map)
  moreover have "kmem_inv kend c ?s []" using assms(1,2) by (simp add: kmem_inv_def initlock_def)
  ultimately have "\<exists>s'. freerange_loop kend vend p ?s = Ok () s'
      \<and> kmem_inv kend c s' (rev (pages_from p n) @ []) \<and> use_lock s' = use_lock ?s"
    using pages w small by (intro freerange_loop_pages) auto
  then obtain s' where "freerange_loop kend vend p ?s = Ok () s'"
      "kmem_inv kend c s' (rev (pages_from p n))" "\<not> use_lock s'" by auto
  moreover have "set (rev (pages_from p n))
      = {v. v mod PGSIZE = 0 \<and> vstart \<le> v \<and> unat v + unat PGSIZE \<le> unat vend}"
    using range by (intro set_eqI) (simp only: set_rev mem_Collect_eq)
  ultimately show ?thesis unfolding kinit1_def freerange_def p_def [symmetric] by blast
qed

theorem kinit1_frees_range_witness:
  "\<exists>s' xs. kinit1 0x80100000 0x80100004 0x80103000 (demo_km\<lparr>freelist := 0\<rparr>) = Ok () s'
    \<and> kmem_inv 0x80100000 0 s' xs \<and> 0x80102000 \<in> set xs \<and> 0x80100000 \<notin> set xs"
proof -
  have "freelist (demo_km\<lparr>freelist := 0\<rparr>) = 0" "on_cpu 0 (km_mach (demo_km\<lparr>freelist := 0\<rparr>))"
    by (simp_all add: demo_km_def)
  from kinit1_frees_range [OF this, of "0x80100000" "0x80100004" "0x80103000"] obtain s' xs where
    "kinit1 0x80100000 0x80100004 0x80103000 (demo_km\<lparr>freelist := 0\<rparr>) = Ok () s'"
    "kmem_inv 0x80100000 0 s' xs"
    "set xs = {v. v mod PGSIZE = 0 \<and> 0x80100004 \<le> v \<and> unat v + unat PGSIZE \<le> unat (0x80103000 :: uint)}"
    by (auto simp: KERNBASE_def PHYSTOP_def)
  then show ?thesis by (intro exI [of _ s'] exI [of _ xs]) (simp add: PGSIZE_def)
qed

end
