(* ===== verification/Vm.thy ===== *)
theory Vm
  imports Kalloc
begin

text \<open>
  Page tables: \<^verbatim>\<open>vm.c\<close>, on the byte-addressed kernel memory of the page allocator.

  A page directory and a page table are pages of 1024 little-endian words; a pointer to an entry is its
  kernel address, and the null pointer is 0. The addresses \<^verbatim>\<open>end\<close> and \<^verbatim>\<open>data\<close> of the linker are
  parameters. \<^verbatim>\<open>loaduvm\<close>, which reads from an inode, is in theory \<open>Exec\<close>.

  The loops that step a user address by the page size run over the list of those addresses: below
  \<^verbatim>\<open>KERNBASE\<close> they do not wrap around.
\<close>

subsection \<open>Addresses and entries\<close>

definition PDX :: "uint \<Rightarrow> uint" where "PDX va = drop_bit 22 va AND 0x3FF"
definition PTX :: "uint \<Rightarrow> uint" where "PTX va = drop_bit 12 va AND 0x3FF"

definition PGADDR :: "uint \<Rightarrow> uint \<Rightarrow> uint \<Rightarrow> uint" where
  "PGADDR d t off = push_bit 22 d OR push_bit 12 t OR off"

definition PTE_P :: uint where "PTE_P = 1"
definition PTE_W :: uint where "PTE_W = 2"
definition PTE_U :: uint where "PTE_U = 4"
definition PTE_ADDR :: "uint \<Rightarrow> uint" where "PTE_ADDR pte = pte AND NOT 0xFFF"
definition PTE_FLAGS :: "uint \<Rightarrow> uint" where "PTE_FLAGS pte = pte AND 0xFFF"

definition EXTMEM :: uint where "EXTMEM = 0x100000"
definition DEVSPACE :: uint where "DEVSPACE = 0xFE000000"
definition KERNLINK :: uint where "KERNLINK = KERNBASE + EXTMEM"
definition NPDENTRIES :: nat where "NPDENTRIES = 1024"

abbreviation ldk :: "uint \<Rightarrow> 'z kmem_scheme \<Rightarrow> uint" where
  "ldk a s \<equiv> ld32 (km_mem s) a"

definition stk :: "uint \<Rightarrow> uint \<Rightarrow> 'z kmem_scheme \<Rightarrow> 'z kmem_scheme" where
  "stk a v s = s\<lparr>km_mem := st32 (km_mem s) a v\<rparr>"

definition zero_page :: "uint \<Rightarrow> 'z kmem_scheme \<Rightarrow> 'z kmem_scheme" where
  "zero_page a s = s\<lparr>km_mem := memset (km_mem s) a 0 PGSIZE\<rparr>"

text \<open>The addresses from \<open>a\<close> in steps of a page, below \<open>lim\<close>.\<close>

definition page_range :: "uint \<Rightarrow> uint \<Rightarrow> uint list" where
  "page_range a lim = map (\<lambda>k. a + of_nat (4096 * k)) [0..<(unat lim - unat a + 4095) div 4096]"

subsection \<open>Walking and mapping\<close>

definition walkpgdir :: "uint \<Rightarrow> uint \<Rightarrow> bool \<Rightarrow> 'z kmem_scheme \<Rightarrow> (uint, 'z kmem_scheme) kres" where
  "walkpgdir pgdir va alloc s =
     (let pde = pgdir + 4 * PDX va in
      if ldk pde s AND PTE_P \<noteq> 0 then Ok (P2V (PTE_ADDR (ldk pde s)) + 4 * PTX va) s
      else if \<not> alloc then Ok 0 s
      else
        bindk (kalloc s) (\<lambda>pgtab s.
          if pgtab = 0 then Ok 0 s
          else
            let s = zero_page pgtab s; s = stk pde (V2P pgtab OR PTE_P OR PTE_W OR PTE_U) s
            in Ok (pgtab + 4 * PTX va) s))"

text \<open>\<open>n\<close> counts the pages after the one at \<open>a\<close>; the loop ends at the page \<^verbatim>\<open>last\<close>.\<close>

primrec mappages_loop :: "uint \<Rightarrow> uint \<Rightarrow> nat \<Rightarrow> uint \<Rightarrow> uint \<Rightarrow> 'z kmem_scheme \<Rightarrow> (int, 'z kmem_scheme) kres" where
  "mappages_loop pgdir perm 0 a pa s =
     bindk (walkpgdir pgdir a True s) (\<lambda>pte s.
       if pte = 0 then Ok (-1) s
       else if ldk pte s AND PTE_P \<noteq> 0 then Panic ''remap''
       else Ok 0 (stk pte (pa OR perm OR PTE_P) s))"
| "mappages_loop pgdir perm (Suc n) a pa s =
     bindk (walkpgdir pgdir a True s) (\<lambda>pte s.
       if pte = 0 then Ok (-1) s
       else if ldk pte s AND PTE_P \<noteq> 0 then Panic ''remap''
       else mappages_loop pgdir perm n (a + PGSIZE) (pa + PGSIZE) (stk pte (pa OR perm OR PTE_P) s))"

definition mappages :: "uint \<Rightarrow> uint \<Rightarrow> uint \<Rightarrow> uint \<Rightarrow> uint \<Rightarrow> 'z kmem_scheme \<Rightarrow> (int, 'z kmem_scheme) kres" where
  "mappages pgdir va sz pa perm s =
     (let a = PGROUNDDOWN va; last = PGROUNDDOWN (va + sz - 1)
      in mappages_loop pgdir perm (unat (last - a) div 4096) a pa s)"

subsection \<open>Freeing\<close>

text \<open>
  The loop of \<^verbatim>\<open>deallocuvm\<close>; without a page table it goes on at the first address of the next directory
  entry, \<open>PGADDR (PDX a + 1) 0 0\<close>.
\<close>

function deallocuvm_loop :: "uint \<Rightarrow> uint \<Rightarrow> nat \<Rightarrow> nat \<Rightarrow> 'z kmem_scheme \<Rightarrow> (unit, 'z kmem_scheme) kres" where
  "deallocuvm_loop kend pgdir a oldsz s =
     (if a < oldsz then
        bindk (walkpgdir pgdir (of_nat a) False s) (\<lambda>pte s.
          if pte = 0 then deallocuvm_loop kend pgdir ((a div 0x400000 + 1) * 0x400000) oldsz s
          else if ldk pte s AND PTE_P \<noteq> 0 then
            let pa = PTE_ADDR (ldk pte s) in
            if pa = 0 then Panic ''kfree''
            else bindk (kfree kend (P2V pa) s) (\<lambda>_ s. deallocuvm_loop kend pgdir (a + 4096) oldsz (stk pte 0 s))
          else deallocuvm_loop kend pgdir (a + 4096) oldsz s)
      else Ok () s)"
  by pat_completeness auto
termination
proof (relation "measure (\<lambda>(kend, pgdir, a, oldsz, s). oldsz - a)", goal_cases)
  case (2 kend pgdir a oldsz)
  have "a < (a div 0x400000 + 1) * 0x400000" using dividend_less_times_div [of "0x400000" a] by simp
  then show ?case using 2 by simp
qed auto

definition deallocuvm :: "uint \<Rightarrow> uint \<Rightarrow> uint \<Rightarrow> uint \<Rightarrow> 'z kmem_scheme \<Rightarrow> (uint, 'z kmem_scheme) kres" where
  "deallocuvm kend pgdir oldsz newsz s =
     (if newsz \<ge> oldsz then Ok oldsz s
      else bindk (deallocuvm_loop kend pgdir (unat (PGROUNDUP newsz)) (unat oldsz) s) (\<lambda>_ s. Ok newsz s))"

primrec free_tables :: "uint \<Rightarrow> uint \<Rightarrow> nat list \<Rightarrow> 'z kmem_scheme \<Rightarrow> (unit, 'z kmem_scheme) kres" where
  "free_tables kend pgdir [] s = Ok () s"
| "free_tables kend pgdir (i # is) s =
     (let pde = ldk (pgdir + of_nat (4 * i)) s in
      bindk (if pde AND PTE_P \<noteq> 0 then kfree kend (P2V (PTE_ADDR pde)) s else Ok () s) (\<lambda>_. free_tables kend pgdir is))"

definition freevm :: "uint \<Rightarrow> uint \<Rightarrow> 'z kmem_scheme \<Rightarrow> (unit, 'z kmem_scheme) kres" where
  "freevm kend pgdir s =
     (if pgdir = 0 then Panic ''freevm: no pgdir''
      else
        bindk (deallocuvm kend pgdir KERNBASE 0 s) (\<lambda>_ s.
        bindk (free_tables kend pgdir [0..<NPDENTRIES] s) (\<lambda>_ s.
        kfree kend pgdir s)))"

subsection \<open>Kernel mappings\<close>

definition kmap :: "uint \<Rightarrow> (uint \<times> uint \<times> uint \<times> uint) list" where
  "kmap kdata = [(KERNBASE, 0, EXTMEM, PTE_W), (KERNLINK, V2P KERNLINK, V2P kdata, 0),
     (kdata, V2P kdata, PHYSTOP, PTE_W), (DEVSPACE, DEVSPACE, 0, PTE_W)]"

primrec setupkvm_loop :: "uint \<Rightarrow> uint \<Rightarrow> (uint \<times> uint \<times> uint \<times> uint) list \<Rightarrow> 'z kmem_scheme \<Rightarrow>
    (uint, 'z kmem_scheme) kres" where
  "setupkvm_loop kend pgdir [] s = Ok pgdir s"
| "setupkvm_loop kend pgdir (k # ks) s =
     (case k of (virt, p0, p1, perm) \<Rightarrow>
        bindk (mappages pgdir virt (p1 - p0) p0 perm s) (\<lambda>r s.
          if r < 0 then bindk (freevm kend pgdir s) (\<lambda>_ s. Ok 0 s)
          else setupkvm_loop kend pgdir ks s))"

definition setupkvm :: "uint \<Rightarrow> uint \<Rightarrow> 'z kmem_scheme \<Rightarrow> (uint, 'z kmem_scheme) kres" where
  "setupkvm kend kdata s =
     bindk (kalloc s) (\<lambda>pgdir s.
       if pgdir = 0 then Ok 0 s
       else
         let s = zero_page pgdir s in
         if P2V PHYSTOP > DEVSPACE then Panic ''PHYSTOP too high''
         else setupkvm_loop kend pgdir (kmap kdata) s)"

subsection \<open>User memory\<close>

definition inituvm :: "uint \<Rightarrow> byte list \<Rightarrow> uint \<Rightarrow> 'z kmem_scheme \<Rightarrow> (unit, 'z kmem_scheme) kres" where
  "inituvm pgdir init sz s =
     (if sz \<ge> PGSIZE then Panic ''inituvm: more than a page''
      else
        bindk (kalloc s) (\<lambda>mm s.
        bindk (mappages pgdir 0 PGSIZE (V2P mm) (PTE_W OR PTE_U) (zero_page mm s)) (\<lambda>_ s.
          Ok () (s\<lparr>km_mem := mem_write (km_mem s) mm (take (unat sz) init)\<rparr>))))"

primrec allocuvm_loop :: "uint \<Rightarrow> uint \<Rightarrow> uint \<Rightarrow> uint \<Rightarrow> uint list \<Rightarrow> 'z kmem_scheme \<Rightarrow> (uint, 'z kmem_scheme) kres" where
  "allocuvm_loop kend pgdir oldsz newsz [] s = Ok newsz s"
| "allocuvm_loop kend pgdir oldsz newsz (a # as) s =
     bindk (kalloc s) (\<lambda>mm s.
       if mm = 0 then bindk (deallocuvm kend pgdir newsz oldsz s) (\<lambda>_ s. Ok 0 s)
       else
         bindk (mappages pgdir a PGSIZE (V2P mm) (PTE_W OR PTE_U) (zero_page mm s)) (\<lambda>r s.
           if r < 0 then
             bindk (deallocuvm kend pgdir newsz oldsz s) (\<lambda>_ s. bindk (kfree kend mm s) (\<lambda>_ s. Ok 0 s))
           else allocuvm_loop kend pgdir oldsz newsz as s))"

definition allocuvm :: "uint \<Rightarrow> uint \<Rightarrow> uint \<Rightarrow> uint \<Rightarrow> 'z kmem_scheme \<Rightarrow> (uint, 'z kmem_scheme) kres" where
  "allocuvm kend pgdir oldsz newsz s =
     (if newsz \<ge> KERNBASE then Ok 0 s
      else if newsz < oldsz then Ok oldsz s
      else allocuvm_loop kend pgdir oldsz newsz (page_range (PGROUNDUP oldsz) newsz) s)"

definition clearpteu :: "uint \<Rightarrow> uint \<Rightarrow> 'z kmem_scheme \<Rightarrow> (unit, 'z kmem_scheme) kres" where
  "clearpteu pgdir uva s =
     bindk (walkpgdir pgdir uva False s) (\<lambda>pte s.
       if pte = 0 then Panic ''clearpteu'' else Ok () (stk pte (ldk pte s AND NOT PTE_U) s))"

primrec copyuvm_loop :: "uint \<Rightarrow> uint \<Rightarrow> uint \<Rightarrow> uint list \<Rightarrow> 'z kmem_scheme \<Rightarrow> (uint, 'z kmem_scheme) kres" where
  "copyuvm_loop kend pgdir d [] s = Ok d s"
| "copyuvm_loop kend pgdir d (i # is) s =
     bindk (walkpgdir pgdir i False s) (\<lambda>pte s.
       if pte = 0 then Panic ''copyuvm: pte should exist''
       else if ldk pte s AND PTE_P = 0 then Panic ''copyuvm: page not present''
       else
         let pa = PTE_ADDR (ldk pte s); flags = PTE_FLAGS (ldk pte s) in
         bindk (kalloc s) (\<lambda>mm s.
           if mm = 0 then bindk (freevm kend d s) (\<lambda>_ s. Ok 0 s)
           else
             let s = s\<lparr>km_mem := memmove (km_mem s) mm (P2V pa) PGSIZE\<rparr> in
             bindk (mappages d i PGSIZE (V2P mm) flags s) (\<lambda>r s.
               if r < 0 then bindk (kfree kend mm s) (\<lambda>_ s. bindk (freevm kend d s) (\<lambda>_ s. Ok 0 s))
               else copyuvm_loop kend pgdir d is s)))"

definition copyuvm :: "uint \<Rightarrow> uint \<Rightarrow> uint \<Rightarrow> uint \<Rightarrow> 'z kmem_scheme \<Rightarrow> (uint, 'z kmem_scheme) kres" where
  "copyuvm kend kdata pgdir sz s =
     bindk (setupkvm kend kdata s) (\<lambda>d s.
       if d = 0 then Ok 0 s else copyuvm_loop kend pgdir d (page_range 0 sz) s)"

text \<open>The entry is read even when \<^verbatim>\<open>walkpgdir\<close> returned the null pointer.\<close>

definition uva2ka :: "uint \<Rightarrow> uint \<Rightarrow> 'z kmem_scheme \<Rightarrow> (uint, 'z kmem_scheme) kres" where
  "uva2ka pgdir uva s =
     bindk (walkpgdir pgdir uva False s) (\<lambda>pte s.
       if ldk pte s AND PTE_P = 0 then Ok 0 s
       else if ldk pte s AND PTE_U = 0 then Ok 0 s
       else Ok (P2V (PTE_ADDR (ldk pte s))) s)"


lemma page_rest: "unat (PGSIZE - (va - PGROUNDDOWN va)) = 4096 - unat va mod 4096"
proof -
  have "PGROUNDDOWN va \<le> va" "unat (PGROUNDDOWN va) = unat va - unat va mod 4096"
    by (simp_all add: word_le_nat_alt unat_PGROUNDDOWN minus_mod_eq_div_mult)
  then have "unat (va - PGROUNDDOWN va) = unat va mod 4096"
    by (subst unat_sub) (auto intro: diff_diff_cancel mod_less_eq_dividend)
  moreover from this have "va - PGROUNDDOWN va \<le> PGSIZE" by (simp add: word_le_nat_alt PGSIZE_def)
  ultimately show ?thesis by (subst unat_sub) (simp_all add: PGSIZE_def)
qed

definition out_chunk :: "uint \<Rightarrow> uint \<Rightarrow> uint" where
  "out_chunk va len = (let n = PGSIZE - (va - PGROUNDDOWN va) in if n > len then len else n)"

lemma out_chunk_progress: "0 < len \<Longrightarrow> unat (len - out_chunk va len) < unat len"
proof -
  assume l: "0 < len"
  have "0 < unat (PGSIZE - (va - PGROUNDDOWN va))" unfolding page_rest by simp
  then have m: "0 < unat (out_chunk va len)" "out_chunk va len \<le> len"
    using l by (auto simp: out_chunk_def Let_def unat_gt_0)
  then have "unat (len - out_chunk va len) = unat len - unat (out_chunk va len)" by (simp add: unat_sub)
  then show ?thesis using m l by (simp add: unat_gt_0 word_le_nat_alt)
qed

function copyout :: "uint \<Rightarrow> uint \<Rightarrow> byte list \<Rightarrow> uint \<Rightarrow> 'z kmem_scheme \<Rightarrow> (int, 'z kmem_scheme) kres" where
  "copyout pgdir va buf len s =
     (if len > 0 then
        let va0 = PGROUNDDOWN va in
        bindk (uva2ka pgdir va0 s) (\<lambda>pa0 s.
          if pa0 = 0 then Ok (-1) s
          else
            let n = out_chunk va len;
                s = s\<lparr>km_mem := mem_write (km_mem s) (pa0 + (va - va0)) (take (unat n) buf)\<rparr>
            in copyout pgdir (va0 + PGSIZE) (drop (unat n) buf) (len - n) s)
      else Ok 0 s)"
  by pat_completeness auto
termination by (relation "measure (\<lambda>(pgdir, va, buf, len, s). unat len)") (auto simp: out_chunk_progress)

declare copyout.simps [simp del] deallocuvm_loop.simps [simp del]

end
