(* ===== verification/Exec.thy ===== *)
theory Exec
  imports File Vm
begin

text \<open>
  Program loading: \<^verbatim>\<open>exec.c\<close>, \<^verbatim>\<open>loaduvm\<close> of \<^verbatim>\<open>vm.c\<close>, and \<^verbatim>\<open>pipealloc\<close> of \<^verbatim>\<open>pipe.c\<close>. The state adds the page allocator and
  kernel memory to the file layer. A string argument is the list of its bytes without the nul.
\<close>

record xstate = vstate +
  x_km :: kmem

definition in_km :: "(kmem \<Rightarrow> ('a, kmem) kres) \<Rightarrow> 'z xstate_scheme \<Rightarrow> ('a, 'z xstate_scheme) kres" where
  "in_km f s = zoomk (\<lambda>x. s\<lparr>x_km := x\<rparr>) (f (x_km s))"

definition store_km :: "uint \<Rightarrow> byte list \<Rightarrow> 'z xstate_scheme \<Rightarrow> 'z xstate_scheme" where
  "store_km a bs s = s\<lparr>x_km := (x_km s)\<lparr>km_mem := mem_write (km_mem (x_km s)) a bs\<rparr>\<rparr>"

text \<open>User memory as a page directory maps it.\<close>

definition user_view :: "uint \<Rightarrow> mem \<Rightarrow> mem" where
  "user_view pgdir m va =
     (let pgtab = P2V (PTE_ADDR (ld32 m (pgdir + 4 * PDX va)));
          pa = PTE_ADDR (ld32 m (pgtab + 4 * PTX va))
      in m (P2V pa + (va - PGROUNDDOWN va)))"

subsection \<open>A new pipe\<close>

definition pipealloc :: "'z xstate_scheme \<Rightarrow> ((nat \<times> nat) option, 'z xstate_scheme) kres" where
  "pipealloc s =
     bindk (filealloc s) (\<lambda>r0 s.
       case r0 of
         None \<Rightarrow> Ok None s
       | Some f0 \<Rightarrow>
         bindk (filealloc s) (\<lambda>r1 s.
           case r1 of
             None \<Rightarrow> bindk (fileclose f0 s) (\<lambda>_ s. Ok None s)
           | Some f1 \<Rightarrow>
             bindk (in_km kalloc s) (\<lambda>pg s.
               if pg = 0 then
                 bindk (fileclose f0 s) (\<lambda>_ s. bindk (fileclose f1 s) (\<lambda>_ s. Ok None s))
               else Ok (Some (f0, f1)) (pipe_files (unat pg) f0 f1 s))))"

subsection \<open>Loading a segment\<close>

primrec loaduvm_loop :: "fstate dev_read \<Rightarrow> uint \<Rightarrow> uint \<Rightarrow> nat \<Rightarrow> uint \<Rightarrow> uint \<Rightarrow> uint list \<Rightarrow> 'z xstate_scheme \<Rightarrow>
    (int, 'z xstate_scheme) kres" where
  "loaduvm_loop dr pgdir addr ip offset sz [] s = Ok 0 s"
| "loaduvm_loop dr pgdir addr ip offset sz (i # is) s =
     bindk (in_km (walkpgdir pgdir (addr + i) False) s) (\<lambda>pte s.
       if pte = 0 then Panic ''loaduvm: address should exist''
       else
         let pa = PTE_ADDR (ldk pte (x_km s)); n = (if sz - i < PGSIZE then sz - i else PGSIZE) in
         bindk (in_fs (readi dr ip (offset + i) n) s) (\<lambda>r s.
           let s = store_km (P2V pa) (snd r) s in
           if of_int (fst r) \<noteq> n then Ok (-1) s
           else loaduvm_loop dr pgdir addr ip offset sz is s))"

definition loaduvm :: "fstate dev_read \<Rightarrow> uint \<Rightarrow> uint \<Rightarrow> nat \<Rightarrow> uint \<Rightarrow> uint \<Rightarrow> 'z xstate_scheme \<Rightarrow>
    (int, 'z xstate_scheme) kres" where
  "loaduvm dr pgdir addr ip offset sz s =
     (if addr mod PGSIZE \<noteq> 0 then Panic ''loaduvm: addr must be page aligned''
      else loaduvm_loop dr pgdir addr ip offset sz (page_range 0 sz) s)"

subsection \<open>ELF headers\<close>

definition ELF_MAGIC :: uint where "ELF_MAGIC = 0x464C457F"
definition ELF_PROG_LOAD :: uint where "ELF_PROG_LOAD = 1"
definition MAXARG :: nat where "MAXARG = 32"

record elfhdr =
  eh_magic :: uint
  eh_entry :: uint
  eh_phoff :: uint
  eh_phnum :: ushort

record proghdr =
  ph_type :: uint
  ph_off :: uint
  ph_vaddr :: uint
  ph_filesz :: uint
  ph_memsz :: uint

definition elfhdr_of :: "byte list \<Rightarrow> elfhdr" where
  "elfhdr_of d = \<lparr>eh_magic = of_le (get_bytes 0 4 d), eh_entry = of_le (get_bytes 24 4 d),
     eh_phoff = of_le (get_bytes 28 4 d), eh_phnum = of_le16 (get_bytes 44 2 d)\<rparr>"

definition proghdr_of :: "byte list \<Rightarrow> proghdr" where
  "proghdr_of d = \<lparr>ph_type = of_le (get_bytes 0 4 d), ph_off = of_le (get_bytes 4 4 d),
     ph_vaddr = of_le (get_bytes 8 4 d), ph_filesz = of_le (get_bytes 16 4 d), ph_memsz = of_le (get_bytes 20 4 d)\<rparr>"

subsection \<open>exec\<close>

text \<open>\<open>None\<close> is a jump to \<^verbatim>\<open>bad\<close>; otherwise the value is the new size.\<close>

primrec exec_load :: "uint \<Rightarrow> fstate dev_read \<Rightarrow> nat \<Rightarrow> uint \<Rightarrow> uint \<Rightarrow> uint list \<Rightarrow> 'z xstate_scheme \<Rightarrow>
    (uint option, 'z xstate_scheme) kres" where
  "exec_load kend dr ip pgdir sz [] s = Ok (Some sz) s"
| "exec_load kend dr ip pgdir sz (off # offs) s =
     bindk (in_fs (readi dr ip off 32) s) (\<lambda>r s.
       if fst r \<noteq> 32 then Ok None s
       else
         let ph = proghdr_of (snd r) in
         if ph_type ph \<noteq> ELF_PROG_LOAD then exec_load kend dr ip pgdir sz offs s
         else if ph_memsz ph < ph_filesz ph then Ok None s
         else if ph_vaddr ph + ph_memsz ph < ph_vaddr ph then Ok None s
         else
           bindk (in_km (allocuvm kend pgdir sz (ph_vaddr ph + ph_memsz ph)) s) (\<lambda>sz s.
             if sz = 0 then Ok None s
             else if ph_vaddr ph mod PGSIZE \<noteq> 0 then Ok None s
             else
               bindk (loaduvm dr pgdir (ph_vaddr ph) ip (ph_off ph) (ph_filesz ph) s) (\<lambda>r s.
                 if r < 0 then Ok None s else exec_load kend dr ip pgdir sz offs s)))"

text \<open>Pushing the argument strings: the value is the stack pointer and the addresses of the strings.\<close>

primrec exec_args :: "uint \<Rightarrow> byte list list \<Rightarrow> nat \<Rightarrow> uint \<Rightarrow> uint list \<Rightarrow> 'z xstate_scheme \<Rightarrow>
    ((uint \<times> uint list) option, 'z xstate_scheme) kres" where
  "exec_args pgdir [] argc sp ptrs s = Ok (Some (sp, ptrs)) s"
| "exec_args pgdir (str # argv) argc sp ptrs s =
     (if argc \<ge> MAXARG then Ok None s
      else
        let n = of_nat (length str) + 1; sp = (sp - n) AND NOT 3 in
        bindk (in_km (copyout pgdir sp (str @ [0]) n) s) (\<lambda>r s.
          if r < 0 then Ok None s else exec_args pgdir argv (Suc argc) sp (ptrs @ [sp]) s))"

definition last_elem :: "byte list \<Rightarrow> byte list" where
  "last_elem path = rev (takeWhile (\<lambda>c. c \<noteq> slash) (rev path))"

text \<open>The label \<^verbatim>\<open>bad\<close>.\<close>

definition exec_bad :: "uint \<Rightarrow> uint \<Rightarrow> nat option \<Rightarrow> 'z xstate_scheme \<Rightarrow> (int, 'z xstate_scheme) kres" where
  "exec_bad kend pgdir ip s =
     bindk (if pgdir \<noteq> 0 then in_km (freevm kend pgdir) s else Ok () s) (\<lambda>_ s.
     bindk (case ip of None \<Rightarrow> Ok () s
            | Some ip \<Rightarrow> bindk (in_fs (iunlockput ip) s) (\<lambda>_ s. in_fs end_op s)) (\<lambda>_ s. Ok (-1) s))"

text \<open>From the user stack on: the inode is released, the new image not yet committed.\<close>

definition exec_commit :: "uint \<Rightarrow> nat \<Rightarrow> byte list \<Rightarrow> elfhdr \<Rightarrow> uint \<Rightarrow> uint \<Rightarrow> uint \<Rightarrow> 'z xstate_scheme \<Rightarrow>
    (int, 'z xstate_scheme) kres" where
  "exec_commit kend cur path elf pgdir sz sp s =
     (let p = k_procs (v_pi s) ! cur;
          k = procs_upd cur (\<lambda>p. p\<lparr>p_name := safestrcpy_buf (p_name p) (last_elem path @ [0]), p_pgdir := pgdir,
                p_sz := sz, p_handler := 0, p_tf := (p_tf p)\<lparr>tf_eip := eh_entry elf, tf_esp := sp\<rparr>\<rparr>) (v_pi s);
          k = k\<lparr>k_umem := (k_umem k)(cur := user_view pgdir (km_mem (x_km s)))\<rparr>
      in bindk (in_pi (switchuvm (Some cur)) (s\<lparr>v_pi := k\<rparr>)) (\<lambda>_ s.
         bindk (in_km (freevm kend (p_pgdir p)) s) (\<lambda>_ s. Ok 0 s)))"

definition exec_stack :: "uint \<Rightarrow> nat \<Rightarrow> byte list \<Rightarrow> byte list list \<Rightarrow> elfhdr \<Rightarrow> uint \<Rightarrow> uint \<Rightarrow> 'z xstate_scheme \<Rightarrow>
    (int, 'z xstate_scheme) kres" where
  "exec_stack kend cur path argv elf pgdir sz s =
     (let sz = PGROUNDUP sz in
      bindk (in_km (allocuvm kend pgdir sz (sz + 2 * PGSIZE)) s) (\<lambda>sz s.
        if sz = 0 then exec_bad kend pgdir None s
        else
          bindk (in_km (clearpteu pgdir (sz - 2 * PGSIZE)) s) (\<lambda>_ s.
          bindk (exec_args pgdir argv 0 sz [] s) (\<lambda>r s.
            case r of
              None \<Rightarrow> exec_bad kend pgdir None s
            | Some (sp, ptrs) \<Rightarrow>
                let argc = of_nat (length ptrs);
                    ustack = [0xffffffff, argc, sp - (argc + 1) * 4] @ ptrs @ [0];
                    sp = sp - (3 + argc + 1) * 4
                in bindk (in_km (copyout pgdir sp (concat (map le_bytes ustack)) ((3 + argc + 1) * 4)) s) (\<lambda>r s.
                     if r < 0 then exec_bad kend pgdir None s
                     else exec_commit kend cur path elf pgdir sz sp s)))))"

definition exec :: "uint \<Rightarrow> uint \<Rightarrow> fstate dev_read \<Rightarrow> nat \<Rightarrow> nat \<Rightarrow> byte list \<Rightarrow> byte list list \<Rightarrow> 'z xstate_scheme \<Rightarrow>
    (int, 'z xstate_scheme) kres" where
  "exec kend kdata dr cur cwd path argv s =
     bindk (in_fs begin_op s) (\<lambda>_ s.
     bindk (in_fs (namei dr cwd path) s) (\<lambda>ip s.
       case ip of
         None \<Rightarrow> bindk (in_fs end_op s) (\<lambda>_ s. Ok (-1) s)
       | Some ip \<Rightarrow>
           bindk (in_fs (ilock ip) s) (\<lambda>_ s.
           bindk (in_fs (readi dr ip 0 52) s) (\<lambda>r s.
             if fst r \<noteq> 52 then exec_bad kend 0 (Some ip) s
             else
               let elf = elfhdr_of (snd r) in
               if eh_magic elf \<noteq> ELF_MAGIC then exec_bad kend 0 (Some ip) s
               else
                 bindk (in_km (setupkvm kend kdata) s) (\<lambda>pgdir s.
                   if pgdir = 0 then exec_bad kend 0 (Some ip) s
                   else
                     bindk (exec_load kend dr ip pgdir 0
                         (map (\<lambda>i. eh_phoff elf + of_nat (32 * i)) [0..<unat (eh_phnum elf)]) s) (\<lambda>r s.
                       case r of
                         None \<Rightarrow> exec_bad kend pgdir (Some ip) s
                       | Some sz \<Rightarrow>
                           bindk (in_fs (iunlockput ip) s) (\<lambda>_ s.
                           bindk (in_fs end_op s) (\<lambda>_ s.
                           exec_stack kend cur path argv elf pgdir sz s))))))))"

end
