(* ===== verification/Sysfile.thy ===== *)
theory Sysfile
  imports Exec
begin

text \<open>
  The file-system calls of \<^verbatim>\<open>sysfile.c\<close>: argument checking and the compositions of the file layer.
  The value of a call is what it leaves in \<^verbatim>\<open>eax\<close>. Path arguments are read from the memory of the
  calling process before the call works on them.
\<close>

definition O_RDONLY :: uint where "O_RDONLY = 0"
definition O_WRONLY :: uint where "O_WRONLY = 1"
definition O_RDWR :: uint where "O_RDWR = 2"
definition O_CREATE :: uint where "O_CREATE = 0x200"

subsection \<open>Arguments and descriptors\<close>

definition in_cur :: "(nat \<Rightarrow> 'z xstate_scheme \<Rightarrow> ('a, 'z xstate_scheme) kres) \<Rightarrow> 'z xstate_scheme \<Rightarrow> ('a, 'z xstate_scheme) kres" where
  "in_cur f s = bindk (in_pi myproc_k s) (\<lambda>p s. case p of None \<Rightarrow> Panic ''trap'' | Some p \<Rightarrow> f p s)"

abbreviation ofile_of :: "'z vstate_scheme \<Rightarrow> nat \<Rightarrow> nat option list" where
  "ofile_of s cur \<equiv> p_ofile (k_procs (v_pi s) ! cur)"

definition set_ofile :: "nat \<Rightarrow> nat \<Rightarrow> nat option \<Rightarrow> 'z vstate_scheme \<Rightarrow> 'z vstate_scheme" where
  "set_ofile cur fd v s = s\<lparr>v_pi := procs_upd cur (\<lambda>p. p\<lparr>p_ofile := (p_ofile p)[fd := v]\<rparr>) (v_pi s)\<rparr>"

definition cwd_of :: "nat \<Rightarrow> 'z vstate_scheme \<Rightarrow> nat" where
  "cwd_of cur s = the (p_cwd (k_procs (v_pi s) ! cur))"

definition argfd :: "nat \<Rightarrow> nat \<Rightarrow> 'z vstate_scheme \<Rightarrow> ((nat \<times> nat) option, 'z vstate_scheme) kres" where
  "argfd n cur s =
     bindk (in_pi (argint n) s) (\<lambda>v s.
       Ok (case v of
             None \<Rightarrow> None
           | Some w \<Rightarrow>
               let fd = sint w in
               if fd < 0 \<or> fd \<ge> int NOFILE then None
               else map_option (\<lambda>f. (nat fd, f)) (ofile_of s cur ! nat fd)) s)"

definition fdalloc :: "nat \<Rightarrow> nat \<Rightarrow> 'z vstate_scheme \<Rightarrow> (nat option, 'z vstate_scheme) kres" where
  "fdalloc f cur s =
     (case find_idx (\<lambda>x. x = None) (take NOFILE (ofile_of s cur)) of
        Some fd \<Rightarrow> Ok (Some fd) (set_ofile cur fd (Some f) s)
      | None \<Rightarrow> Ok None s)"

definition argpath :: "nat \<Rightarrow> nat \<Rightarrow> 'z vstate_scheme \<Rightarrow> (byte list option, 'z vstate_scheme) kres" where
  "argpath n cur s =
     bindk (in_pi (argstr n) s) (\<lambda>r s. Ok (map_option (\<lambda>(a, len). user_read cur a (unat len) s) r) s)"

subsection \<open>Calls on descriptors\<close>

definition sys_dup :: "'z xstate_scheme \<Rightarrow> (uint, 'z xstate_scheme) kres" where
  "sys_dup s = in_cur (\<lambda>cur s.
     bindk (argfd 0 cur s) (\<lambda>r s.
       case r of None \<Rightarrow> ret_int (-1) s
       | Some (_, f) \<Rightarrow>
           bindk (fdalloc f cur s) (\<lambda>fd s.
             case fd of None \<Rightarrow> ret_int (-1) s
             | Some fd \<Rightarrow> bindk (filedup f s) (\<lambda>_ s. ret_int (int fd) s)))) s"

definition sys_read :: "fstate dev_read \<Rightarrow> 'z xstate_scheme \<Rightarrow> (uint, 'z xstate_scheme) kres" where
  "sys_read dr s = in_cur (\<lambda>cur s.
     bindk (argfd 0 cur s) (\<lambda>r s. case r of None \<Rightarrow> ret_int (-1) s | Some (_, f) \<Rightarrow>
     bindk (in_pi (argint 2) s) (\<lambda>n s. case n of None \<Rightarrow> ret_int (-1) s | Some n \<Rightarrow>
     bindk (in_pi (argptr 1 (sint n)) s) (\<lambda>p s. case p of None \<Rightarrow> ret_int (-1) s | Some p \<Rightarrow>
     bindk (fileread dr cur f p (sint n) s) ret_int)))) s"

definition sys_write :: "fstate dev_write \<Rightarrow> 'z xstate_scheme \<Rightarrow> (uint, 'z xstate_scheme) kres" where
  "sys_write dw s = in_cur (\<lambda>cur s.
     bindk (argfd 0 cur s) (\<lambda>r s. case r of None \<Rightarrow> ret_int (-1) s | Some (_, f) \<Rightarrow>
     bindk (in_pi (argint 2) s) (\<lambda>n s. case n of None \<Rightarrow> ret_int (-1) s | Some n \<Rightarrow>
     bindk (in_pi (argptr 1 (sint n)) s) (\<lambda>p s. case p of None \<Rightarrow> ret_int (-1) s | Some p \<Rightarrow>
     bindk (filewrite dw cur f p (sint n) s) ret_int)))) s"

definition sys_close :: "'z xstate_scheme \<Rightarrow> (uint, 'z xstate_scheme) kres" where
  "sys_close s = in_cur (\<lambda>cur s.
     bindk (argfd 0 cur s) (\<lambda>r s.
       case r of None \<Rightarrow> ret_int (-1) s
       | Some (fd, f) \<Rightarrow> bindk (fileclose f (set_ofile cur fd None s)) (\<lambda>_ s. ret_int 0 s))) s"

text \<open>\<^verbatim>\<open>struct stat\<close> in user memory: 20 bytes, with two bytes of padding after each short.\<close>

definition put_stat :: "nat \<Rightarrow> uint \<Rightarrow> stat \<Rightarrow> 'z vstate_scheme \<Rightarrow> 'z vstate_scheme" where
  "put_stat cur a st s =
     (let s = user_write cur a (le16_bytes (st_type st)) s;
          s = user_write cur (a + 4) (le_bytes (st_dev st)) s;
          s = user_write cur (a + 8) (le_bytes (st_ino st)) s;
          s = user_write cur (a + 12) (le16_bytes (st_nlink st)) s
      in user_write cur (a + 16) (le_bytes (st_size st)) s)"

definition sys_fstat :: "'z xstate_scheme \<Rightarrow> (uint, 'z xstate_scheme) kres" where
  "sys_fstat s = in_cur (\<lambda>cur s.
     bindk (argfd 0 cur s) (\<lambda>r s. case r of None \<Rightarrow> ret_int (-1) s | Some (_, f) \<Rightarrow>
     bindk (in_pi (argptr 1 20) s) (\<lambda>p s. case p of None \<Rightarrow> ret_int (-1) s | Some p \<Rightarrow>
     bindk (filestat f s) (\<lambda>st s.
       case st of None \<Rightarrow> ret_int (-1) s | Some st \<Rightarrow> ret_int 0 (put_stat cur p st s))))) s"

subsection \<open>Links\<close>

definition add_nlink :: "int \<Rightarrow> nat \<Rightarrow> 'z vstate_scheme \<Rightarrow> 'z vstate_scheme" where
  "add_nlink d ip s = s\<lparr>v_fs := upd_inode ip (\<lambda>i. i\<lparr>i_nlink := i_nlink i + of_int d\<rparr>) (v_fs s)\<rparr>"

abbreviation vinode :: "'z vstate_scheme \<Rightarrow> nat \<Rightarrow> inode" where
  "vinode s ip \<equiv> inodeof (v_fs s) ip"

definition end_with :: "int \<Rightarrow> 'z xstate_scheme \<Rightarrow> (uint, 'z xstate_scheme) kres" where
  "end_with r s = bindk (in_fs end_op s) (\<lambda>_ s. ret_int r s)"

definition put_end :: "nat \<Rightarrow> int \<Rightarrow> 'z xstate_scheme \<Rightarrow> (uint, 'z xstate_scheme) kres" where
  "put_end ip r s = bindk (in_fs (iunlockput ip) s) (\<lambda>_ s. end_with r s)"

text \<open>The label \<^verbatim>\<open>bad\<close> of \<^verbatim>\<open>sys_link\<close>.\<close>

definition link_bad :: "nat \<Rightarrow> 'z xstate_scheme \<Rightarrow> (uint, 'z xstate_scheme) kres" where
  "link_bad ip s =
     bindk (in_fs (ilock ip) s) (\<lambda>_ s.
     bindk (in_fs (iupdate ip) (add_nlink (-1) ip s)) (\<lambda>_ s. put_end ip (-1) s))"

definition link_to :: "fstate dev_read \<Rightarrow> fstate dev_write \<Rightarrow> nat \<Rightarrow> byte list \<Rightarrow> nat \<Rightarrow> 'z xstate_scheme \<Rightarrow>
    (uint, 'z xstate_scheme) kres" where
  "link_to dr dw cur new ip s =
     bindk (in_fs (nameiparent dr (cwd_of cur s) new (replicate DIRSIZ 0)) s) (\<lambda>(dp, name) s.
       case dp of None \<Rightarrow> link_bad ip s
       | Some dp \<Rightarrow>
           bindk (in_fs (ilock dp) s) (\<lambda>_ s.
           bindk (if i_dev (vinode s dp) \<noteq> i_dev (vinode s ip) then Ok (-1) s
                  else in_fs (dirlink dr dw dp name (i_inum (vinode s ip))) s) (\<lambda>r s.
           bindk (in_fs (iunlockput dp) s) (\<lambda>_ s.
             if r < 0 then link_bad ip s
             else bindk (in_fs (iput ip) s) (\<lambda>_ s. end_with 0 s)))))"

definition sys_link :: "fstate dev_read \<Rightarrow> fstate dev_write \<Rightarrow> 'z xstate_scheme \<Rightarrow> (uint, 'z xstate_scheme) kres" where
  "sys_link dr dw s = in_cur (\<lambda>cur s.
     bindk (argpath 0 cur s) (\<lambda>old s. case old of None \<Rightarrow> ret_int (-1) s | Some old \<Rightarrow>
     bindk (argpath 1 cur s) (\<lambda>new s. case new of None \<Rightarrow> ret_int (-1) s | Some new \<Rightarrow>
     bindk (in_fs begin_op s) (\<lambda>_ s.
     bindk (in_fs (namei dr (cwd_of cur s) old) s) (\<lambda>ip s.
       case ip of None \<Rightarrow> end_with (-1) s
       | Some ip \<Rightarrow>
           bindk (in_fs (ilock ip) s) (\<lambda>_ s.
             if i_type (vinode s ip) = T_DIR then put_end ip (-1) s
             else
               bindk (in_fs (iupdate ip) (add_nlink 1 ip s)) (\<lambda>_ s.
               bindk (in_fs (iunlock ip) s) (\<lambda>_ s. link_to dr dw cur new ip s))))))))  s"

primrec isdirempty_loop :: "fstate dev_read \<Rightarrow> nat \<Rightarrow> uint list \<Rightarrow> fstate \<Rightarrow> (bool, fstate) kres" where
  "isdirempty_loop dr dp [] s = Ok True s"
| "isdirempty_loop dr dp (off # offs) s =
     bindk (readi dr dp off 16 s) (\<lambda>r s.
       if fst r \<noteq> 16 then Panic ''isdirempty: readi''
       else if de_inum (dirent_of (snd r)) \<noteq> 0 then Ok False s
       else isdirempty_loop dr dp offs s)"

definition isdirempty :: "fstate dev_read \<Rightarrow> nat \<Rightarrow> fstate \<Rightarrow> (bool, fstate) kres" where
  "isdirempty dr dp s = isdirempty_loop dr dp (drop 2 (de_offs (i_size (inodeof s dp)))) s"

definition dot :: "byte list" where "dot = str_bytes ''.''"
definition dotdot :: "byte list" where "dotdot = str_bytes ''..''"

text \<open>The part of \<^verbatim>\<open>sys_unlink\<close> once the entry is found and the victim locked.\<close>

definition unlink_entry :: "fstate dev_read \<Rightarrow> fstate dev_write \<Rightarrow> nat \<Rightarrow> nat \<Rightarrow> uint \<Rightarrow> 'z xstate_scheme \<Rightarrow>
    (uint, 'z xstate_scheme) kres" where
  "unlink_entry dr dw dp ip off s =
     (if sint (i_nlink (vinode s ip)) < 1 then Panic ''unlink: nlink < 1''
      else
        bindk (if i_type (vinode s ip) = T_DIR then in_fs (isdirempty dr ip) s else Ok True s) (\<lambda>empty s.
          if \<not> empty then bindk (in_fs (iunlockput ip) s) (\<lambda>_ s. put_end dp (-1) s)
          else
            bindk (in_fs (writei dw dp (replicate 16 0) off 16) s) (\<lambda>r s.
              if r \<noteq> 16 then Panic ''unlink: writei''
              else
                bindk (if i_type (vinode s ip) = T_DIR then in_fs (iupdate dp) (add_nlink (-1) dp s) else Ok () s) (\<lambda>_ s.
                bindk (in_fs (iunlockput dp) s) (\<lambda>_ s.
                bindk (in_fs (iupdate ip) (add_nlink (-1) ip s)) (\<lambda>_ s.
                put_end ip 0 s))))))"

definition sys_unlink :: "fstate dev_read \<Rightarrow> fstate dev_write \<Rightarrow> 'z xstate_scheme \<Rightarrow> (uint, 'z xstate_scheme) kres" where
  "sys_unlink dr dw s = in_cur (\<lambda>cur s.
     bindk (argpath 0 cur s) (\<lambda>path s. case path of None \<Rightarrow> ret_int (-1) s | Some path \<Rightarrow>
     bindk (in_fs begin_op s) (\<lambda>_ s.
     bindk (in_fs (nameiparent dr (cwd_of cur s) path (replicate DIRSIZ 0)) s) (\<lambda>(dp, name) s.
       case dp of None \<Rightarrow> end_with (-1) s
       | Some dp \<Rightarrow>
           bindk (in_fs (ilock dp) s) (\<lambda>_ s.
             if namecmp name dot = 0 \<or> namecmp name dotdot = 0 then put_end dp (-1) s
             else
               bindk (in_fs (dirlookup dr dp name) s) (\<lambda>r s.
                 case r of None \<Rightarrow> put_end dp (-1) s
                 | Some (ip, off) \<Rightarrow>
                     bindk (in_fs (ilock ip) s) (\<lambda>_ s. unlink_entry dr dw dp ip off s))))))) s"


subsection \<open>Creating and opening\<close>

text \<open>The new inode once it is allocated: its fields, the dots of a directory, its entry in the parent.\<close>

definition create_fill :: "fstate dev_read \<Rightarrow> fstate dev_write \<Rightarrow> byte list \<Rightarrow> ushort \<Rightarrow> ushort \<Rightarrow> ushort \<Rightarrow> nat \<Rightarrow> nat \<Rightarrow>
    'z xstate_scheme \<Rightarrow> (nat option, 'z xstate_scheme) kres" where
  "create_fill dr dw name type major minor dp ip s =
     (let s = s\<lparr>v_fs := upd_inode ip (\<lambda>i. i\<lparr>i_major := major, i_minor := minor, i_nlink := 1\<rparr>) (v_fs s)\<rparr> in
      bindk (in_fs (iupdate ip) s) (\<lambda>_ s.
      bindk
        (if type = T_DIR then
           bindk (in_fs (iupdate dp) (add_nlink 1 dp s)) (\<lambda>_ s.
           bindk (in_fs (dirlink dr dw ip dot (i_inum (vinode s ip))) s) (\<lambda>r s.
             if r < 0 then Panic ''create dots''
             else
               bindk (in_fs (dirlink dr dw ip dotdot (i_inum (vinode s dp))) s) (\<lambda>r s.
                 if r < 0 then Panic ''create dots'' else Ok () s)))
         else Ok () s) (\<lambda>_ s.
      bindk (in_fs (dirlink dr dw dp name (i_inum (vinode s ip))) s) (\<lambda>r s.
        if r < 0 then Panic ''create: dirlink''
        else bindk (in_fs (iunlockput dp) s) (\<lambda>_ s. Ok (Some ip) s)))))"

definition create :: "fstate dev_read \<Rightarrow> fstate dev_write \<Rightarrow> nat \<Rightarrow> byte list \<Rightarrow> ushort \<Rightarrow> ushort \<Rightarrow> ushort \<Rightarrow>
    'z xstate_scheme \<Rightarrow> (nat option, 'z xstate_scheme) kres" where
  "create dr dw cur path type major minor s =
     bindk (in_fs (nameiparent dr (cwd_of cur s) path (replicate DIRSIZ 0)) s) (\<lambda>(dp, name) s.
       case dp of None \<Rightarrow> Ok None s
       | Some dp \<Rightarrow>
           bindk (in_fs (ilock dp) s) (\<lambda>_ s.
           bindk (in_fs (dirlookup dr dp name) s) (\<lambda>r s.
             case r of
               Some (ip, off) \<Rightarrow>
                 bindk (in_fs (iunlockput dp) s) (\<lambda>_ s.
                 bindk (in_fs (ilock ip) s) (\<lambda>_ s.
                   if type = T_FILE \<and> i_type (vinode s ip) = T_FILE then Ok (Some ip) s
                   else bindk (in_fs (iunlockput ip) s) (\<lambda>_ s. Ok None s)))
             | None \<Rightarrow>
                 bindk (in_fs (ialloc (i_dev (vinode s dp)) type) s) (\<lambda>ip s.
                 bindk (in_fs (ilock ip) s) (\<lambda>_ s.
                 create_fill dr dw name type major minor dp ip s)))))"

text \<open>
  The file structure of an opened inode. \<^verbatim>\<open>fileclose\<close> of the structure just allocated, on the error
  path, finds it with type \<^verbatim>\<open>FD_NONE\<close>.
\<close>

definition open_file :: "nat \<Rightarrow> uint \<Rightarrow> nat \<Rightarrow> 'z xstate_scheme \<Rightarrow> (uint, 'z xstate_scheme) kres" where
  "open_file cur omode ip s =
     bindk (filealloc s) (\<lambda>f s.
       case f of None \<Rightarrow> put_end ip (-1) s
       | Some f \<Rightarrow>
           bindk (fdalloc f cur s) (\<lambda>fd s.
             case fd of
               None \<Rightarrow> bindk (fileclose f s) (\<lambda>_ s. put_end ip (-1) s)
             | Some fd \<Rightarrow>
                 bindk (in_fs (iunlock ip) s) (\<lambda>_ s.
                 bindk (in_fs end_op s) (\<lambda>_ s.
                   ret_int (int fd) (upd_file f (\<lambda>x. x\<lparr>ff_type := FD_INODE, ff_ip := ip, ff_off := 0,
                     ff_readable := (omode AND O_WRONLY = 0),
                     ff_writable := (omode AND O_WRONLY \<noteq> 0 \<or> omode AND O_RDWR \<noteq> 0)\<rparr>) s)))))"

definition sys_open :: "fstate dev_read \<Rightarrow> fstate dev_write \<Rightarrow> 'z xstate_scheme \<Rightarrow> (uint, 'z xstate_scheme) kres" where
  "sys_open dr dw s = in_cur (\<lambda>cur s.
     bindk (argpath 0 cur s) (\<lambda>path s. case path of None \<Rightarrow> ret_int (-1) s | Some path \<Rightarrow>
     bindk (in_pi (argint 1) s) (\<lambda>omode s. case omode of None \<Rightarrow> ret_int (-1) s | Some omode \<Rightarrow>
     bindk (in_fs begin_op s) (\<lambda>_ s.
       if omode AND O_CREATE \<noteq> 0 then
         bindk (create dr dw cur path T_FILE 0 0 s) (\<lambda>ip s.
           case ip of None \<Rightarrow> end_with (-1) s | Some ip \<Rightarrow> open_file cur omode ip s)
       else
         bindk (in_fs (namei dr (cwd_of cur s) path) s) (\<lambda>ip s.
           case ip of None \<Rightarrow> end_with (-1) s
           | Some ip \<Rightarrow>
               bindk (in_fs (ilock ip) s) (\<lambda>_ s.
                 if i_type (vinode s ip) = T_DIR \<and> omode \<noteq> O_RDONLY then put_end ip (-1) s
                 else open_file cur omode ip s)))))) s"

definition sys_mkdir :: "fstate dev_read \<Rightarrow> fstate dev_write \<Rightarrow> 'z xstate_scheme \<Rightarrow> (uint, 'z xstate_scheme) kres" where
  "sys_mkdir dr dw s =
     bindk (in_fs begin_op s) (\<lambda>_ s. in_cur (\<lambda>cur s.
     bindk (argpath 0 cur s) (\<lambda>path s. case path of None \<Rightarrow> end_with (-1) s | Some path \<Rightarrow>
     bindk (create dr dw cur path T_DIR 0 0 s) (\<lambda>ip s.
       case ip of None \<Rightarrow> end_with (-1) s | Some ip \<Rightarrow> put_end ip 0 s))) s)"

definition sys_mknod :: "fstate dev_read \<Rightarrow> fstate dev_write \<Rightarrow> 'z xstate_scheme \<Rightarrow> (uint, 'z xstate_scheme) kres" where
  "sys_mknod dr dw s =
     bindk (in_fs begin_op s) (\<lambda>_ s. in_cur (\<lambda>cur s.
     bindk (argpath 0 cur s) (\<lambda>path s. case path of None \<Rightarrow> end_with (-1) s | Some path \<Rightarrow>
     bindk (in_pi (argint 1) s) (\<lambda>major s. case major of None \<Rightarrow> end_with (-1) s | Some major \<Rightarrow>
     bindk (in_pi (argint 2) s) (\<lambda>minor s. case minor of None \<Rightarrow> end_with (-1) s | Some minor \<Rightarrow>
     bindk (create dr dw cur path T_DEV (ucast major) (ucast minor) s) (\<lambda>ip s.
       case ip of None \<Rightarrow> end_with (-1) s | Some ip \<Rightarrow> put_end ip 0 s))))) s)"

definition sys_chdir :: "fstate dev_read \<Rightarrow> 'z xstate_scheme \<Rightarrow> (uint, 'z xstate_scheme) kres" where
  "sys_chdir dr s = in_cur (\<lambda>cur s.
     bindk (in_fs begin_op s) (\<lambda>_ s.
     bindk (argpath 0 cur s) (\<lambda>path s. case path of None \<Rightarrow> end_with (-1) s | Some path \<Rightarrow>
     bindk (in_fs (namei dr (cwd_of cur s) path) s) (\<lambda>ip s.
       case ip of None \<Rightarrow> end_with (-1) s
       | Some ip \<Rightarrow>
           bindk (in_fs (ilock ip) s) (\<lambda>_ s.
             if i_type (vinode s ip) \<noteq> T_DIR then put_end ip (-1) s
             else
               bindk (in_fs (iunlock ip) s) (\<lambda>_ s.
               bindk (in_fs (iput (cwd_of cur s)) s) (\<lambda>_ s.
               bindk (in_fs end_op s) (\<lambda>_ s.
                 ret_int 0 (s\<lparr>v_pi := procs_upd cur (\<lambda>p. p\<lparr>p_cwd := Some ip\<rparr>) (v_pi s)\<rparr>))))))))) s"

text \<open>The argument vector of \<^verbatim>\<open>exec\<close>: at most \<open>MAXARG - 1\<close> strings and the null pointer.\<close>

fun fetch_argv :: "nat \<Rightarrow> uint \<Rightarrow> nat \<Rightarrow> nat \<Rightarrow> 'z vstate_scheme \<Rightarrow> (byte list list option, 'z vstate_scheme) kres" where
  "fetch_argv cur uargv i 0 s = Ok None s"
| "fetch_argv cur uargv i (Suc r) s =
     bindk (in_pi (fetchint (uargv + 4 * of_nat i)) s) (\<lambda>v s.
       case v of None \<Rightarrow> Ok None s
       | Some uarg \<Rightarrow>
           if uarg = 0 then Ok (Some []) s
           else
             bindk (in_pi (fetchstr uarg) s) (\<lambda>str s.
               case str of None \<Rightarrow> Ok None s
               | Some (a, len) \<Rightarrow>
                   bindk (fetch_argv cur uargv (Suc i) r s) (\<lambda>rest s.
                     Ok (map_option (\<lambda>xs. user_read cur a (unat len) s # xs) rest) s)))"

definition sys_exec :: "uint \<Rightarrow> uint \<Rightarrow> fstate dev_read \<Rightarrow> 'z xstate_scheme \<Rightarrow> (uint, 'z xstate_scheme) kres" where
  "sys_exec kend kdata dr s = in_cur (\<lambda>cur s.
     bindk (argpath 0 cur s) (\<lambda>path s. case path of None \<Rightarrow> ret_int (-1) s | Some path \<Rightarrow>
     bindk (in_pi (argint 1) s) (\<lambda>uargv s. case uargv of None \<Rightarrow> ret_int (-1) s | Some uargv \<Rightarrow>
     bindk (fetch_argv cur uargv 0 MAXARG s) (\<lambda>argv s. case argv of None \<Rightarrow> ret_int (-1) s | Some argv \<Rightarrow>
     bindk (exec kend kdata dr cur (cwd_of cur s) path argv s) ret_int)))) s"

definition sys_pipe :: "'z xstate_scheme \<Rightarrow> (uint, 'z xstate_scheme) kres" where
  "sys_pipe s = in_cur (\<lambda>cur s.
     bindk (in_pi (argptr 0 8) s) (\<lambda>p s. case p of None \<Rightarrow> ret_int (-1) s | Some p \<Rightarrow>
     bindk (pipealloc s) (\<lambda>r s. case r of None \<Rightarrow> ret_int (-1) s | Some (rfile, wfile) \<Rightarrow>
     bindk (fdalloc rfile cur s) (\<lambda>fd0 s.
       case fd0 of
         None \<Rightarrow> bindk (fileclose rfile s) (\<lambda>_ s. bindk (fileclose wfile s) (\<lambda>_ s. ret_int (-1) s))
       | Some fd0 \<Rightarrow>
           bindk (fdalloc wfile cur s) (\<lambda>fd1 s.
             case fd1 of
               None \<Rightarrow>
                 bindk (fileclose rfile (set_ofile cur fd0 None s)) (\<lambda>_ s.
                 bindk (fileclose wfile s) (\<lambda>_ s. ret_int (-1) s))
             | Some fd1 \<Rightarrow>
                 ret_int 0 (user_write cur (p + 4) (le_bytes (of_nat fd1))
                   (user_write cur p (le_bytes (of_nat fd0)) s))))))) s"

end
