(* ===== verification/Fs_Tx.thy ===== *)
theory Fs_Tx
  imports Fs
begin

text \<open>
  How the file system uses the buffer cache inside a transaction: the state is the map \<open>content\<close> from
  blocks to bytes, reading a block leaves it alone and a logged write changes one entry of it. On this
  view rest the facts about the free bitmap, the inodes on disk and the contents of files.
\<close>

subsection \<open>Blocks inside a transaction\<close>

text \<open>
  \<open>tx H k s\<close>: the running process is inside a transaction, holds the buffers \<open>H\<close>, and the log has room
  for \<open>k\<close> more blocks.
\<close>

definition tx :: "nat set \<Rightarrow> nat \<Rightarrow> 'z lstate_scheme \<Rightarrow> bool" where
  "tx H k s \<longleftrightarrow> cache_ok s H \<and> synced s \<and> log_inv s \<and> l_n s + int k \<le> l_size s - 1 \<and> l_size s \<le> int LOGSIZE
     \<and> 1 \<le> l_outstanding s"

definition kept :: "'z lstate_scheme \<Rightarrow> 'z lstate_scheme \<Rightarrow> bool" where
  "kept s s' \<longleftrightarrow> bs_disk s' = bs_disk s \<and> bs_writes s' = bs_writes s \<and> bs_disksize s' = bs_disksize s
     \<and> bs_pid s' = bs_pid s \<and> l_start s' = l_start s \<and> lstate.more s' = lstate.more s"

lemma kept_refl [simp]: "kept s s" by (simp add: kept_def)

lemma kept_trans [trans]: "kept s s' \<Longrightarrow> kept s' s'' \<Longrightarrow> kept s s''" by (simp add: kept_def)

lemma keptD:
  assumes "kept s s'"
  shows "bs_disksize s' = bs_disksize s" "log_area s' = log_area s" "bs_pid s' = bs_pid s"
  using assms by (simp_all add: kept_def log_area_def log_blk_def)

lemma kept_fs:
  fixes s :: "'z fstate_scheme"
  assumes "kept s s'"
  shows "f_sb s' = f_sb s" "f_inode s' = f_inode s"
  using assms by (cases s; cases s'; simp add: kept_def)+

lemma tx_less: "tx H k s \<Longrightarrow> j \<le> k \<Longrightarrow> tx H j s" by (simp add: tx_def)

lemma tx_data: "tx H k s \<Longrightarrow> i \<in> H \<Longrightarrow> keyed s i b \<Longrightarrow> b_data (bufof s i) = content s b"
  using content_keyed [of s H i b] cache_okD(2) [of s H] by (auto simp: tx_def)

lemma tx_start:
  assumes "cache_ok s {}" "log_inv s" "l_n s + int k \<le> l_size s - 1" "l_size s \<le> int LOGSIZE" "1 \<le> l_outstanding s"
  shows "tx {} k s"
  using assms synced_free by (simp add: tx_def)

lemma more_lstate: "bstate.more s' = bstate.more s \<Longrightarrow> lstate.more s' = lstate.more s"
  by (cases s; cases s') simp

lemma calm_kept:
  assumes "calm s s'"
  shows "kept s s'" "synced s' = synced s" "log_inv s' = log_inv s"
proof -
  have m: "bstate.more s' = bstate.more s" using assms by (simp add: calm_def)
  note f = log_fields [OF m] more_lstate [OF m]
  show "kept s s'" "synced s' = synced s" "log_inv s' = log_inv s"
    using assms f by (simp_all add: kept_def calm_def synced_def log_inv_def log_blk_def logged_def)
qed

lemma calm_tx:
  assumes "tx H k s" "calm s s'" "cache_ok s' H'"
  shows "tx H' k s'"
proof -
  have m: "bstate.more s' = bstate.more s" using assms(2) by (simp add: calm_def)
  show ?thesis using assms calm_kept [OF assms(2)] log_fields [OF m] by (simp add: tx_def)
qed

lemma tx_dirty: "tx H k s \<Longrightarrow> card (dirty_blocks s) + k < NBUF"
proof -
  assume t: "tx H k s"
  then have "card (dirty_blocks s) \<le> length (logged s)" "int (length (logged s)) = l_n s"
    using card_length [of "logged s"] logged_length by (auto simp: tx_def log_inv_def)
  then show ?thesis using t by (simp add: tx_def LOGSIZE_def NBUF_def)
qed

lemma tx_read:
  assumes t: "tx H k s" and H: "card H \<le> k" and b: "b < bs_disksize s" "\<forall>i\<in>H. \<not> keyed s i b"
  shows "\<exists>i s'. bread 1 b s = Ok i s' \<and> i \<notin> H \<and> tx (insert i H) k s' \<and> keyed s' i b \<and> content s' = content s
    \<and> kept s s' \<and> (\<forall>j\<in>H. keyed s' j = keyed s j)"
proof -
  obtain i s' where r: "bread 1 b s = Ok i s'" "i \<notin> H" "cache_ok s' (insert i H)" "calm s s'" "keyed s' i b"
      "\<forall>j\<in>H. bufof s' j = bufof s j"
    using bread_any [of s H b] b tx_dirty [OF t] t H by (auto simp: tx_def)
  have "keyed s' j = keyed s j" if "j \<in> H" for j using r(6) that by (auto simp: keyed_def)
  then show ?thesis
    using r(1,2,5) calm_tx [OF t r(4,3)] calm_kept(1) [OF r(4)] r(4) by (auto simp: calm_def)
qed

lemma tx_relse:
  assumes t: "tx H k s" and i: "i \<in> H" "keyed s i b"
  shows "\<exists>s'. brelse i s = Ok () s' \<and> tx (H - {i}) k s' \<and> content s' = content s \<and> kept s s'
    \<and> (\<forall>j\<in>H - {i}. keyed s' j = keyed s j)"
proof -
  have "b \<in> dirty_blocks s \<or> content s b = bs_disk s b" using t by (simp add: tx_def synced_def)
  then obtain s' where r: "brelse i s = Ok () s'" "cache_ok s' (H - {i})" "calm s s'" "\<forall>j\<in>H - {i}. keyed s' j = keyed s j"
    using brelse_any [of s H i b] t i by (auto simp: tx_def)
  then show ?thesis using calm_tx [OF t r(3,2)] calm_kept(1) [OF r(3)] by (auto simp: calm_def)
qed

lemma tx_write:
  assumes t: "tx H (Suc k) s" and i: "i \<in> H" "keyed s i b" and b: "b \<notin> log_area s"
  shows "\<exists>s'. log_write i (set_bdata i d s) = Ok () s' \<and> tx H k s' \<and> content s' = (content s)(b := d) \<and> kept s s'
    \<and> (\<forall>j\<in>H. keyed s' j = keyed s j)"
proof -
  let ?s = "set_bdata i d s"
  have ok: "cache_ok s H" "log_inv s" "synced s" using t by (simp_all add: tx_def)
  have i': "i < length (bs_buf s)" "b_blockno (bufof s i) = b" using cache_okD(1,2) [OF ok(1)] i by (auto simp: keyed_def)
  have m: "bstate.more ?s = bstate.more s" by (simp add: set_bdata_def)
  note f = log_fields [OF m] more_lstate [OF m]
  have u: "cache_ok ?s H" "content ?s = (content s)(b := d)" "dirty_blocks ?s = dirty_blocks s"
    "bs_disk ?s = bs_disk s" "bs_disksize ?s = bs_disksize s" "bs_writes ?s = bs_writes s" "bs_pid ?s = bs_pid s"
    using set_data_spec [OF ok(1) i(1), of d] i' by (simp_all add: set_bdata_def)
  have ky: "keyed ?s j = keyed s j" for j
    using i' by (cases "j = i") (auto simp: keyed_def set_bdata_def upd_buf_def fun_eq_iff)
  then have kb: "keyed ?s i b" using i(2) by simp
  have p: "log_inv ?s" "log_room ?s" "b \<notin> log_area ?s" "logged ?s = logged s"
    using ok t b u f
    by (simp_all add: tx_def log_inv_def log_room_def log_area_def log_blk_def logged_def)
  obtain s' where s': "log_write i ?s = Ok () s'" "cache_ok s' H" "log_inv s'" "content s' = content ?s"
      "bs_disk s' = bs_disk ?s" "bs_writes s' = bs_writes ?s" "dirty_blocks s' = insert b (dirty_blocks ?s)"
      "bs_disksize s' = bs_disksize ?s" "bs_pid s' = bs_pid ?s" "l_start s' = l_start ?s" "l_size s' = l_size ?s"
      "l_outstanding s' = l_outstanding ?s" "logged s' = absorb b (logged ?s)" "lstate.more s' = lstate.more ?s"
      "\<forall>j\<in>H. keyed s' j = keyed ?s j"
    using log_write_spec [OF u(1) i(1) _ p(1-3)] kb by blast
  have "l_n s' \<le> l_n s + 1"
    using logged_length [OF s'(3)] logged_length [OF ok(2)] s'(13) p(4) by (simp add: absorb_def split: if_splits)
  then have "tx H k s'" using t s' u f ok(3) by (auto simp: tx_def synced_def)
  then show ?thesis using s' u f ky by (auto simp: kept_def)
qed

text \<open>Read a block and give it back; read a block, replace its bytes and give it back.\<close>

lemma tx_get:
  assumes t: "tx H k s" "card H \<le> k" "b < bs_disksize s" "\<forall>i\<in>H. \<not> keyed s i b"
  shows "\<exists>i s1 s2. bread 1 b s = Ok i s1 \<and> b_data (bufof s1 i) = content s b \<and> kept s s1 \<and> brelse i s1 = Ok () s2
    \<and> tx H k s2 \<and> content s2 = content s \<and> kept s s2 \<and> (\<forall>j\<in>H. keyed s2 j = keyed s j)"
proof -
  obtain i s1 where r: "bread 1 b s = Ok i s1" "i \<notin> H" "tx (insert i H) k s1" "keyed s1 i b" "content s1 = content s"
      "kept s s1" "\<forall>j\<in>H. keyed s1 j = keyed s j"
    using tx_read [OF t] by blast
  obtain s2 where "brelse i s1 = Ok () s2" "tx (insert i H - {i}) k s2" "content s2 = content s1" "kept s1 s2"
      "\<forall>j\<in>insert i H - {i}. keyed s2 j = keyed s1 j"
    using tx_relse [OF r(3) _ r(4)] by blast
  moreover have "insert i H - {i} = H" using r(2) by blast
  moreover have "b_data (bufof s1 i) = content s b" using tx_data [OF r(3) _ r(4)] r(5) by simp
  ultimately show ?thesis using r(1,5-7) kept_trans [OF r(6)]
    by (intro exI [of _ i] exI [of _ s1] exI [of _ s2]) auto
qed

lemma tx_put:
  assumes t: "tx H (Suc k) s" "card H \<le> Suc k" "b < bs_disksize s" "\<forall>i\<in>H. \<not> keyed s i b" and b: "b \<notin> log_area s"
  shows "\<exists>i s1. bread 1 b s = Ok i s1 \<and> b_data (bufof s1 i) = content s b \<and> kept s s1
    \<and> (\<forall>d. \<exists>s2 s3. log_write i (set_bdata i d s1) = Ok () s2 \<and> brelse i s2 = Ok () s3 \<and> tx H k s3
         \<and> content s3 = (content s)(b := d) \<and> kept s s2 \<and> kept s s3 \<and> (\<forall>j\<in>H. keyed s3 j = keyed s j))
    \<and> (\<exists>s2. brelse i s1 = Ok () s2 \<and> tx H (Suc k) s2 \<and> content s2 = content s \<and> kept s s2 \<and> (\<forall>j\<in>H. keyed s2 j = keyed s j))"
proof -
  obtain i s1 where r: "bread 1 b s = Ok i s1" "i \<notin> H" "tx (insert i H) (Suc k) s1" "keyed s1 i b" "content s1 = content s"
      "kept s s1" "\<forall>j\<in>H. keyed s1 j = keyed s j"
    using tx_read [OF t] by blast
  have H: "insert i H - {i} = H" using r(2) by blast
  have "\<exists>s2 s3. log_write i (set_bdata i d s1) = Ok () s2 \<and> brelse i s2 = Ok () s3 \<and> tx H k s3
         \<and> content s3 = (content s)(b := d) \<and> kept s s2 \<and> kept s s3 \<and> (\<forall>j\<in>H. keyed s3 j = keyed s j)" for d
  proof -
    obtain s2 where w: "log_write i (set_bdata i d s1) = Ok () s2" "tx (insert i H) k s2" "content s2 = (content s)(b := d)"
        "kept s1 s2" "\<forall>j\<in>insert i H. keyed s2 j = keyed s1 j"
      using tx_write [OF r(3) _ r(4), of d] b keptD(2) [OF r(6)] r(5) by auto
    obtain s3 where "brelse i s2 = Ok () s3" "tx H k s3" "content s3 = content s2" "kept s2 s3" "\<forall>j\<in>H. keyed s3 j = keyed s2 j"
      using tx_relse [OF w(2), of i b] w(5) r(4) unfolding H by auto
    moreover have "kept s s2" using kept_trans [OF r(6) w(4)] .
    ultimately show ?thesis using w(1,3,5) r(7) kept_trans
      by (intro exI [of _ s2] exI [of _ s3]) auto
  qed
  moreover obtain s2 where "brelse i s1 = Ok () s2" "tx H (Suc k) s2" "content s2 = content s1" "kept s1 s2" "\<forall>j\<in>H. keyed s2 j = keyed s1 j"
    using tx_relse [OF r(3) _ r(4)] unfolding H by auto
  moreover have "b_data (bufof s1 i) = content s b" using tx_data [OF r(3) _ r(4)] r(5) by simp
  ultimately show ?thesis using r(1,5-7) kept_trans [OF r(6)] by (intro exI [of _ i] exI [of _ s1]) auto
qed

subsection \<open>The free bitmap\<close>

lemma bit_free_iff: "bit_free d bi \<longleftrightarrow> \<not> bit (d ! (bi div 8)) (bi mod 8)"
  by (simp add: bit_free_def bit_mask_def push_bit_of_1 and_exp_eq_0_iff_not_bit)

lemma bit_free_set:
  assumes "bi < 8 * length d"
  shows "bit_free (bit_set bi d) bj \<longleftrightarrow> bit_free d bj \<and> bj \<noteq> bi"
proof -
  have "bi div 8 < length d" using assms by auto
  moreover have "bj = bi \<longleftrightarrow> bj div 8 = bi div 8 \<and> bj mod 8 = bi mod 8" by (metis div_mult_mod_eq)
  ultimately show ?thesis
    by (cases "bj div 8 = bi div 8") (auto simp: bit_free_iff bit_set_def bit_mask_def bit_or_iff push_bit_of_1 bit_exp_iff)
qed

lemma bit_free_clear:
  assumes "bi < 8 * length d"
  shows "bit_free (bit_clear bi d) bj \<longleftrightarrow> bit_free d bj \<or> bj = bi"
proof -
  have "bi div 8 < length d" using assms by auto
  moreover have "bj = bi \<longleftrightarrow> bj div 8 = bi div 8 \<and> bj mod 8 = bi mod 8" by (metis div_mult_mod_eq)
  ultimately show ?thesis
    by (cases "bj div 8 = bi div 8")
      (auto simp: bit_free_iff bit_clear_def bit_mask_def bit_and_iff bit_not_iff push_bit_of_1 bit_exp_iff)
qed

lemma length_bit_set [simp]: "length (bit_set bi d) = length d" "length (bit_clear bi d) = length d"
  by (simp_all add: bit_set_def bit_clear_def)

definition used :: "(uint \<Rightarrow> byte list) \<Rightarrow> superblock \<Rightarrow> uint \<Rightarrow> bool" where
  "used c sb b \<longleftrightarrow> \<not> bit_free (c (BBLOCK b sb)) (unat b mod BPB)"

definition bitmap_blocks :: "superblock \<Rightarrow> uint set" where
  "bitmap_blocks sb = (\<lambda>b. BBLOCK b sb) ` {b. b < sb_size sb}"

definition inode_blocks :: "superblock \<Rightarrow> uint set" where
  "inode_blocks sb = (\<lambda>i. IBLOCK i sb) ` {i. i < sb_ninodes sb}"

text \<open>
  A file system with super block in block 1: the boot block, the super block, the log, the inode blocks and the bitmap are apart
  from each other, inside the file system and marked as used.
\<close>

definition fs_ok :: "'z fstate_scheme \<Rightarrow> bool" where
  "fs_ok s \<longleftrightarrow> (let sb = f_sb s; c = content s; B = bitmap_blocks sb; I = inode_blocks sb in
     sb_size sb \<le> bs_disksize s \<and> sb_of (c 1) = sb
     \<and> (\<forall>b\<in>{0, 1} \<union> log_area s \<union> B \<union> I. b < sb_size sb \<and> used c sb b)
     \<and> B \<inter> ({1} \<union> log_area s \<union> I) = {} \<and> I \<inter> ({1} \<union> log_area s) = {} \<and> 1 \<notin> log_area s
     \<and> (\<forall>b < sb_size sb. length (c b) = BSIZE))"

lemma BBLOCK_eq_iff: "BBLOCK x sb = BBLOCK b sb \<longleftrightarrow> unat x div BPB = unat b div BPB"
proof -
  have "unat (x div of_nat BPB) = unat x div BPB" for x :: uint by (simp add: unat_div BPB_def)
  then show ?thesis by (metis BBLOCK_def add_right_cancel word_unat_eq_iff)
qed

lemma same_block_iff: "x = b \<longleftrightarrow> unat x div BPB = unat b div BPB \<and> unat x mod BPB = unat b mod BPB"
  by (metis div_mult_mod_eq word_unat_eq_iff)

lemma used_set:
  assumes "length (c (BBLOCK b sb)) = BSIZE"
  shows "used (c(BBLOCK b sb := bit_set (unat b mod BPB) (c (BBLOCK b sb)))) sb x \<longleftrightarrow> used c sb x \<or> x = b"
proof -
  have "unat b mod BPB < 8 * length (c (BBLOCK b sb))" using assms by (simp add: BPB_def BSIZE_def)
  then show ?thesis unfolding used_def same_block_iff [of x b] BBLOCK_eq_iff [of x sb b, symmetric] by (auto simp: bit_free_set)
qed

lemma used_clear:
  assumes "length (c (BBLOCK b sb)) = BSIZE"
  shows "used (c(BBLOCK b sb := bit_clear (unat b mod BPB) (c (BBLOCK b sb)))) sb x \<longleftrightarrow> used c sb x \<and> x \<noteq> b"
proof -
  have "unat b mod BPB < 8 * length (c (BBLOCK b sb))" using assms by (simp add: BPB_def BSIZE_def)
  then show ?thesis unfolding used_def same_block_iff [of x b] BBLOCK_eq_iff [of x sb b, symmetric] by (auto simp: bit_free_clear)
qed

lemma used_other: "x < sb_size sb \<Longrightarrow> y \<notin> bitmap_blocks sb \<Longrightarrow> used (c(y := d)) sb x = used c sb x"
  by (auto simp: used_def bitmap_blocks_def)

lemma fs_okD:
  assumes "fs_ok s"
  shows "b < sb_size (f_sb s) \<Longrightarrow> b < bs_disksize s" "sb_of (content s 1) = f_sb s"
    "b < sb_size (f_sb s) \<Longrightarrow> length (content s b) = BSIZE"
    "b < sb_size (f_sb s) \<Longrightarrow> BBLOCK b (f_sb s) < sb_size (f_sb s)"
    "b < sb_size (f_sb s) \<Longrightarrow> BBLOCK b (f_sb s) \<notin> log_area s"
    "b < sb_size (f_sb s) \<Longrightarrow> BBLOCK b (f_sb s) \<in> bitmap_blocks (f_sb s)"
    "b \<in> bitmap_blocks (f_sb s) \<Longrightarrow> used (content s) (f_sb s) b"
    "b \<in> log_area s \<Longrightarrow> used (content s) (f_sb s) b"
    "i < sb_ninodes (f_sb s) \<Longrightarrow> IBLOCK i (f_sb s) < sb_size (f_sb s)"
    "i < sb_ninodes (f_sb s) \<Longrightarrow> IBLOCK i (f_sb s) \<notin> log_area s"
    "i < sb_ninodes (f_sb s) \<Longrightarrow> IBLOCK i (f_sb s) \<notin> bitmap_blocks (f_sb s)"
    "i < sb_ninodes (f_sb s) \<Longrightarrow> IBLOCK i (f_sb s) \<noteq> 1"
    "i < sb_ninodes (f_sb s) \<Longrightarrow> used (content s) (f_sb s) (IBLOCK i (f_sb s))"
    "1 < sb_size (f_sb s)" "used (content s) (f_sb s) 1" "1 \<notin> bitmap_blocks (f_sb s)" "used (content s) (f_sb s) 0"
proof -
  have B: "BBLOCK b (f_sb s) \<in> bitmap_blocks (f_sb s)" if "b < sb_size (f_sb s)" for b
    using that by (simp add: bitmap_blocks_def)
  have I: "IBLOCK i (f_sb s) \<in> inode_blocks (f_sb s)" if "i < sb_ninodes (f_sb s)" for i
    using that by (simp add: inode_blocks_def)
  let ?M = "{0, 1} \<union> log_area s \<union> bitmap_blocks (f_sb s) \<union> inode_blocks (f_sb s)"
  have f: "sb_size (f_sb s) \<le> bs_disksize s" "sb_of (content s 1) = f_sb s" "\<forall>b < sb_size (f_sb s). length (content s b) = BSIZE"
    and m: "\<forall>b\<in>?M. b < sb_size (f_sb s) \<and> used (content s) (f_sb s) b"
    and d: "bitmap_blocks (f_sb s) \<inter> ({1} \<union> log_area s \<union> inode_blocks (f_sb s)) = {}"
      "inode_blocks (f_sb s) \<inter> ({1} \<union> log_area s) = {}"
    using assms unfolding fs_ok_def Let_def by - (elim conjE, assumption)+
  show "b < bs_disksize s" if "b < sb_size (f_sb s)" using that f(1) by (rule order.strict_trans2)
  show "sb_of (content s 1) = f_sb s" by (rule f(2))
  show "length (content s b) = BSIZE" if "b < sb_size (f_sb s)" using f(3) that by simp
  show "BBLOCK b (f_sb s) < sb_size (f_sb s)" "BBLOCK b (f_sb s) \<notin> log_area s" "BBLOCK b (f_sb s) \<in> bitmap_blocks (f_sb s)"
    if "b < sb_size (f_sb s)" using m d(1) B [OF that] by auto
  show "used (content s) (f_sb s) b" if "b \<in> bitmap_blocks (f_sb s)" using m that by simp
  show "used (content s) (f_sb s) b" if "b \<in> log_area s" using m that by simp
  show "IBLOCK i (f_sb s) < sb_size (f_sb s)" "IBLOCK i (f_sb s) \<notin> log_area s" "IBLOCK i (f_sb s) \<notin> bitmap_blocks (f_sb s)"
    "IBLOCK i (f_sb s) \<noteq> 1" "used (content s) (f_sb s) (IBLOCK i (f_sb s))"
    if "i < sb_ninodes (f_sb s)" using m d I [OF that] by auto
  show "1 < sb_size (f_sb s)" "used (content s) (f_sb s) 1" "1 \<notin> bitmap_blocks (f_sb s)" "used (content s) (f_sb s) 0"
    using m d by auto
qed

text \<open>Blocks that are no part of the file system's own structures can be written freely.\<close>

lemma fs_ok_kept:
  assumes "fs_ok s" "kept s s'" "content s' = content s"
  shows "fs_ok s'"
  using assms kept_fs [OF assms(2)] keptD [OF assms(2)] by (simp add: fs_ok_def)

lemma fs_ok_write:
  assumes ok: "fs_ok s" and k: "kept s s'" and c: "content s' = (content s)(b := d)"
    and b: "b \<noteq> 1" "b \<notin> bitmap_blocks (f_sb s)" "length d = BSIZE"
  shows "fs_ok s'" "x < sb_size (f_sb s) \<Longrightarrow> used (content s') (f_sb s') x = used (content s) (f_sb s) x"
proof -
  have u: "used (content s') (f_sb s) x = used (content s) (f_sb s) x" if "x < sb_size (f_sb s)" for x
    unfolding c using that b(2) by (rule used_other)
  then show "used (content s') (f_sb s') x = used (content s) (f_sb s) x" if "x < sb_size (f_sb s)"
    using that kept_fs [OF k] by simp
  show "fs_ok s'" using ok u b(1,3) unfolding fs_ok_def Let_def kept_fs(1) [OF k] keptD [OF k] by (simp add: c)
qed

text \<open>The buffers that are held are those of used blocks outside the bitmap.\<close>

definition apart :: "nat set \<Rightarrow> 'z fstate_scheme \<Rightarrow> bool" where
  "apart H s \<longleftrightarrow> (\<forall>i\<in>H. \<forall>b. keyed s i b \<longrightarrow> used (content s) (f_sb s) b \<and> b \<notin> bitmap_blocks (f_sb s))"

lemma apart_empty [simp]: "apart {} s" by (simp add: apart_def)

lemma apart_kept:
  assumes "apart H s" "kept s s'" "content s' = content s" "\<forall>j\<in>H. keyed s' j = keyed s j"
  shows "apart H s'"
  using assms kept_fs [OF assms(2)] by (simp add: apart_def)

lemma bzero_spec:
  assumes "tx H (Suc k) s" "card H \<le> Suc k" "b < bs_disksize s" "\<forall>i\<in>H. \<not> keyed s i b" "b \<notin> log_area s"
  shows "\<exists>s'. bzero 1 b s = Ok () s' \<and> tx H k s' \<and> content s' = (content s)(b := replicate BSIZE 0) \<and> kept s s'
    \<and> (\<forall>j\<in>H. keyed s' j = keyed s j)"
proof -
  obtain i s1 where r: "bread 1 b s = Ok i s1"
      "\<And>d. \<exists>s2 s3. log_write i (set_bdata i d s1) = Ok () s2 \<and> brelse i s2 = Ok () s3 \<and> tx H k s3
         \<and> content s3 = (content s)(b := d) \<and> kept s s2 \<and> kept s s3 \<and> (\<forall>j\<in>H. keyed s3 j = keyed s j)"
    using tx_put [OF assms] by blast
  from r(2) [of "replicate BSIZE 0"] show ?thesis by (auto simp: bzero_def r(1))
qed

definition allocated :: "nat set \<Rightarrow> nat \<Rightarrow> uint \<Rightarrow> 'z fstate_scheme \<Rightarrow> 'z fstate_scheme \<Rightarrow> bool" where
  "allocated H k b s s' \<longleftrightarrow> b < sb_size (f_sb s) \<and> \<not> used (content s) (f_sb s) b
     \<and> content s' = (content s)(BBLOCK b (f_sb s) := bit_set (unat b mod BPB) (content s (BBLOCK b (f_sb s))),
         b := replicate BSIZE 0)
     \<and> tx H k s' \<and> kept s s' \<and> (\<forall>j\<in>H. keyed s' j = keyed s j)"

lemma allocated_kept:
  assumes "allocated H k b s s'" "kept r s" "content s = content r" "\<forall>j\<in>H. keyed s j = keyed r j"
  shows "allocated H k b r s'"
  using assms kept_fs [OF assms(2)] kept_trans [OF assms(2)] by (simp add: allocated_def)

lemma block_in_group:
  fixes sb :: superblock
  assumes "j * BPB < unat (sb_size sb)"
  defines "N \<equiv> min BPB (unat (sb_size sb) - j * BPB)"
  shows "bi < N \<Longrightarrow> unat (of_nat (j * BPB + bi) :: uint) = j * BPB + bi"
    "bi < N \<Longrightarrow> BBLOCK (of_nat (j * BPB + bi)) sb = BBLOCK (of_nat (j * BPB)) sb"
    "bi < N \<Longrightarrow> of_nat (j * BPB + bi) < sb_size sb"
    "b < sb_size sb \<Longrightarrow> unat b div BPB = j \<Longrightarrow> unat b mod BPB < N \<and> BBLOCK b sb = BBLOCK (of_nat (j * BPB)) sb"
proof -
  have w: "unat (sb_size sb) < 2 ^ 32" by (rule order.strict_trans2 [OF unsigned_less]) simp
  have u: "unat (of_nat (j * BPB + bi) :: uint) = j * BPB + bi" if "bi < N" for bi
  proof -
    have "j * BPB + bi < unat (sb_size sb)" using that unfolding N_def min_less_iff_conj by linarith
    then show ?thesis using w by (intro unat_uint_of_nat) linarith
  qed
  then show "unat (of_nat (j * BPB + bi) :: uint) = j * BPB + bi" if "bi < N" using that .
  have u0: "unat (of_nat (j * BPB) :: uint) = j * BPB"
    using w assms(1) by (intro unat_uint_of_nat) linarith
  show "BBLOCK (of_nat (j * BPB + bi)) sb = BBLOCK (of_nat (j * BPB)) sb" if "bi < N"
    using u [OF that] u0 that unfolding BBLOCK_eq_iff by (simp add: N_def BPB_def)
  show "of_nat (j * BPB + bi) < sb_size sb" if "bi < N" using u [OF that] that unfolding word_less_nat_alt N_def min_less_iff_conj by linarith
  assume b: "b < sb_size sb" "unat b div BPB = j"
  then have "unat b = j * BPB + unat b mod BPB" by (metis div_mult_mod_eq)
  moreover have "unat b < unat (sb_size sb)" using b(1) by (simp add: word_less_nat_alt)
  ultimately show "unat b mod BPB < N \<and> BBLOCK b sb = BBLOCK (of_nat (j * BPB)) sb"
    using u0 b(2) unfolding BBLOCK_eq_iff by (simp add: N_def BPB_def)
qed

lemma balloc_loop_spec:
  assumes "tx H (Suc (Suc k)) s" "card H \<le> Suc k" "fs_ok s" "apart H s" "\<forall>j\<in>set js. j * BPB < unat (sb_size (f_sb s))"
  shows "if \<exists>b < sb_size (f_sb s). unat b div BPB \<in> set js \<and> \<not> used (content s) (f_sb s) b
    then \<exists>b s'. balloc_loop 1 (map (\<lambda>j. j * BPB) js) s = Ok b s' \<and> allocated H k b s s'
    else balloc_loop 1 (map (\<lambda>j. j * BPB) js) s = Panic ''balloc: out of blocks''"
  using assms
proof (induction js arbitrary: s)
  case Nil
  then show ?case by simp
next
  case (Cons j js)
  let ?sb = "f_sb s" and ?c = "content s" and ?j = "j * BPB"
  let ?B = "BBLOCK (of_nat ?j) ?sb" and ?N = "min BPB (unat (sb_size ?sb) - ?j)"
  have j: "j * BPB < unat (sb_size ?sb)" using Cons.prems(5) by simp
  note grp = block_in_group [OF j]
  have "0 < ?N" using j by (simp add: BPB_def)
  then have B: "?B < sb_size ?sb" "?B \<notin> log_area s" "?B \<in> bitmap_blocks ?sb" "length (?c ?B) = BSIZE"
    using fs_okD(3-6) [OF Cons.prems(3)] grp(3) [of 0] by simp_all
  then have nB: "\<forall>i\<in>H. \<not> keyed s i ?B" using Cons.prems(4) by (auto simp: apart_def)
  obtain i s1 where r: "bread 1 ?B s = Ok i s1" "b_data (bufof s1 i) = ?c ?B" "kept s s1"
      and w: "\<And>d. \<exists>s2 s3. log_write i (set_bdata i d s1) = Ok () s2 \<and> brelse i s2 = Ok () s3 \<and> tx H (Suc k) s3
         \<and> content s3 = ?c(?B := d) \<and> kept s s2 \<and> kept s s3 \<and> (\<forall>j\<in>H. keyed s3 j = keyed s j)"
      and n: "\<exists>s2. brelse i s1 = Ok () s2 \<and> tx H (Suc (Suc k)) s2 \<and> content s2 = ?c \<and> kept s s2 \<and> (\<forall>j\<in>H. keyed s2 j = keyed s j)"
    using tx_put [OF Cons.prems(1) _ fs_okD(1) [OF Cons.prems(3) B(1)] nB B(2)] Cons.prems(2) by auto
  have sb: "f_sb s1 = ?sb" by (rule kept_fs [OF r(3)])
  show ?case
  proof (cases "find (bit_free (?c ?B)) [0..<?N]")
    case None
    then have free: "unat b div BPB = j \<Longrightarrow> b < sb_size ?sb \<Longrightarrow> used ?c ?sb b" for b
      using grp(4) [of b] by (auto simp: find_None_iff used_def)
    obtain s2 where s2: "brelse i s1 = Ok () s2" "tx H (Suc (Suc k)) s2" "content s2 = ?c" "kept s s2" "\<forall>j\<in>H. keyed s2 j = keyed s j"
      using n by blast
    have e: "balloc_loop 1 (map (\<lambda>j. j * BPB) (j # js)) s = balloc_loop 1 (map (\<lambda>j. j * BPB) js) s2"
      using None by (simp add: r s2(1) sb Let_def del: of_nat_mult)
    have "\<forall>j\<in>set js. j * BPB < unat (sb_size (f_sb s2))" using Cons.prems(5) kept_fs [OF s2(4)] by simp
    note IH = Cons.IH [OF s2(2) Cons.prems(2) fs_ok_kept [OF Cons.prems(3) s2(4,3)]
      apart_kept [OF Cons.prems(4) s2(4,3,5)] this]
    have ex: "(\<exists>b < sb_size ?sb. unat b div BPB \<in> set (j # js) \<and> \<not> used ?c ?sb b) \<longleftrightarrow>
        (\<exists>b < sb_size ?sb. unat b div BPB \<in> set js \<and> \<not> used ?c ?sb b)" using free by auto
    show ?thesis
      using IH allocated_kept [OF _ s2(4,3,5)] unfolding e ex kept_fs(1) [OF s2(4)] s2(3) by (auto split: if_splits)
  next
    case (Some bi)
    then have bi: "bi < ?N" "bit_free (?c ?B) bi" by (auto simp: find_Some_iff)
    let ?b = "of_nat (?j + bi) :: uint"
    have b: "unat ?b = ?j + bi" "BBLOCK ?b ?sb = ?B" "?b < sb_size ?sb" using grp(1-3) [OF bi(1)] .
    have m: "unat ?b mod BPB = bi" "unat ?b div BPB = j" unfolding b(1) using bi(1) by (simp_all add: BPB_def)
    then have nu: "\<not> used ?c ?sb ?b" using bi(2) b(2) by (simp add: used_def)
    obtain s2 s3 where s3: "log_write i (set_bdata i (bit_set bi (?c ?B)) s1) = Ok () s2" "brelse i s2 = Ok () s3" "tx H (Suc k) s3"
        "content s3 = ?c(?B := bit_set bi (?c ?B))" "kept s s3" "\<forall>j\<in>H. keyed s3 j = keyed s j"
      using w by blast
    have "?b \<notin> log_area s" using nu fs_okD(8) [OF Cons.prems(3)] by blast
    moreover have "\<forall>i\<in>H. \<not> keyed s i ?b" using nu Cons.prems(4) by (auto simp: apart_def)
    ultimately obtain s4 where s4: "bzero 1 ?b s3 = Ok () s4" "tx H k s4" "content s4 = (content s3)(?b := replicate BSIZE 0)"
        "kept s3 s4" "\<forall>j\<in>H. keyed s4 j = keyed s3 j"
      using bzero_spec [OF s3(3) Cons.prems(2), of ?b] fs_okD(1) [OF Cons.prems(3) b(3)] keptD [OF s3(5)] s3(6) by auto
    have "balloc_loop 1 (map (\<lambda>j. j * BPB) (j # js)) s = Ok ?b s4"
      using Some s3(1,2) s4(1) by (simp add: r sb Let_def del: of_nat_add of_nat_mult)
    moreover have "allocated H k ?b s s4"
      using b(3) nu s4 s3(4,6) kept_trans [OF s3(5) s4(4)] unfolding allocated_def b(2) m(1) by auto
    ultimately show ?thesis using b(3) nu m(2) by auto
  qed
qed

lemma balloc_spec:
  assumes "tx H (Suc (Suc k)) s" "card H \<le> Suc k" "fs_ok s" "apart H s"
  shows "if \<exists>b < sb_size (f_sb s). \<not> used (content s) (f_sb s) b
    then \<exists>b s'. balloc 1 s = Ok b s' \<and> allocated H k b s s'
    else balloc 1 s = Panic ''balloc: out of blocks''"
proof -
  let ?n = "unat (sb_size (f_sb s))"
  let ?js = "[0..<(?n + BPB - 1) div BPB]"
  have "\<forall>j\<in>set ?js. j * BPB < ?n" by (auto simp: BPB_def)
  moreover have "unat b div BPB \<in> set ?js" if "b < sb_size (f_sb s)" for b
    using that by (auto simp: BPB_def word_less_nat_alt)
  ultimately show ?thesis using balloc_loop_spec [OF assms, of ?js] unfolding balloc_def by (auto split: if_splits)
qed

lemma allocated_ok:
  assumes ok: "fs_ok s" and a: "allocated H k b s s'"
  shows "fs_ok s'" "x < sb_size (f_sb s) \<Longrightarrow> used (content s') (f_sb s) x \<longleftrightarrow> used (content s) (f_sb s) x \<or> x = b"
    "b \<notin> bitmap_blocks (f_sb s)" "b \<noteq> 1" "b \<noteq> 0"
proof -
  let ?sb = "f_sb s" and ?c = "content s" and ?B = "BBLOCK b (f_sb s)"
  have b: "b < sb_size ?sb" "\<not> used ?c ?sb b" "kept s s'"
      "content s' = ?c(?B := bit_set (unat b mod BPB) (?c ?B), b := replicate BSIZE 0)"
    using a by (simp_all add: allocated_def)
  show nb: "b \<notin> bitmap_blocks ?sb" "b \<noteq> 1" "b \<noteq> 0" using b(2) fs_okD(7,15,17) [OF ok] by blast+
  note D = fs_okD [OF ok]
  have u: "used (content s') ?sb x \<longleftrightarrow> used ?c ?sb x \<or> x = b" if "x < sb_size ?sb" for x
    unfolding b(4) used_other [OF that nb(1)] by (rule used_set) (rule D(3) [OF D(4) [OF b(1)]])
  then show "x < sb_size ?sb \<Longrightarrow> used (content s') ?sb x \<longleftrightarrow> used ?c ?sb x \<or> x = b" .
  have "?B \<noteq> 1" using D(6) [OF b(1)] D(16) by metis
  then have c1: "content s' 1 = ?c 1" using b(4) nb(2) by simp
  have l: "length (content s' x) = BSIZE" if "x < sb_size ?sb" for x
    using D(3) [OF that] D(3) [OF D(4) [OF b(1)]] by (simp add: b(4))
  show "fs_ok s'"
    using ok u l unfolding fs_ok_def Let_def kept_fs(1) [OF b(3)] keptD [OF b(3)] c1 by simp
qed

lemma readsb_tx:
  assumes "tx H k s" "card H \<le> k" "1 < bs_disksize s" "\<forall>i\<in>H. \<not> keyed s i 1"
  shows "\<exists>s'. readsb 1 s = Ok (sb_of (content s 1)) s' \<and> tx H k s' \<and> content s' = content s \<and> kept s s'
    \<and> (\<forall>j\<in>H. keyed s' j = keyed s j)"
  using tx_get [OF assms] by (auto simp: readsb_def Let_def)

lemma bfree_spec:
  assumes t: "tx H (Suc k) s" "card H \<le> Suc k" and ok: "fs_ok s" "apart H s" "\<forall>i\<in>H. \<not> keyed s i 1"
    and b: "b < sb_size (f_sb s)"
  shows "if used (content s) (f_sb s) b then \<exists>s'. bfree 1 b s = Ok () s' \<and> tx H k s' \<and> kept s s'
      \<and> content s' = (content s)(BBLOCK b (f_sb s) := bit_clear (unat b mod BPB) (content s (BBLOCK b (f_sb s))))
      \<and> (\<forall>j\<in>H. keyed s' j = keyed s j)
    else bfree 1 b s = Panic ''freeing free block''"
proof -
  let ?B = "BBLOCK b (f_sb s)"
  note D = fs_okD [OF ok(1)]
  obtain s1 where s1: "readsb 1 s = Ok (f_sb s) s1" "tx H (Suc k) s1" "content s1 = content s" "kept s s1"
      "\<forall>j\<in>H. keyed s1 j = keyed s j"
    using readsb_tx [OF t D(1) [OF D(14)] ok(3)] D(2) by auto
  have e: "s1\<lparr>f_sb := f_sb s\<rparr> = s1" using kept_fs(1) [OF s1(4)] by simp
  have "?B < bs_disksize s1" "?B \<notin> log_area s1" using D(1) [OF D(4) [OF b]] D(5) [OF b] keptD [OF s1(4)] by simp_all
  moreover have "\<forall>i\<in>H. \<not> keyed s1 i ?B" using ok(2) s1(5) D(6) [OF b] by (auto simp: apart_def)
  ultimately obtain i s2 where r: "bread 1 ?B s1 = Ok i s2" "b_data (bufof s2 i) = content s ?B" "kept s1 s2"
      and w: "\<And>d. \<exists>s3 s4. log_write i (set_bdata i d s2) = Ok () s3 \<and> brelse i s3 = Ok () s4 \<and> tx H k s4
         \<and> content s4 = (content s)(?B := d) \<and> kept s1 s3 \<and> kept s1 s4 \<and> (\<forall>j\<in>H. keyed s4 j = keyed s1 j)"
    using tx_put [OF s1(2) t(2), of ?B] s1(3) by auto
  obtain s3 s4 where "log_write i (set_bdata i (bit_clear (unat b mod BPB) (content s ?B)) s2) = Ok () s3"
      "brelse i s3 = Ok () s4" "tx H k s4" "content s4 = (content s)(?B := bit_clear (unat b mod BPB) (content s ?B))"
      "kept s1 s4" "\<forall>j\<in>H. keyed s4 j = keyed s1 j"
    using w by blast
  then show ?thesis
    using s1(4,5) kept_trans [OF s1(4)] kept_fs(1) [OF s1(4)] by (simp add: bfree_def s1(1) e r(1,2) Let_def used_def)
qed

definition used_blocks :: "'z fstate_scheme \<Rightarrow> uint set" where
  "used_blocks s = {b. b < sb_size (f_sb s) \<and> used (content s) (f_sb s) b}"

text \<open>Claim C39. The bitmap implements a set of used blocks. In a transaction with room in the log, \<^verbatim>\<open>balloc\<close> returns a
  block that was not used, marks it as used and fills it with zeros; when all blocks are used it panics.
  \<^verbatim>\<open>bfree\<close> takes a used block out of the set and panics on a block that is not in use. Neither changes any
  other block outside the bitmap.\<close>

theorem block_allocator:
  assumes t: "tx {} (Suc (Suc k)) s" and ok: "fs_ok s"
  shows "(used_blocks s \<noteq> {b. b < sb_size (f_sb s)} \<longrightarrow>
      (\<exists>b s'. balloc 1 s = Ok b s' \<and> b < sb_size (f_sb s) \<and> b \<notin> used_blocks s \<and> used_blocks s' = insert b (used_blocks s)
         \<and> content s' b = replicate BSIZE 0 \<and> (\<forall>x. x \<noteq> b \<and> x \<notin> bitmap_blocks (f_sb s) \<longrightarrow> content s' x = content s x)
         \<and> tx {} k s' \<and> fs_ok s'))
    \<and> (used_blocks s = {b. b < sb_size (f_sb s)} \<longrightarrow> balloc 1 s = Panic ''balloc: out of blocks'')
    \<and> (\<forall>b\<in>used_blocks s. \<exists>s'. bfree 1 b s = Ok () s' \<and> used_blocks s' = used_blocks s - {b}
         \<and> (\<forall>x. x \<notin> bitmap_blocks (f_sb s) \<longrightarrow> content s' x = content s x) \<and> tx {} (Suc k) s')
    \<and> (\<forall>b < sb_size (f_sb s). b \<notin> used_blocks s \<longrightarrow> bfree 1 b s = Panic ''freeing free block'')"
proof (intro conjI impI ballI allI)
  note A = balloc_spec [OF t _ ok] and F = bfree_spec [OF t _ ok] and D = fs_okD [OF ok]
  assume "used_blocks s \<noteq> {b. b < sb_size (f_sb s)}"
  then have "\<exists>b < sb_size (f_sb s). \<not> used (content s) (f_sb s) b" by (auto simp: used_blocks_def)
  then obtain b s' where b: "balloc 1 s = Ok b s'" "allocated {} k b s s'" using A by (auto split: if_splits)
  note O = allocated_ok [OF ok b(2)]
  have k: "f_sb s' = f_sb s" "b < sb_size (f_sb s)" using b(2) kept_fs by (auto simp: allocated_def)
  have "used_blocks s' = insert b (used_blocks s)" using O(2) k by (auto simp: used_blocks_def)
  then show "\<exists>b s'. balloc 1 s = Ok b s' \<and> b < sb_size (f_sb s) \<and> b \<notin> used_blocks s \<and> used_blocks s' = insert b (used_blocks s)
         \<and> content s' b = replicate BSIZE 0 \<and> (\<forall>x. x \<noteq> b \<and> x \<notin> bitmap_blocks (f_sb s) \<longrightarrow> content s' x = content s x)
         \<and> tx {} k s' \<and> fs_ok s'"
    using b O(1) D(6) [OF k(2)] by (intro exI [of _ b] exI [of _ s']) (auto simp: allocated_def used_blocks_def)
next
  assume "used_blocks s = {b. b < sb_size (f_sb s)}"
  then show "balloc 1 s = Panic ''balloc: out of blocks''"
    using balloc_spec [OF t _ ok] by (auto simp: used_blocks_def split: if_splits)
next
  note F = bfree_spec [OF t _ ok] and D = fs_okD [OF ok]
  fix b
  assume "b \<in> used_blocks s"
  then have b: "b < sb_size (f_sb s)" "used (content s) (f_sb s) b" by (simp_all add: used_blocks_def)
  then obtain s' where s': "bfree 1 b s = Ok () s'" "tx {} (Suc k) s'" "kept s s'"
      "content s' = (content s)(BBLOCK b (f_sb s) := bit_clear (unat b mod BPB) (content s (BBLOCK b (f_sb s))))"
    using F [of b] by (auto split: if_splits)
  have "used (content s') (f_sb s) x \<longleftrightarrow> used (content s) (f_sb s) x \<and> x \<noteq> b" for x
    unfolding s'(4) by (rule used_clear) (rule D(3) [OF D(4) [OF b(1)]])
  then have "used_blocks s' = used_blocks s - {b}" using kept_fs [OF s'(3)] by (auto simp: used_blocks_def)
  then show "\<exists>s'. bfree 1 b s = Ok () s' \<and> used_blocks s' = used_blocks s - {b}
         \<and> (\<forall>x. x \<notin> bitmap_blocks (f_sb s) \<longrightarrow> content s' x = content s x) \<and> tx {} (Suc k) s'"
    using s' D(6) [OF b(1)] by (intro exI [of _ s']) auto
next
  fix b
  assume "b < sb_size (f_sb s)" "b \<notin> used_blocks s"
  then show "bfree 1 b s = Panic ''freeing free block''"
    using bfree_spec [OF t _ ok, of b] by (auto simp: used_blocks_def split: if_splits)
qed

text \<open>A disk of 1000 blocks as \<^verbatim>\<open>mkfs\<close> lays it out: 2 to 31 the log, 32 to 57 the inodes, 58 the bitmap.\<close>

definition demo_sb :: superblock where
  "demo_sb = \<lparr>sb_size = 1000, sb_nblocks = 941, sb_ninodes = 200, sb_nlog = 30, sb_logstart = 2, sb_inodestart = 32,
     sb_bmapstart = 58\<rparr>"

definition demo_bitmap :: "byte list" where
  "demo_bitmap = replicate 7 255 @ [7] @ replicate 504 0"

definition demo_fsdisk :: "uint \<Rightarrow> byte list" where
  "demo_fsdisk b =
     (if b = 1 then concat (map le_bytes [1000, 941, 200, 30, 2, 32, 58]) @ replicate 484 0
      else if b = 58 then demo_bitmap else replicate 512 0)"

definition demo_inode :: inode where
  "demo_inode = \<lparr>i_dev = 1, i_inum = 5, i_ref = 1, i_lock = \<lparr>sl_locked = True, sl_pid = 3\<rparr>, i_valid = True, i_type = T_FILE,
     i_major = 0, i_minor = 0, i_nlink = 1, i_size = 0, i_addrs = replicate 13 0\<rparr>"

definition demo_fs :: fstate where
  "demo_fs = binit \<lparr>bs_buf = replicate (Suc NBUF) zero_buf, bs_disk = demo_fsdisk, bs_disksize = 1000, bs_pid = 3,
     bs_woken = [], bs_writes = [], l_start = 2, l_size = 30, l_outstanding = 1, l_committing = False, l_dev = 1,
     l_n = 0, l_block = replicate LOGSIZE 0, f_sb = demo_sb, f_inode = [demo_inode]\<rparr>"

lemma fs_fields:
  fixes s :: "'z fstate_scheme"
  assumes "bstate.more s' = bstate.more s"
  shows "f_sb s' = f_sb s" "f_inode s' = f_inode s"
  using assms by (cases s; cases s'; simp)+

lemma demo_fs_cache:
  "cache_ok demo_fs {}" "content demo_fs = demo_fsdisk" "bs_disk demo_fs = demo_fsdisk" "dirty_blocks demo_fs = {}"
  "bs_disksize demo_fs = 1000"
  unfolding demo_fs_def by (rule binit_ok | simp add: binit_ok del: replicate_Suc)+

lemma demo_fs_fields:
  "l_start demo_fs = 2" "l_size demo_fs = 30" "l_outstanding demo_fs = 1" "l_dev demo_fs = 1" "l_n demo_fs = 0"
  "l_block demo_fs = replicate LOGSIZE 0" "f_sb demo_fs = demo_sb" "f_inode demo_fs = [demo_inode]"
  unfolding demo_fs_def log_fields [OF more_binit] fs_fields [OF more_binit] by simp_all

lemma demo_log_area: "log_area demo_fs = {b. 2 \<le> b \<and> b < 32}"
proof -
  have u: "unat (2 + of_nat t :: uint) = 2 + t" if "t < 30" for t
    using that by (simp add: unat_word_ariths unsigned_of_nat take_bit_nat_eq_self)
  have "b \<in> (\<lambda>t. 2 + of_nat t) ` {..<30}" if b: "2 \<le> b" "b < 32" for b :: uint
  proof
    have "unat b - 2 < 30" "2 \<le> unat b" using b by (simp_all add: word_le_nat_alt word_less_nat_alt)
    then show "b = 2 + of_nat (unat b - 2)" "unat b - 2 \<in> {..<30}" using u [of "unat b - 2"] by (simp_all add: word_unat_eq_iff)
  qed
  then show ?thesis
    using u by (auto simp: log_area_def log_blk_def demo_fs_fields LOGSIZE_def word_le_nat_alt word_less_nat_alt)
qed

lemma demo_fs_tx: "tx {} 29 demo_fs"
proof -
  have "get_word 0 (replicate 512 0) = 0" by (simp add: get_word_def of_le_def)
  moreover have "log_blk demo_fs t < 1000" if "t < LOGSIZE" for t
  proof -
    have "log_blk demo_fs t \<in> log_area demo_fs" using that by (simp add: log_area_def)
    then show ?thesis unfolding demo_log_area by (simp add: word_less_nat_alt)
  qed
  ultimately have "log_inv demo_fs"
    by (simp add: log_inv_def demo_fs_cache demo_fs_fields logged_def demo_fsdisk_def BSIZE_def LOGSIZE_def)
  then show ?thesis
    using demo_fs_cache(1) by (intro tx_start) (simp_all add: demo_fs_fields LOGSIZE_def)
qed

lemma demo_sb_simps [simp]:
  "sb_size demo_sb = 1000" "sb_ninodes demo_sb = 200" "sb_bmapstart demo_sb = 58" "sb_inodestart demo_sb = 32"
  by (simp_all add: demo_sb_def)

lemma demo_BBLOCK: "b < 1000 \<Longrightarrow> BBLOCK b demo_sb = 58"
proof -
  assume "b < (1000 :: uint)"
  then have "b div 4096 = 0" by (simp add: word_unat_eq_iff unat_div word_less_nat_alt)
  then show ?thesis by (simp add: BBLOCK_def BPB_def)
qed

lemma demo_IBLOCK: "i < 200 \<Longrightarrow> 32 \<le> IBLOCK i demo_sb \<and> IBLOCK i demo_sb < 57"
proof -
  assume "i < (200 :: uint)"
  then have "unat (i div 8) < 25" by (simp add: unat_div word_less_nat_alt)
  then show ?thesis by (simp add: IBLOCK_def IPB_def word_le_nat_alt word_less_nat_alt unat_word_ariths)
qed

lemma demo_bitmap_used: "n < 1000 \<Longrightarrow> bit_free demo_bitmap n \<longleftrightarrow> 59 \<le> n"
proof -
  have "\<forall>n\<in>set [0..<64]. bit_free demo_bitmap n \<longleftrightarrow> 59 \<le> n" by code_simp
  moreover have "bit_free demo_bitmap n" if "64 \<le> n" "n < 1000"
  proof -
    have "8 \<le> n div 8" "n div 8 < 512" using that by auto
    then show ?thesis by (simp add: bit_free_iff demo_bitmap_def nth_append nth_Cons')
  qed
  ultimately show "n < 1000 \<Longrightarrow> ?thesis" by (cases "n < 64") simp_all
qed

lemma demo_used: "b < 1000 \<Longrightarrow> used demo_fsdisk demo_sb b \<longleftrightarrow> b < 59"
proof -
  assume b: "b < (1000 :: uint)"
  then have "unat b < 1000" by (simp add: word_less_nat_alt)
  then show ?thesis
    using demo_bitmap_used [of "unat b"] by (simp add: used_def demo_BBLOCK [OF b] demo_fsdisk_def BPB_def word_less_nat_alt not_le)
qed

lemma demo_super: "sb_of (demo_fsdisk 1) = demo_sb"
  by code_simp

lemma demo_fs_ok: "fs_ok demo_fs"
proof -
  have "bitmap_blocks demo_sb = (\<lambda>b. 58) ` {b. b < (1000 :: uint)}"
    unfolding bitmap_blocks_def by (rule image_cong) (simp_all add: demo_BBLOCK)
  moreover have "(0 :: uint) \<in> {b. b < 1000}" by simp
  ultimately have B: "bitmap_blocks demo_sb = {58}" by (metis image_constant)
  have I: "inode_blocks demo_sb \<subseteq> {b. 32 \<le> b \<and> b < 57}" using demo_IBLOCK by (auto simp: inode_blocks_def)
  have u: "b < 1000 \<and> used demo_fsdisk demo_sb b" if "b < 59" for b
    using that demo_used [of b] by (simp add: word_less_nat_alt)
  have M: "b < 59" if "b \<in> {0, 1} \<union> log_area demo_fs \<union> bitmap_blocks demo_sb \<union> inode_blocks demo_sb" for b
    using that I by (auto simp: demo_log_area B word_less_nat_alt word_le_nat_alt)
  have l: "length (demo_fsdisk b) = BSIZE" for b
    by (simp add: demo_fsdisk_def demo_bitmap_def BSIZE_def)
  show ?thesis
    unfolding fs_ok_def Let_def demo_fs_fields demo_fs_cache B
    using u M I l demo_super by (auto simp: B demo_log_area word_less_nat_alt word_le_nat_alt)
qed

theorem block_allocator_witness:
  "(\<exists>b s'. balloc 1 demo_fs = Ok b s' \<and> 59 \<le> b \<and> used_blocks s' = insert b (used_blocks demo_fs)
      \<and> content s' b = replicate BSIZE 0)
    \<and> bfree 1 60 demo_fs = Panic ''freeing free block''
    \<and> (\<exists>s'. bfree 1 58 demo_fs = Ok () s' \<and> used_blocks s' = used_blocks demo_fs - {58})"
proof -
  have t: "tx {} (Suc (Suc 27)) demo_fs" using demo_fs_tx by simp
  have u: "used_blocks demo_fs = {b. b < 59}"
    using demo_used by (auto simp: used_blocks_def demo_fs_fields demo_fs_cache word_less_nat_alt)
  moreover have "(999 :: uint) < 1000" "\<not> (999 :: uint) < 59" by simp_all
  ultimately have "used_blocks demo_fs \<noteq> {b. b < sb_size (f_sb demo_fs)}"
    by (metis (mono_tags, lifting) demo_fs_fields(7) demo_sb_simps(1) mem_Collect_eq)
  moreover have "58 \<in> used_blocks demo_fs" "60 \<notin> used_blocks demo_fs" "(60 :: uint) < sb_size (f_sb demo_fs)"
    by (simp_all add: u demo_fs_fields)
  moreover have "b \<notin> used_blocks demo_fs \<Longrightarrow> 59 \<le> b" for b by (simp add: u)
  ultimately show ?thesis using block_allocator [OF t demo_fs_ok] by meson
qed

end
