(* ===== verification/Fs_Inode.thy ===== *)
theory Fs_Inode
  imports Fs_Tx
begin

text \<open>
  Inodes: the bytes of an inode on disk, storing an inode with \<^verbatim>\<open>iupdate\<close> and loading it with \<^verbatim>\<open>ilock\<close>, and
  the invariant of the inode cache.
\<close>

subsection \<open>Inodes on disk\<close>

lemma word_of_concat:
  "k < length ws \<Longrightarrow> take 4 (drop (4 * k) (concat (map le_bytes ws))) = le_bytes (ws ! k)"
proof (induction ws arbitrary: k)
  case (Cons w ws)
  then show ?case by (cases k) simp_all
qed simp

lemma length_dinode_bytes [simp]: "length (dinode_bytes di) = 12 + 4 * length (d_addrs di)"
proof -
  have "length (concat (map le_bytes ws)) = 4 * length ws" for ws by (induction ws) simp_all
  then show ?thesis by (simp add: dinode_bytes_def)
qed

lemma dinode_of_bytes:
  assumes "length (d_addrs di) = Suc NDIRECT"
  shows "dinode_of (dinode_bytes di) = di"
proof -
  let ?p = "le16_bytes (d_type di) @ le16_bytes (d_major di) @ le16_bytes (d_minor di) @ le16_bytes (d_nlink di) @ le_bytes (d_size di)"
  let ?a = "concat (map le_bytes (d_addrs di))"
  have d: "dinode_bytes di = ?p @ ?a" "length ?p = 12" by (simp_all add: dinode_bytes_def)
  have "get_bytes (12 + 4 * i) 4 (dinode_bytes di) = le_bytes (d_addrs di ! i)" if "i < Suc NDIRECT" for i
    unfolding d(1) get_bytes_def using d(2) word_of_concat [of i "d_addrs di"] that assms by simp
  then have "map (\<lambda>i. of_le (get_bytes (12 + 4 * i) 4 (dinode_bytes di))) [0..<Suc NDIRECT] = map ((!) (d_addrs di)) [0..<Suc NDIRECT]"
    by (intro map_cong refl) (simp del: upt_Suc)
  also have "\<dots> = d_addrs di" using assms map_nth [of "d_addrs di"] by simp
  finally show ?thesis by (simp add: dinode_of_def get_bytes_def dinode_bytes_def numeral_eq_Suc del: upt_Suc)
qed

lemma get_put_bytes:
  assumes "off + length bs \<le> length d"
  shows "get_bytes off (length bs) (put_bytes off bs d) = bs" "length (put_bytes off bs d) = length d"
    "o' + n \<le> off \<or> off + length bs \<le> o' \<Longrightarrow> get_bytes o' n (put_bytes off bs d) = get_bytes o' n d"
proof -
  show "get_bytes off (length bs) (put_bytes off bs d) = bs" "length (put_bytes off bs d) = length d"
    using assms by (simp_all add: get_bytes_def put_bytes_def)
  have e: "(put_bytes off bs d) ! i = (if off \<le> i \<and> i < off + length bs then bs ! (i - off) else d ! i)" if "i < length d" for i
    using assms that by (auto simp: put_bytes_def nth_append)
  have l: "length (put_bytes off bs d) = length d" using assms by (simp add: put_bytes_def)
  assume "o' + n \<le> off \<or> off + length bs \<le> o'"
  then show "get_bytes o' n (put_bytes off bs d) = get_bytes o' n d"
    by (intro nth_equalityI) (auto simp: get_bytes_def l e)
qed

definition disk_inode :: "'z fstate_scheme \<Rightarrow> uint \<Rightarrow> dinode" where
  "disk_inode s n = get_dinode (unat n mod IPB) (content s (IBLOCK n (f_sb s)))"

lemma get_put_dinode:
  assumes "length d = BSIZE" "length (d_addrs di) = Suc NDIRECT" "k < IPB" "j < IPB"
  shows "get_dinode j (put_dinode k di d) = (if j = k then di else get_dinode j d)" "length (put_dinode k di d) = BSIZE"
proof -
  have l: "length (dinode_bytes di) = 64" using assms(2) by (simp add: NDIRECT_def)
  have o: "64 * k + length (dinode_bytes di) \<le> length d" using assms l by (simp add: IPB_def BSIZE_def)
  note P = get_put_bytes [OF o]
  show "length (put_dinode k di d) = BSIZE" using P(2) assms(1) by (simp add: put_dinode_def)
  show "get_dinode j (put_dinode k di d) = (if j = k then di else get_dinode j d)"
  proof (cases "j = k")
    case True
    then show ?thesis using P(1) [unfolded l] dinode_of_bytes [OF assms(2)] by (simp add: get_dinode_def put_dinode_def)
  next
    case False
    then have "64 * j + 64 \<le> 64 * k \<or> 64 * k + length (dinode_bytes di) \<le> 64 * j" unfolding l by linarith
    then show ?thesis using P(3) False by (simp add: get_dinode_def put_dinode_def)
  qed
qed

lemma IBLOCK_eq_iff: "IBLOCK x sb = IBLOCK b sb \<longleftrightarrow> unat x div IPB = unat b div IPB"
proof -
  have "unat (x div of_nat IPB) = unat x div IPB" for x :: uint by (simp add: unat_div IPB_def)
  then show ?thesis by (metis IBLOCK_def add_right_cancel word_unat_eq_iff)
qed

lemma same_inode_iff: "x = b \<longleftrightarrow> unat x div IPB = unat b div IPB \<and> unat x mod IPB = unat b mod IPB"
  by (metis div_mult_mod_eq word_unat_eq_iff)

lemma upd_inode_view [simp]:
  "content (upd_inode ip f s) = content s"
  "cache_ok (upd_inode ip f s) H = cache_ok s H" "dirty_blocks (upd_inode ip f s) = dirty_blocks s"
  "keyed (upd_inode ip f s) = keyed s" "log_area (upd_inode ip f s) = log_area s" "f_sb (upd_inode ip f s) = f_sb s"
  "bs_disksize (upd_inode ip f s) = bs_disksize s" "bs_pid (upd_inode ip f s) = bs_pid s"
  by (simp_all add: upd_inode_def cache_view_defs log_area_def log_blk_def fun_eq_iff cong: option.case_cong)

lemma upd_inode_tx [simp]: "tx H k (upd_inode ip f s) = tx H k s" "fs_ok (upd_inode ip f s) = fs_ok s"
proof -
  have "log_inv (upd_inode ip f s) = log_inv s" "synced (upd_inode ip f s) = synced s"
    by (simp_all add: log_inv_def synced_def log_blk_def logged_def) (simp_all add: upd_inode_def)
  then show "tx H k (upd_inode ip f s) = tx H k s" by (simp add: tx_def) (simp add: upd_inode_def)
  show "fs_ok (upd_inode ip f s) = fs_ok s" by (simp add: fs_ok_def Let_def)
qed

text \<open>An inode of the disk, with a block number for each direct block and the indirect one.\<close>

definition inode_ok :: "'z fstate_scheme \<Rightarrow> nat \<Rightarrow> bool" where
  "inode_ok s ip \<longleftrightarrow> ip < length (f_inode s) \<and> i_dev (inodeof s ip) = 1 \<and> i_inum (inodeof s ip) < sb_ninodes (f_sb s)
     \<and> length (i_addrs (inodeof s ip)) = Suc NDIRECT"

lemma iupdate_spec:
  assumes t: "tx H (Suc k) s" "card H \<le> Suc k" and ok: "fs_ok s" "inode_ok s ip"
    and H: "\<forall>i\<in>H. \<not> keyed s i (IBLOCK (i_inum (inodeof s ip)) (f_sb s))"
  shows "\<exists>s'. iupdate ip s = Ok () s' \<and> tx H k s' \<and> kept s s' \<and> (\<forall>j\<in>H. keyed s' j = keyed s j)
    \<and> content s' = (content s)(IBLOCK (i_inum (inodeof s ip)) (f_sb s) :=
        put_dinode (unat (i_inum (inodeof s ip)) mod IPB) (dinode_fields (inodeof s ip))
          (content s (IBLOCK (i_inum (inodeof s ip)) (f_sb s))))"
proof -
  let ?B = "IBLOCK (i_inum (inodeof s ip)) (f_sb s)"
  note D = fs_okD [OF ok(1)]
  have B: "?B < bs_disksize s" "?B \<notin> log_area s" using ok(2) D(1) [OF D(9)] D(10) by (simp_all add: inode_ok_def)
  obtain i s1 where r: "bread 1 ?B s = Ok i s1" "b_data (bufof s1 i) = content s ?B" "kept s s1"
      and w: "\<And>d. \<exists>s2 s3. log_write i (set_bdata i d s1) = Ok () s2 \<and> brelse i s2 = Ok () s3 \<and> tx H k s3
         \<and> content s3 = (content s)(?B := d) \<and> kept s s2 \<and> kept s s3 \<and> (\<forall>j\<in>H. keyed s3 j = keyed s j)"
    using tx_put [OF t B(1) H B(2)] by blast
  show ?thesis
    using w [of "put_dinode (unat (i_inum (inodeof s ip)) mod IPB) (dinode_fields (inodeof s ip)) (content s ?B)"]
      ok(2) kept_fs(2) [OF r(3)] by (auto simp: iupdate_def Let_def inode_ok_def r)
qed

lemma iupdate_stores:
  assumes t: "tx {} (Suc k) s" and ok: "fs_ok s" "inode_ok s ip"
  shows "\<exists>s'. iupdate ip s = Ok () s' \<and> tx {} k s' \<and> fs_ok s' \<and> kept s s' \<and> used_blocks s' = used_blocks s
    \<and> (\<forall>n < sb_ninodes (f_sb s). disk_inode s' n =
        (if n = i_inum (inodeof s ip) then dinode_fields (inodeof s ip) else disk_inode s n))
    \<and> (\<forall>b. b \<notin> inode_blocks (f_sb s) \<longrightarrow> content s' b = content s b)"
proof -
  let ?i = "inodeof s ip"
  let ?B = "IBLOCK (i_inum ?i) (f_sb s)" and ?k = "unat (i_inum ?i) mod IPB"
  let ?d = "put_dinode ?k (dinode_fields ?i) (content s ?B)"
  have i: "i_inum ?i < sb_ninodes (f_sb s)" "length (d_addrs (dinode_fields ?i)) = Suc NDIRECT"
    using ok(2) by (simp_all add: inode_ok_def dinode_fields_def)
  note D = fs_okD [OF ok(1)]
  obtain s' where s': "iupdate ip s = Ok () s'" "tx {} k s'" "kept s s'" "content s' = (content s)(?B := ?d)"
    using iupdate_spec [OF t _ ok] by auto
  note G = get_put_dinode [OF D(3) [OF D(9) [OF i(1)]] i(2)]
  have m: "m mod IPB < IPB" for m by (simp add: IPB_def)
  have O: "fs_ok s'" "x < sb_size (f_sb s) \<Longrightarrow> used (content s') (f_sb s') x = used (content s) (f_sb s) x" for x
    using fs_ok_write [OF ok(1) s'(3,4) D(12) [OF i(1)] D(11) [OF i(1)] G(2) [OF m m]] by blast+
  have "disk_inode s' n = (if n = i_inum ?i then dinode_fields ?i else disk_inode s n)" for n
    unfolding disk_inode_def kept_fs(1) [OF s'(3)] same_inode_iff [of n "i_inum ?i"] IBLOCK_eq_iff [symmetric, of n "i_inum ?i" "f_sb s"]
    by (simp add: s'(4) G(1) [OF m m])
  moreover have "used_blocks s' = used_blocks s" using O(2) kept_fs(1) [OF s'(3)] by (auto simp: used_blocks_def)
  moreover have "content s' b = content s b" if "b \<notin> inode_blocks (f_sb s)" for b
    using that i(1) by (auto simp: s'(4) inode_blocks_def)
  ultimately show ?thesis using s' O(1) by blast
qed

lemma inodeof_upd [simp]:
  "ip < length (f_inode s) \<Longrightarrow> inodeof (upd_inode ip f s) jp = (if jp = ip then f (inodeof s ip) else inodeof s jp)"
  "length (f_inode (upd_inode ip f s)) = length (f_inode s)"
  by (simp_all add: upd_inode_def)

definition loaded :: "dinode \<Rightarrow> inode \<Rightarrow> inode" where
  "loaded d i = i\<lparr>i_type := d_type d, i_major := d_major d, i_minor := d_minor d, i_nlink := d_nlink d, i_size := d_size d,
     i_addrs := d_addrs d, i_valid := True\<rparr>"

lemma loaded_fields [simp]: "dinode_fields (loaded d i) = d"
  by (cases d) (simp add: loaded_def dinode_fields_def)

lemma ilock_loads:
  assumes t: "tx {} k s" and ok: "fs_ok s" and ip: "ip < length (f_inode s)"
    and i: "i_ref (inodeof s ip) \<ge> 1" "\<not> sl_locked (i_lock (inodeof s ip))" "\<not> i_valid (inodeof s ip)"
      "i_dev (inodeof s ip) = 1" "i_inum (inodeof s ip) < sb_ninodes (f_sb s)"
  defines "d \<equiv> disk_inode s (i_inum (inodeof s ip))"
  shows "if d_type d = 0 then ilock ip s = Panic ''ilock: no type''
    else \<exists>s'. ilock ip s = Ok () s' \<and> tx {} k s' \<and> content s' = content s \<and> f_sb s' = f_sb s
      \<and> bs_disksize s' = bs_disksize s \<and> log_area s' = log_area s
      \<and> f_inode s' = (f_inode s)[ip := loaded d ((inodeof s ip)\<lparr>i_lock := \<lparr>sl_locked = True, sl_pid = bs_pid s\<rparr>\<rparr>)]"
proof -
  let ?n = "i_inum (inodeof s ip)" and ?l = "\<lambda>i. i\<lparr>i_lock := \<lparr>sl_locked = True, sl_pid = bs_pid s\<rparr>\<rparr>"
  let ?s = "upd_inode ip ?l s"
  note D = fs_okD [OF ok]
  obtain b s1 where r: "bread 1 (IBLOCK ?n (f_sb s)) ?s = Ok b s1" "tx {b} k s1" "keyed s1 b (IBLOCK ?n (f_sb s))"
      "content s1 = content s" "kept ?s s1"
    using tx_read [of "{}" k ?s "IBLOCK ?n (f_sb s)"] t D(1) [OF D(9) [OF i(5)]] by auto
  let ?f = "\<lambda>i. i\<lparr>i_type := d_type d, i_major := d_major d, i_minor := d_minor d, i_nlink := d_nlink d, i_size := d_size d,
     i_addrs := d_addrs d\<rparr>"
  obtain s3 where s3: "brelse b (upd_inode ip ?f s1) = Ok () s3" "tx {} k s3" "content s3 = content s" "kept (upd_inode ip ?f s1) s3"
    using tx_relse [of "{b}" k "upd_inode ip ?f s1" b "IBLOCK ?n (f_sb s)"] r(2-4) by auto
  have f1: "f_inode s1 = f_inode ?s" "f_sb s1 = f_sb s" using kept_fs [OF r(5)] by simp_all
  have f3: "f_inode s3 = f_inode (upd_inode ip ?f s1)" "f_sb s3 = f_sb s" using kept_fs [OF s3(4)] f1(2) by simp_all
  have g: "get_dinode (unat ?n mod IPB) (b_data (bufof s1 b)) = d" using tx_data [OF r(2) _ r(3)] r(4) by (simp add: d_def disk_inode_def)
  have "ilock ip s = (let s = upd_inode ip (\<lambda>i. i\<lparr>i_valid := True\<rparr>) s3 in
      if i_type (inodeof s ip) = 0 then Panic ''ilock: no type'' else Ok () s)"
    using i ip r(1) g s3(1) f1 by (simp add: ilock_def acquiresleep_i_def Let_def inodeof_upd(1) f1)
  moreover have "f_inode (upd_inode ip (\<lambda>i. i\<lparr>i_valid := True\<rparr>) s3) = (f_inode s)[ip := loaded d (?l (inodeof s ip))]"
    using ip f3(1) f1(1) by (simp add: upd_inode_def loaded_def)
  ultimately show ?thesis
    using s3 f3(2) ip keptD [OF s3(4)] keptD [OF r(5)] by (auto simp: Let_def loaded_def)
qed

text \<open>Claim C40. What \<^verbatim>\<open>iupdate\<close> stores, \<^verbatim>\<open>ilock\<close> loads. After \<^verbatim>\<open>iupdate\<close> of an inode the disk inode of that number has the
  fields of the entry and every other inode of the disk is as before; when the entry has been given up and handed
  out again, whatever it holds, \<^verbatim>\<open>ilock\<close> fills it with the stored type, device numbers, link count, size and
  block addresses and leaves it valid and locked.\<close>

theorem inode_roundtrip:
  assumes t: "tx {} (Suc k) s" and ok: "fs_ok s" "inode_ok s ip" and ty: "i_type (inodeof s ip) \<noteq> 0"
  shows "\<exists>s1. iupdate ip s = Ok () s1 \<and> fs_ok s1 \<and> used_blocks s1 = used_blocks s
    \<and> (\<forall>n < sb_ninodes (f_sb s). n \<noteq> i_inum (inodeof s ip) \<longrightarrow> disk_inode s1 n = disk_inode s n)
    \<and> (\<forall>e. i_dev e = 1 \<and> i_inum e = i_inum (inodeof s ip) \<and> i_ref e \<ge> 1 \<and> \<not> sl_locked (i_lock e) \<and> \<not> i_valid e \<longrightarrow>
        (\<exists>s2. ilock ip (upd_inode ip (\<lambda>_. e) s1) = Ok () s2 \<and> dinode_fields (inodeof s2 ip) = dinode_fields (inodeof s ip)
          \<and> i_valid (inodeof s2 ip) \<and> sl_locked (i_lock (inodeof s2 ip)) \<and> content s2 = content s1))"
proof -
  obtain s1 where s1: "iupdate ip s = Ok () s1" "tx {} k s1" "fs_ok s1" "kept s s1" "used_blocks s1 = used_blocks s"
      "\<forall>n < sb_ninodes (f_sb s). disk_inode s1 n =
        (if n = i_inum (inodeof s ip) then dinode_fields (inodeof s ip) else disk_inode s n)"
    using iupdate_stores [OF t ok] by blast
  have n: "ip < length (f_inode s1)" "i_inum (inodeof s ip) < sb_ninodes (f_sb s1)" using ok(2) kept_fs [OF s1(4)] by (simp_all add: inode_ok_def)
  have "\<exists>s2. ilock ip (upd_inode ip (\<lambda>_. e) s1) = Ok () s2 \<and> dinode_fields (inodeof s2 ip) = dinode_fields (inodeof s ip)
          \<and> i_valid (inodeof s2 ip) \<and> sl_locked (i_lock (inodeof s2 ip)) \<and> content s2 = content s1"
    if e: "i_dev e = 1" "i_inum e = i_inum (inodeof s ip)" "i_ref e \<ge> 1" "\<not> sl_locked (i_lock e)" "\<not> i_valid e" for e
  proof -
    let ?s = "upd_inode ip (\<lambda>_. e) s1"
    have d: "disk_inode ?s (i_inum e) = dinode_fields (inodeof s ip)"
      using s1(6) n(2) kept_fs [OF s1(4)] by (simp add: disk_inode_def e(2))
    moreover from this have "d_type (disk_inode ?s (i_inum e)) \<noteq> 0" using ty by (simp add: dinode_fields_def)
    ultimately show ?thesis
      using ilock_loads [of k ?s ip] s1(2,3) e n by (auto simp: loaded_def dinode_fields_def)
  qed
  then show ?thesis using s1 by auto
qed

lemma demo_inode_ok: "inode_ok demo_fs 0"
  by (simp add: inode_ok_def demo_fs_fields demo_inode_def NDIRECT_def)

theorem inode_roundtrip_witness:
  "\<exists>s1 s2. iupdate 0 demo_fs = Ok () s1
    \<and> ilock 0 (upd_inode 0 (\<lambda>_. demo_inode\<lparr>i_valid := False, i_lock := initsleeplock, i_size := 77\<rparr>) s1) = Ok () s2
    \<and> i_size (inodeof s2 0) = 0 \<and> i_nlink (inodeof s2 0) = 1"
proof -
  let ?e = "demo_inode\<lparr>i_valid := False, i_lock := initsleeplock, i_size := 77\<rparr>"
  have t: "tx {} (Suc 28) demo_fs" using demo_fs_tx by simp
  have i: "inodeof demo_fs 0 = demo_inode" "i_type demo_inode \<noteq> 0"
    by (simp_all add: demo_fs_fields demo_inode_def T_FILE_def)
  note R = inode_roundtrip [OF t demo_fs_ok demo_inode_ok, unfolded i(1), OF i(2)]
  have e: "i_dev ?e = 1 \<and> i_inum ?e = i_inum demo_inode \<and> i_ref ?e \<ge> 1 \<and> \<not> sl_locked (i_lock ?e) \<and> \<not> i_valid ?e"
    by (simp add: demo_inode_def initsleeplock_def)
  from R obtain s1 s2 where "iupdate 0 demo_fs = Ok () s1" "ilock 0 (upd_inode 0 (\<lambda>_. ?e) s1) = Ok () s2"
      "dinode_fields (inodeof s2 0) = dinode_fields demo_inode"
    using e by meson
  then show ?thesis by (auto simp: dinode_fields_def demo_inode_def)
qed

end
