(* ===== verification/Fs_Data.thy ===== *)
theory Fs_Data
  imports Fs_Inode
begin

text \<open>
  The contents of files. The block map of a file is a function from block indices to disk blocks; \<^verbatim>\<open>bmap\<close>
  looks it up and extends it, and \<^verbatim>\<open>readi\<close> and \<^verbatim>\<open>writei\<close> work on the array of bytes behind it.
\<close>

subsection \<open>Block maps\<close>

definition blkmap :: "uint list \<Rightarrow> (uint \<Rightarrow> byte list) \<Rightarrow> nat \<Rightarrow> uint" where
  "blkmap as c m = (if m < NDIRECT then as ! m else if as ! NDIRECT = 0 then 0 else get_word (m - NDIRECT) (c (as ! NDIRECT)))"

definition own :: "uint list \<Rightarrow> (uint \<Rightarrow> byte list) \<Rightarrow> uint set" where
  "own as c = insert (as ! NDIRECT) (blkmap as c ` {..<MAXFILE}) - {0}"

text \<open>The blocks of a file are blocks of \<open>D\<close>, each used once.\<close>

definition map_ok :: "uint set \<Rightarrow> uint list \<Rightarrow> (uint \<Rightarrow> byte list) \<Rightarrow> bool" where
  "map_ok D as c \<longleftrightarrow> length as = Suc NDIRECT \<and> own as c \<subseteq> D
     \<and> (\<forall>m<MAXFILE. \<forall>n<MAXFILE. blkmap as c m = blkmap as c n \<and> blkmap as c m \<noteq> 0 \<longrightarrow> m = n)
     \<and> (\<forall>m<MAXFILE. blkmap as c m \<noteq> 0 \<longrightarrow> blkmap as c m \<noteq> as ! NDIRECT)"

lemma blkmap_cong: "as ! NDIRECT = 0 \<or> c' (as ! NDIRECT) = c (as ! NDIRECT) \<Longrightarrow> blkmap as c' = blkmap as c"
  by (auto simp: blkmap_def fun_eq_iff)

lemma map_ok_cong: "as ! NDIRECT = 0 \<or> c' (as ! NDIRECT) = c (as ! NDIRECT) \<Longrightarrow> map_ok D as c' = map_ok D as c"
  by (drule blkmap_cong) (simp add: map_ok_def own_def)

lemma blkmap_direct:
  assumes "m < NDIRECT" "length as = Suc NDIRECT"
  shows "blkmap (as[m := a]) c = (blkmap as c)(m := a)" "as[m := a] ! NDIRECT = as ! NDIRECT"
  using assms by (auto simp: blkmap_def fun_eq_iff)

lemma blkmap_indirect:
  assumes "j < NINDIRECT" "as ! NDIRECT \<noteq> 0" "length (c (as ! NDIRECT)) = BSIZE"
  shows "m < MAXFILE \<Longrightarrow> blkmap as (c(as ! NDIRECT := put_word j a (c (as ! NDIRECT)))) m = ((blkmap as c)(NDIRECT + j := a)) m"
proof -
  assume m: "m < MAXFILE"
  have "4 * j + 4 \<le> length (c (as ! NDIRECT))" using assms by (simp add: NINDIRECT_def BSIZE_def)
  then show ?thesis
    using assms m by (cases "m - NDIRECT = j") (auto simp: blkmap_def MAXFILE_def NINDIRECT_def BSIZE_def)
qed

lemma blkmap_new_indirect:
  assumes "as ! NDIRECT = 0" "length as = Suc NDIRECT" "c' a = replicate BSIZE 0" "m < MAXFILE"
  shows "blkmap (as[NDIRECT := a]) c' m = blkmap as c m"
proof -
  have "get_word j (replicate BSIZE 0) = 0" if "j < NINDIRECT" for j
    using that by (simp add: get_word_def of_le_def NINDIRECT_def BSIZE_def)
  then show ?thesis using assms by (auto simp: blkmap_def MAXFILE_def)
qed

lemma map_ok_insert:
  assumes "map_ok D as c" "a \<notin> own as c" "a \<noteq> 0" "D \<subseteq> D'" "a \<in> D'" "length as' = length as" "as' ! NDIRECT = as ! NDIRECT"
    and m: "m < MAXFILE" and new: "\<And>n. n < MAXFILE \<Longrightarrow> blkmap as' c' n = ((blkmap as c)(m := a)) n"
  shows "map_ok D' as' c'" "own as' c' \<subseteq> insert a (own as c)"
proof -
  have na: "blkmap as c n \<noteq> a" if "n < MAXFILE" for n using assms(2,3) that by (auto simp: own_def)
  have ai: "as ! NDIRECT \<noteq> a" using assms(2,3) by (auto simp: own_def)
  show o: "own as' c' \<subseteq> insert a (own as c)" using assms(7) new by (auto simp: own_def)
  show "map_ok D' as' c'"
    using assms(1,3-7) new o na ai unfolding map_ok_def by (auto split: if_splits)
qed

lemma map_ok_new_indirect:
  assumes "map_ok D as c" "a \<notin> own as c" "a \<noteq> 0" "D \<subseteq> D'" "a \<in> D'" "as ! NDIRECT = 0" "c' a = replicate BSIZE 0"
  shows "map_ok D' (as[NDIRECT := a]) c'" "own (as[NDIRECT := a]) c' \<subseteq> insert a (own as c)"
proof -
  have l: "length as = Suc NDIRECT" using assms(1) by (simp add: map_ok_def)
  have B: "blkmap (as[NDIRECT := a]) c' n = blkmap as c n" if "n < MAXFILE" for n
    using blkmap_new_indirect [of as c' a n c] assms(6,7) l that by simp
  have na: "blkmap as c n \<noteq> a" if "n < MAXFILE" for n using assms(2,3) that by (auto simp: own_def)
  show o: "own (as[NDIRECT := a]) c' \<subseteq> insert a (own as c)" using B l by (auto simp: own_def)
  show "map_ok D' (as[NDIRECT := a]) c'"
    using assms(1,4,5) l o na B unfolding map_ok_def by auto
qed

subsection \<open>Extending a file\<close>

definition data_blocks :: "'z fstate_scheme \<Rightarrow> uint set" where
  "data_blocks s = used_blocks s - ({0, 1} \<union> log_area s \<union> bitmap_blocks (f_sb s) \<union> inode_blocks (f_sb s))"

definition free_blocks :: "'z fstate_scheme \<Rightarrow> uint set" where
  "free_blocks s = {b. b < sb_size (f_sb s)} - used_blocks s"

abbreviation addrs :: "'z fstate_scheme \<Rightarrow> nat \<Rightarrow> uint list" where
  "addrs s ip \<equiv> i_addrs (inodeof s ip)"

abbreviation blk :: "'z fstate_scheme \<Rightarrow> nat \<Rightarrow> nat \<Rightarrow> uint" where
  "blk s ip \<equiv> blkmap (addrs s ip) (content s)"

definition mapped :: "'z fstate_scheme \<Rightarrow> nat \<Rightarrow> bool" where
  "mapped s ip \<longleftrightarrow> fs_ok s \<and> inode_ok s ip \<and> map_ok (data_blocks s) (addrs s ip) (content s)"

lemma data_blocksD:
  assumes "b \<in> data_blocks s"
  shows "b < sb_size (f_sb s)" "used (content s) (f_sb s) b" "b \<notin> log_area s" "b \<notin> bitmap_blocks (f_sb s)"
    "b \<noteq> 0" "b \<noteq> 1" "b \<notin> inode_blocks (f_sb s)"
  using assms by (simp_all add: data_blocks_def used_blocks_def)

lemma mappedD:
  assumes "mapped s ip"
  shows "fs_ok s" "inode_ok s ip" "length (addrs s ip) = Suc NDIRECT"
    "addrs s ip ! NDIRECT \<noteq> 0 \<Longrightarrow> addrs s ip ! NDIRECT \<in> data_blocks s"
    "m < MAXFILE \<Longrightarrow> blk s ip m \<noteq> 0 \<Longrightarrow> blk s ip m \<in> data_blocks s"
    "m < MAXFILE \<Longrightarrow> n < MAXFILE \<Longrightarrow> blk s ip m = blk s ip n \<Longrightarrow> blk s ip m \<noteq> 0 \<Longrightarrow> m = n"
    "m < MAXFILE \<Longrightarrow> blk s ip m \<noteq> 0 \<Longrightarrow> blk s ip m \<noteq> addrs s ip ! NDIRECT"
  using assms by (auto simp: mapped_def map_ok_def own_def)

lemma allocated_data:
  assumes ok: "fs_ok s" and a: "allocated H k b s s'"
  shows "data_blocks s' = insert b (data_blocks s)" "b \<notin> used_blocks s" "card (free_blocks s) = Suc (card (free_blocks s'))"
    "used_blocks s' = insert b (used_blocks s)"
proof -
  have k: "kept s s'" "b < sb_size (f_sb s)" "\<not> used (content s) (f_sb s) b" using a by (simp_all add: allocated_def)
  show u: "used_blocks s' = insert b (used_blocks s)"
    using allocated_ok(2) [OF ok a] k kept_fs(1) [OF k(1)] by (auto simp: used_blocks_def)
  show nb: "b \<notin> used_blocks s" using k by (simp add: used_blocks_def)
  have "{0, 1} \<union> log_area s \<union> bitmap_blocks (f_sb s) \<union> inode_blocks (f_sb s) \<subseteq> used_blocks s"
    using ok by (auto simp: fs_ok_def Let_def used_blocks_def)
  then show "data_blocks s' = insert b (data_blocks s)"
    using u nb kept_fs(1) [OF k(1)] keptD(2) [OF k(1)] by (auto simp: data_blocks_def)
  have "free_blocks s = insert b (free_blocks s')" "b \<notin> free_blocks s'"
    using u nb k kept_fs(1) [OF k(1)] by (auto simp: free_blocks_def)
  then show "card (free_blocks s) = Suc (card (free_blocks s'))" by simp
qed

text \<open>
  \<open>s'\<close> differs from \<open>s\<close> in that the file \<open>ip\<close> has more blocks: at most \<open>j\<close> blocks more are in use, and the used
  blocks other than the bitmap and the file's indirect block are as before.
\<close>

definition grows :: "nat \<Rightarrow> nat \<Rightarrow> 'z fstate_scheme \<Rightarrow> 'z fstate_scheme \<Rightarrow> bool" where
  "grows j ip s s' \<longleftrightarrow> f_sb s' = f_sb s \<and> bs_disksize s' = bs_disksize s \<and> log_area s' = log_area s \<and> bs_pid s' = bs_pid s
     \<and> mapped s' ip \<and> f_inode s' = (f_inode s)[ip := (inodeof s ip)\<lparr>i_addrs := addrs s' ip\<rparr>]
     \<and> (addrs s' ip ! NDIRECT = addrs s ip ! NDIRECT \<or> addrs s' ip ! NDIRECT \<notin> used_blocks s)
     \<and> (\<forall>m<MAXFILE. blk s ip m \<noteq> 0 \<longrightarrow> blk s' ip m = blk s ip m)
     \<and> (\<forall>m<MAXFILE. blk s ip m = 0 \<longrightarrow> blk s' ip m \<notin> used_blocks s \<or> blk s' ip m = 0)
     \<and> used_blocks s \<subseteq> used_blocks s' \<and> card (free_blocks s) \<le> card (free_blocks s') + j
     \<and> (\<forall>x\<in>used_blocks s. x \<notin> bitmap_blocks (f_sb s) \<and> (x \<noteq> addrs s ip ! NDIRECT \<or> x = 0) \<longrightarrow> content s' x = content s x)"

lemma grows_refl: "mapped s ip \<Longrightarrow> grows 0 ip s s"
  by (simp add: grows_def)

lemma growsD:
  assumes "grows j ip s s'"
  shows "f_sb s' = f_sb s" "bs_disksize s' = bs_disksize s" "log_area s' = log_area s" "bs_pid s' = bs_pid s" "mapped s' ip"
    "f_inode s' = (f_inode s)[ip := (inodeof s ip)\<lparr>i_addrs := addrs s' ip\<rparr>]"
    "addrs s' ip ! NDIRECT = addrs s ip ! NDIRECT \<or> addrs s' ip ! NDIRECT \<notin> used_blocks s"
    "m < MAXFILE \<Longrightarrow> blk s ip m \<noteq> 0 \<Longrightarrow> blk s' ip m = blk s ip m"
    "m < MAXFILE \<Longrightarrow> blk s ip m = 0 \<Longrightarrow> blk s' ip m \<notin> used_blocks s \<or> blk s' ip m = 0"
    "used_blocks s \<subseteq> used_blocks s'" "card (free_blocks s) \<le> card (free_blocks s') + j"
    "x \<in> used_blocks s \<Longrightarrow> x \<notin> bitmap_blocks (f_sb s) \<Longrightarrow> x \<noteq> addrs s ip ! NDIRECT \<or> x = 0 \<Longrightarrow> content s' x = content s x"
  using assms unfolding grows_def by blast+

lemma grows_trans:
  assumes g: "grows i ip s s'" and h: "grows j ip s' s''" and ip: "ip < length (f_inode s)"
  shows "grows (i + j) ip s s''"
proof -
  note A = growsD [OF g] and B = growsD [OF h]
  define as' where "as' = addrs s' ip"
  have f: "f_inode s' = (f_inode s)[ip := (inodeof s ip)\<lparr>i_addrs := as'\<rparr>]" unfolding as'_def by (rule A(6))
  show ?thesis unfolding grows_def
  proof (intro conjI allI impI ballI)
    show "f_inode s'' = (f_inode s)[ip := (inodeof s ip)\<lparr>i_addrs := addrs s'' ip\<rparr>]"
      by (rule trans [OF B(6)]) (simp add: f ip)
    show "addrs s'' ip ! NDIRECT = addrs s ip ! NDIRECT \<or> addrs s'' ip ! NDIRECT \<notin> used_blocks s"
      using A(7,10) B(7) by auto
    show "card (free_blocks s) \<le> card (free_blocks s'') + (i + j)" using A(11) B(11) by linarith
    show "used_blocks s \<subseteq> used_blocks s''" using A(10) B(10) by (rule subset_trans)
    show "content s'' x = content s x"
      if "x \<in> used_blocks s" "x \<notin> bitmap_blocks (f_sb s) \<and> (x \<noteq> addrs s ip ! NDIRECT \<or> x = 0)" for x
    proof -
      have "x \<noteq> addrs s' ip ! NDIRECT \<or> x = 0" using that A(7) by auto
      then show ?thesis using that A(1,10) A(12) [of x] B(12) [of x] by auto
    qed
    show "blk s'' ip m = blk s ip m" if "m < MAXFILE" "blk s ip m \<noteq> 0" for m using A(8) [OF that] B(8) [of m] that by simp
    show "blk s'' ip m \<notin> used_blocks s \<or> blk s'' ip m = 0" if m: "m < MAXFILE" "blk s ip m = 0" for m
    proof (cases "blk s' ip m = 0")
      case True
      then show ?thesis using B(9) [OF m(1)] A(10) by blast
    next
      case False
      then show ?thesis using B(8) [OF m(1) False] A(9) [OF m] by simp
    qed
  qed (use A(1-5) B(1-5) in simp_all)
qed

lemma alloc_content:
  assumes "fs_ok s" "allocated H k a s s1"
  shows "x \<in> used_blocks s \<Longrightarrow> x \<notin> bitmap_blocks (f_sb s) \<Longrightarrow> content s1 x = content s x" "content s1 a = replicate BSIZE 0"
proof -
  have a: "a < sb_size (f_sb s)" "\<not> used (content s) (f_sb s) a"
      "content s1 = (content s)(BBLOCK a (f_sb s) := bit_set (unat a mod BPB) (content s (BBLOCK a (f_sb s))), a := replicate BSIZE 0)"
    using assms(2) by (simp_all add: allocated_def)
  show "content s1 a = replicate BSIZE 0" using a(3) by simp
  show "content s1 x = content s x" if "x \<in> used_blocks s" "x \<notin> bitmap_blocks (f_sb s)"
    using that a(2) fs_okD(6) [OF assms(1) a(1)] unfolding a(3) by (auto simp: used_blocks_def)
qed

lemma growsI:
  assumes m: "mapped s ip" and a: "allocated H k a s s1"
    and s': "f_sb s' = f_sb s" "bs_disksize s' = bs_disksize s" "log_area s' = log_area s" "bs_pid s' = bs_pid s" "fs_ok s'"
      "used_blocks s' = used_blocks s1" "f_inode s' = (f_inode s)[ip := (inodeof s ip)\<lparr>i_addrs := as\<rparr>]"
    and as: "map_ok (insert a (data_blocks s)) as (content s')" "as ! NDIRECT = addrs s ip ! NDIRECT \<or> as ! NDIRECT = a"
    and b: "\<And>n. n < MAXFILE \<Longrightarrow> blkmap as (content s') n = blk s ip n \<or> blk s ip n = 0 \<and> blkmap as (content s') n = a"
    and c: "\<And>x. x \<in> used_blocks s \<Longrightarrow> x \<notin> bitmap_blocks (f_sb s) \<Longrightarrow> x \<noteq> addrs s ip ! NDIRECT \<or> x = 0 \<Longrightarrow> content s' x = content s1 x"
  shows "grows 1 ip s s'" "addrs s' ip = as"
proof -
  note M = mappedD [OF m] and A = allocated_data [OF mappedD(1) [OF m] a]
  have ip: "ip < length (f_inode s)" using M(2) by (simp add: inode_ok_def)
  show as': "addrs s' ip = as" using s'(7) ip by simp
  have kk: "kept s s1" using a by (simp add: allocated_def)
  have k: "f_sb s1 = f_sb s" "log_area s1 = log_area s" using kept_fs(1) [OF kk] keptD(2) [OF kk] .
  have "data_blocks s' = data_blocks s1" using s'(1,3,6) k by (simp add: data_blocks_def)
  then have "data_blocks s' = insert a (data_blocks s)" using A(1) by simp
  moreover have "inode_ok s' ip" using M(2) s'(1,7) ip as(1) by (simp add: inode_ok_def map_ok_def)
  ultimately have "mapped s' ip" using s'(5) as(1) as' by (simp add: mapped_def)
  moreover have "content s' x = content s x" if "x \<in> used_blocks s" "x \<notin> bitmap_blocks (f_sb s)" "x \<noteq> addrs s ip ! NDIRECT \<or> x = 0" for x
    using c [OF that] alloc_content(1) [OF M(1) a that(1,2)] by simp
  moreover have "card (free_blocks s) \<le> card (free_blocks s') + 1"
    using A(3) s'(1,6) k by (simp add: free_blocks_def)
  moreover have "blk s' ip n \<notin> used_blocks s \<or> blk s' ip n = 0" if "n < MAXFILE" "blk s ip n = 0" for n
    using b [OF that(1)] that(2) A(2) as' by auto
  moreover have "blk s' ip n = blk s ip n" if "n < MAXFILE" "blk s ip n \<noteq> 0" for n
    using b [OF that(1)] that(2) as' by auto
  ultimately show "grows 1 ip s s'"
    unfolding grows_def as' using s'(1-4,6,7) as(2) A(2,4) as' by auto
qed

lemma fresh_not_own:
  assumes "mapped s ip" "allocated H k a s s1"
  shows "a \<notin> own (addrs s ip) (content s)" "a \<noteq> 0" "a \<in> used_blocks s1" "content s1 a = replicate BSIZE 0"
    "addrs s ip ! NDIRECT = 0 \<or> content s1 (addrs s ip ! NDIRECT) = content s (addrs s ip ! NDIRECT)"
proof -
  note M = mappedD [OF assms(1)]
  have "own (addrs s ip) (content s) \<subseteq> data_blocks s" using assms(1) by (simp add: mapped_def map_ok_def)
  then show "a \<notin> own (addrs s ip) (content s)" using allocated_data(2) [OF M(1) assms(2)] by (auto simp: data_blocks_def)
  show "a \<noteq> 0" by (rule allocated_ok(5) [OF M(1) assms(2)])
  show "a \<in> used_blocks s1" using allocated_data(4) [OF M(1) assms(2)] by simp
  show "content s1 a = replicate BSIZE 0" by (rule alloc_content(2) [OF M(1) assms(2)])
  have "content s1 x = content s x" if "x \<in> data_blocks s" for x
    using alloc_content(1) [OF M(1) assms(2), of x] that by (simp add: data_blocks_def)
  then show "addrs s ip ! NDIRECT = 0 \<or> content s1 (addrs s ip ! NDIRECT) = content s (addrs s ip ! NDIRECT)"
    using M(4) by blast
qed

lemma alloc_fields:
  assumes "fs_ok s" "allocated H k a s s1"
  shows "f_sb s1 = f_sb s" "bs_disksize s1 = bs_disksize s" "log_area s1 = log_area s" "bs_pid s1 = bs_pid s" "fs_ok s1"
    "f_inode s1 = f_inode s"
proof -
  have k: "kept s s1" using assms(2) by (simp add: allocated_def)
  show "f_sb s1 = f_sb s" "bs_disksize s1 = bs_disksize s" "log_area s1 = log_area s" "bs_pid s1 = bs_pid s" "fs_ok s1"
    "f_inode s1 = f_inode s"
    using kept_fs [OF k] keptD [OF k] allocated_ok(1) [OF assms] by simp_all
qed

lemma used_upd_inode [simp]: "used_blocks (upd_inode ip f s) = used_blocks s"
  by (simp add: used_blocks_def)

lemma grow_direct:
  assumes m: "mapped s ip" and a: "allocated {} k a s s1" and n: "n < NDIRECT" "blk s ip n = 0"
  defines "s' \<equiv> upd_inode ip (\<lambda>i. i\<lparr>i_addrs := (i_addrs i)[n := a]\<rparr>) s1"
  shows "grows 1 ip s s'" "j < MAXFILE \<Longrightarrow> blk s' ip j = ((blk s ip)(n := a)) j"
proof -
  let ?as = "(addrs s ip)[n := a]"
  note M = mappedD [OF m] and F = fresh_not_own [OF m a] and A = alloc_fields [OF mappedD(1) [OF m] a]
  have ip: "ip < length (f_inode s)" using M(2) by (simp add: inode_ok_def)
  note D = blkmap_direct [OF n(1) M(3), of a]
  have b: "blkmap ?as (content s1) = (blk s ip)(n := a)" unfolding D(1) using blkmap_cong [of "addrs s ip" "content s1" "content s"] F(5) by simp
  have n': "n < MAXFILE" using n(1) by (simp add: MAXFILE_def)
  have mo0: "map_ok (data_blocks s) (addrs s ip) (content s)" using m by (simp add: mapped_def)
  have mo: "map_ok (insert a (data_blocks s)) ?as (content s1)"
    by (rule map_ok_insert(1) [OF mo0 F(1,2) _ _ _ D(2) n']) (simp_all add: b subset_insertI)
  have fi: "f_inode s' = (f_inode s)[ip := (inodeof s ip)\<lparr>i_addrs := ?as\<rparr>]"
    by (simp add: s'_def upd_inode_def A(6))
  have c: "content s' = content s1" by (simp add: s'_def)
  have P: "f_sb s' = f_sb s" "bs_disksize s' = bs_disksize s" "log_area s' = log_area s" "bs_pid s' = bs_pid s" "fs_ok s'"
    "used_blocks s' = used_blocks s1" using A by (simp_all add: s'_def)
  have nd: "?as ! NDIRECT = addrs s ip ! NDIRECT \<or> ?as ! NDIRECT = a" using D(2) by simp
  have bb: "blkmap ?as (content s') j = blk s ip j \<or> blk s ip j = 0 \<and> blkmap ?as (content s') j = a" for j
    unfolding c b using n(2) by (cases "j = n") simp_all
  show "grows 1 ip s s'" by (rule growsI(1) [OF m a P fi _ nd bb]) (simp_all add: c mo)
  show "blk s' ip j = ((blk s ip)(n := a)) j" using b fi ip c by simp
qed

lemma grow_indirect:
  assumes m: "mapped s ip" and a: "allocated {} k a s s1" and z: "addrs s ip ! NDIRECT = 0"
  defines "s' \<equiv> upd_inode ip (\<lambda>i. i\<lparr>i_addrs := (i_addrs i)[NDIRECT := a]\<rparr>) s1"
  shows "grows 1 ip s s'" "j < MAXFILE \<Longrightarrow> blk s' ip j = blk s ip j" "addrs s' ip ! NDIRECT = a"
proof -
  let ?as = "(addrs s ip)[NDIRECT := a]"
  note M = mappedD [OF m] and F = fresh_not_own [OF m a] and A = alloc_fields [OF mappedD(1) [OF m] a]
  have ip: "ip < length (f_inode s)" using M(2) by (simp add: inode_ok_def)
  have b: "blkmap ?as (content s1) j = blk s ip j" if "j < MAXFILE" for j
    using blkmap_new_indirect [of "addrs s ip" "content s1" a j "content s"] z M(3) F(4) that by simp
  have mo0: "map_ok (data_blocks s) (addrs s ip) (content s)" using m by (simp add: mapped_def)
  have mo: "map_ok (insert a (data_blocks s)) ?as (content s1)"
    by (rule map_ok_new_indirect(1) [OF mo0 F(1,2) _ _ z]) (simp_all add: F(4) subset_insertI)
  have fi: "f_inode s' = (f_inode s)[ip := (inodeof s ip)\<lparr>i_addrs := ?as\<rparr>]"
    by (simp add: s'_def upd_inode_def A(6))
  have c: "content s' = content s1" by (simp add: s'_def)
  have P: "f_sb s' = f_sb s" "bs_disksize s' = bs_disksize s" "log_area s' = log_area s" "bs_pid s' = bs_pid s" "fs_ok s'"
    "used_blocks s' = used_blocks s1" using A by (simp_all add: s'_def)
  have nd: "?as ! NDIRECT = addrs s ip ! NDIRECT \<or> ?as ! NDIRECT = a" using M(3) by simp
  show "grows 1 ip s s'" by (rule growsI(1) [OF m a P fi _ nd]) (simp_all add: c mo b)
  show "blk s' ip j = blk s ip j" if "j < MAXFILE" using b [OF that] fi ip c by simp
  show "addrs s' ip ! NDIRECT = a" using fi ip M(3) by simp
qed

lemma grow_entry:
  assumes m: "mapped s ip" and a: "allocated H k a s s1" and j: "j < NINDIRECT" "blk s ip (NDIRECT + j) = 0"
    and i: "addrs s ip ! NDIRECT = i" "i \<noteq> 0"
    and s': "kept s1 s'" "content s' = (content s1)(i := put_word j a (content s i))"
  shows "grows 1 ip s s'" "n < MAXFILE \<Longrightarrow> blk s' ip n = ((blk s ip)(NDIRECT + j := a)) n" "content s' a = replicate BSIZE 0"
proof -
  note M = mappedD [OF m] and F = fresh_not_own [OF m a] and A = alloc_fields [OF mappedD(1) [OF m] a]
  have ip: "ip < length (f_inode s)" using M(2) by (simp add: inode_ok_def)
  have id: "i \<in> data_blocks s" using M(4) i by simp
  note I = data_blocksD [OF id]
  have li: "length (content s i) = BSIZE" by (rule fs_okD(3) [OF M(1) I(1)])
  have ci: "content s1 i = content s i" using F(5) i by simp
  have b: "blkmap (addrs s ip) (content s') n = ((blk s ip)(NDIRECT + j := a)) n" if "n < MAXFILE" for n
    using blkmap_indirect [OF j(1), of "addrs s ip" "content s1" n a] blkmap_cong [of "addrs s ip" "content s1" "content s"]
      F(5) i li ci that by (simp add: s'(2))
  have nj: "NDIRECT + j < MAXFILE" using j(1) by (simp add: MAXFILE_def)
  have ai: "a \<noteq> i" using F(1,2) i by (auto simp: own_def)
  have mo0: "map_ok (data_blocks s) (addrs s ip) (content s)" using m by (simp add: mapped_def)
  have mo: "map_ok (insert a (data_blocks s)) (addrs s ip) (content s')"
    by (rule map_ok_insert(1) [OF mo0 F(1,2) _ _ _ _ nj]) (simp_all only: b subset_insertI insertI1)
  have lp: "length (put_word j a (content s i)) = BSIZE" using li j(1) by (simp add: NINDIRECT_def BSIZE_def)
  have P: "f_sb s' = f_sb s" "bs_disksize s' = bs_disksize s" "log_area s' = log_area s" "bs_pid s' = bs_pid s"
    "f_inode s' = f_inode s" using A kept_fs [OF s'(1)] keptD [OF s'(1)] by simp_all
  have w: "fs_ok s'" "x < sb_size (f_sb s1) \<Longrightarrow> used (content s') (f_sb s') x = used (content s1) (f_sb s1) x" for x
    using fs_ok_write [OF A(5) s' I(6) _ lp] I(4) A(1) by simp_all
  have u: "used_blocks s' = used_blocks s1" using w(2) P(1) A(1) by (auto simp: used_blocks_def)
  have fi: "f_inode s' = (f_inode s)[ip := (inodeof s ip)\<lparr>i_addrs := addrs s ip\<rparr>]" using P(5) by simp
  have bb: "blkmap (addrs s ip) (content s') n = blk s ip n \<or> blk s ip n = 0 \<and> blkmap (addrs s ip) (content s') n = a"
    if "n < MAXFILE" for n unfolding b [OF that] using j(2) by (cases "n = NDIRECT + j") simp_all
  show "grows 1 ip s s'"
    by (rule growsI(1) [OF m a P(1-4) w(1) u fi mo _ bb]) (auto simp: s'(2) i)
  show "blk s' ip n = ((blk s ip)(NDIRECT + j := a)) n" if "n < MAXFILE" using b [OF that] P(5) by simp
  show "content s' a = replicate BSIZE 0" using F(4) ai by (simp add: s'(2))
qed

subsection \<open>Looking up and extending the map\<close>

lemma bmap_hit:
  assumes t: "tx {} k s" and m: "mapped s ip" and bn: "unat bn < MAXFILE" "blk s ip (unat bn) \<noteq> 0"
  shows "\<exists>s'. bmap ip bn s = Ok (blk s ip (unat bn)) s' \<and> tx {} k s' \<and> content s' = content s \<and> kept s s'"
proof (cases "unat bn < NDIRECT")
  case True
  then show ?thesis using t bn(2) by (simp add: bmap_def blkmap_def)
next
  case False
  let ?i = "addrs s ip ! NDIRECT" and ?j = "unat bn - NDIRECT"
  note M = mappedD [OF m]
  have i: "?i \<noteq> 0" "get_word ?j (content s ?i) = blk s ip (unat bn)" using bn(2) False by (auto simp: blkmap_def split: if_splits)
  have j: "?j < NINDIRECT" using bn(1) False by (simp add: MAXFILE_def)
  have "?i < bs_disksize s" using fs_okD(1) [OF M(1) data_blocksD(1) [OF M(4) [OF i(1)]]] .
  then obtain b s1 s2 where r: "bread 1 ?i s = Ok b s1" "b_data (bufof s1 b) = content s ?i" "brelse b s1 = Ok () s2"
      "tx {} k s2" "content s2 = content s" "kept s s2"
    using tx_get [OF t, of ?i] by auto
  then show ?thesis
    using False i j bn(2) M(2) by (simp add: bmap_def Let_def inode_ok_def)
qed

lemma balloc_free:
  assumes "tx H (Suc (Suc k)) s" "card H \<le> Suc k" "fs_ok s" "apart H s" "0 < card (free_blocks s)"
  shows "\<exists>a s'. balloc 1 s = Ok a s' \<and> allocated H k a s s'"
proof -
  have "free_blocks s \<noteq> {}" using assms(5) by auto
  then have "\<exists>b < sb_size (f_sb s). \<not> used (content s) (f_sb s) b" by (auto simp: free_blocks_def used_blocks_def)
  then show ?thesis using balloc_spec [OF assms(1-4)] by (auto split: if_splits)
qed

text \<open>The first part of the indirect case: the indirect block exists afterwards.\<close>

lemma bmap_indirect:
  assumes t: "tx {} (Suc (Suc k)) s" and m: "mapped s ip" and f: "0 < card (free_blocks s)"
  defines "r \<equiv> (let addr = addrs s ip ! NDIRECT in
             if addr = 0 then
               bindk (balloc (i_dev (inodeof s ip)) s) (\<lambda>addr s.
                 Ok addr (upd_inode ip (\<lambda>i. i\<lparr>i_addrs := (i_addrs i)[NDIRECT := addr]\<rparr>) s))
             else Ok addr s)"
  shows "\<exists>a s'. r = Ok a s' \<and> tx {} k s' \<and> grows 1 ip s s' \<and> addrs s' ip ! NDIRECT = a \<and> a \<noteq> 0
    \<and> (\<forall>n<MAXFILE. blk s' ip n = blk s ip n)"
proof (cases "addrs s ip ! NDIRECT = 0")
  case False
  have "grows 1 ip s s" using grows_refl [OF m] by (simp add: grows_def)
  then show ?thesis using False tx_less [OF t, of k] by (simp add: r_def)
next
  case True
  note M = mappedD [OF m]
  obtain a s1 where a: "balloc 1 s = Ok a s1" "allocated {} k a s s1" using balloc_free [OF t _ M(1) _ f] by auto
  have "tx {} k s1" using a(2) by (simp add: allocated_def)
  moreover have "i_dev (inodeof s ip) = 1" using M(2) by (simp add: inode_ok_def)
  moreover have "a \<noteq> 0" by (rule fresh_not_own(2) [OF m a(2)])
  ultimately show ?thesis using grow_indirect [OF m a(2) True] True a(1) by (simp add: r_def)
qed

lemma grows_fields:
  assumes "grows j ip s s'" "ip < length (f_inode s)"
  shows "inodeof s' ip = (inodeof s ip)\<lparr>i_addrs := addrs s' ip\<rparr>" "length (f_inode s') = length (f_inode s)"
    "i_dev (inodeof s' ip) = i_dev (inodeof s ip)" "i_inum (inodeof s' ip) = i_inum (inodeof s ip)"
    "i_size (inodeof s' ip) = i_size (inodeof s ip)"
proof -
  define as' where "as' = addrs s' ip"
  have f: "f_inode s' = (f_inode s)[ip := (inodeof s ip)\<lparr>i_addrs := as'\<rparr>]"
    unfolding as'_def by (rule growsD(6) [OF assms(1)])
  then have i: "inodeof s' ip = (inodeof s ip)\<lparr>i_addrs := as'\<rparr>" using assms(2) by simp
  show "inodeof s' ip = (inodeof s ip)\<lparr>i_addrs := addrs s' ip\<rparr>" using i unfolding as'_def .
  show "length (f_inode s') = length (f_inode s)" "i_dev (inodeof s' ip) = i_dev (inodeof s ip)"
    "i_inum (inodeof s' ip) = i_inum (inodeof s ip)" "i_size (inodeof s' ip) = i_size (inodeof s ip)"
    unfolding i by (simp_all add: f)
qed

lemma bmap_direct_new:
  assumes t: "tx {} (Suc (Suc k)) s" and m: "mapped s ip" and f: "0 < card (free_blocks s)"
    and bn: "unat bn < NDIRECT" "blk s ip (unat bn) = 0"
  shows "\<exists>a s'. bmap ip bn s = Ok a s' \<and> tx {} k s' \<and> grows 1 ip s s' \<and> a \<noteq> 0 \<and> content s' a = replicate BSIZE 0
    \<and> (\<forall>n<MAXFILE. blk s' ip n = ((blk s ip)(unat bn := a)) n)"
proof -
  note M = mappedD [OF m]
  obtain a s1 where a: "balloc 1 s = Ok a s1" "allocated {} k a s s1" using balloc_free [OF t _ M(1) _ f] by auto
  have "tx {} k s1" using a(2) by (simp add: allocated_def)
  moreover have "i_dev (inodeof s ip) = 1" using M(2) by (simp add: inode_ok_def)
  moreover have "addrs s ip ! unat bn = 0" using bn by (simp add: blkmap_def)
  ultimately show ?thesis
    using grow_direct [OF m a(2) bn] a(1) bn(1) fresh_not_own(2,4) [OF m a(2)] by (simp add: bmap_def)
qed

lemma kept_view:
  fixes s :: "'z fstate_scheme"
  assumes "kept s s'" "content s' = content s"
  shows "mapped s' ip = mapped s ip" "free_blocks s' = free_blocks s" "used_blocks s' = used_blocks s" "data_blocks s' = data_blocks s"
    "f_inode s' = f_inode s" "fs_ok s' = fs_ok s" "inode_ok s' ip = inode_ok s ip"
proof -
  note k = kept_fs [OF assms(1)] keptD [OF assms(1)]
  show u: "used_blocks s' = used_blocks s" "f_inode s' = f_inode s" using k assms(2) by (simp_all add: used_blocks_def)
  then show "free_blocks s' = free_blocks s" "data_blocks s' = data_blocks s" using k by (simp_all add: free_blocks_def data_blocks_def)
  then show "mapped s' ip = mapped s ip" "fs_ok s' = fs_ok s" "inode_ok s' ip = inode_ok s ip"
    using k assms(2) u by (simp_all add: mapped_def fs_ok_def inode_ok_def)
qed

lemma grows_kept:
  assumes "grows j ip s s'" "kept r s" "content s = content r"
  shows "grows j ip r s'"
  using assms(1) kept_view(2,3,5) [OF assms(2,3)] kept_fs [OF assms(2)] keptD [OF assms(2)] assms(3) by (simp add: grows_def)

lemma bmap_entry_new:
  assumes t: "tx {} (Suc (Suc (Suc k))) s" and m: "mapped s ip" and f: "0 < card (free_blocks s)"
    and i: "addrs s ip ! NDIRECT = i" "i \<noteq> 0" and j: "j < NINDIRECT" "blk s ip (NDIRECT + j) = 0"
  shows "\<exists>a s'. bindk (bread (i_dev (inodeof s ip)) i s) (\<lambda>bp s.
          bindk
            (let addr = get_word j (b_data (bufof s bp)) in
             if addr = 0 then
               bindk (balloc (i_dev (inodeof s ip)) s) (\<lambda>addr s.
               bindk (log_write bp (set_bdata bp (put_word j addr (b_data (bufof s bp))) s)) (\<lambda>_ s. Ok addr s))
             else Ok addr s) (\<lambda>addr s.
          bindk (brelse bp s) (\<lambda>_ s. Ok addr s))) = Ok a s'
    \<and> tx {} k s' \<and> grows 1 ip s s' \<and> a \<noteq> 0 \<and> content s' a = replicate BSIZE 0
    \<and> (\<forall>n<MAXFILE. blk s' ip n = ((blk s ip)(NDIRECT + j := a)) n)"
proof -
  note M = mappedD [OF m]
  note I = data_blocksD [OF M(4) [unfolded i(1), OF i(2)]]
  have dev: "i_dev (inodeof s ip) = 1" using M(2) by (simp add: inode_ok_def)
  obtain bp s1 where r: "bread 1 i s = Ok bp s1" "tx {bp} (Suc (Suc (Suc k))) s1" "keyed s1 bp i" "content s1 = content s" "kept s s1"
    using tx_read [OF t _ fs_okD(1) [OF M(1) I(1)]] by auto
  note V = kept_view [OF r(5,4)] and K = kept_fs [OF r(5)] keptD [OF r(5)]
  have m1: "mapped s1 ip" using V(1) m by simp
  have w0: "get_word j (content s i) = 0" using i j(2) by (simp add: blkmap_def)
  have d1: "b_data (bufof s1 bp) = content s i" using tx_data [OF r(2) _ r(3)] r(4) by simp
  have "apart {bp} s1" using r(3,4) I(2,4) K(1) by (auto simp: apart_def keyed_def)
  then obtain a s2 where a: "balloc 1 s1 = Ok a s2" "allocated {bp} (Suc k) a s1 s2"
    using balloc_free [OF r(2) _ mappedD(1) [OF m1]] f V(2) by auto
  have t2: "tx {bp} (Suc k) s2" "keyed s2 bp = keyed s1 bp" "kept s1 s2" using a(2) by (simp_all add: allocated_def)
  have k2: "keyed s2 bp i" using t2(2) r(3) by simp
  have c2: "content s2 i = content s i" using fresh_not_own(5) [OF m1 a(2)] V(5) r(4) i by simp
  have d2: "b_data (bufof s2 bp) = content s i" using tx_data [OF t2(1) _ k2] c2 by simp
  have "i \<notin> log_area s2" using I(3) K(4) keptD(2) [OF t2(3)] by simp
  then obtain s3 where s3: "log_write bp (set_bdata bp (put_word j a (content s i)) s2) = Ok () s3" "tx {bp} k s3"
      "content s3 = (content s2)(i := put_word j a (content s i))" "kept s2 s3" "keyed s3 bp = keyed s2 bp"
    using tx_write [OF t2(1) _ k2, of "put_word j a (content s i)"] by auto
  obtain s4 where s4: "brelse bp s3 = Ok () s4" "tx {} k s4" "content s4 = content s3" "kept s3 s4"
    using tx_relse [OF s3(2), of bp i] s3(5) k2 by auto
  have e: "content s4 = (content s2)(i := put_word j a (content s1 i))" using s3(3) s4(3) r(4) by simp
  have i1: "addrs s1 ip ! NDIRECT = i" "blk s1 ip (NDIRECT + j) = 0" using i(1) j(2) V(5) r(4) by simp_all
  note G = grow_entry [OF m1 a(2) j(1) i1(2,1) i(2) kept_trans [OF s3(4) s4(4)] e]
  have g: "grows 1 ip s s4" by (rule grows_kept [OF G(1) r(5,4)])
  have "blk s1 ip = blk s ip" using V(5) r(4) by simp
  then show ?thesis
    using g G(2,3) fresh_not_own(2) [OF m1 a(2)] s4(1,2) s3(1) a(1) r(1) w0 d1 d2 dev V(5) K(2)
    by (intro exI [of _ a] exI [of _ s4]) simp
qed

lemma grows_more: "grows i ip s s' \<Longrightarrow> i \<le> j \<Longrightarrow> grows j ip s s'"
  by (simp add: grows_def)

lemma bmap_spec:
  assumes t: "tx {} (5 + k) s" and m: "mapped s ip" and f: "2 \<le> card (free_blocks s)" and bn: "unat bn < MAXFILE"
  shows "\<exists>a s'. bmap ip bn s = Ok a s' \<and> tx {} k s' \<and> grows 2 ip s s' \<and> a \<noteq> 0
    \<and> content s' a = (if blk s ip (unat bn) = 0 then replicate BSIZE 0 else content s (blk s ip (unat bn)))
    \<and> (\<forall>n<MAXFILE. blk s' ip n = ((blk s ip)(unat bn := a)) n)"
proof -
  have ip: "ip < length (f_inode s)" using mappedD(2) [OF m] by (simp add: inode_ok_def)
  consider (hit) "blk s ip (unat bn) \<noteq> 0" | (direct) "blk s ip (unat bn) = 0" "unat bn < NDIRECT"
    | (indirect) "blk s ip (unat bn) = 0" "\<not> unat bn < NDIRECT" by blast
  then show ?thesis
  proof cases
    case hit
    have "tx {} k s" using tx_less [OF t] by simp
    then obtain s' where s': "bmap ip bn s = Ok (blk s ip (unat bn)) s'" "tx {} k s'" "content s' = content s" "kept s s'"
      using bmap_hit [OF _ m bn hit] by blast
    have "grows 2 ip s s'"
      using grows_more [OF grows_kept [OF grows_refl s'(4,3)]] kept_view(1) [OF s'(4,3)] m by simp
    then show ?thesis using s' hit kept_view(5) [OF s'(4,3)] by (intro exI [of _ "blk s ip (unat bn)"] exI [of _ s']) simp
  next
    case direct
    have t2: "tx {} (Suc (Suc k)) s" by (rule tx_less [OF t]) simp
    have f1: "0 < card (free_blocks s)" using f by simp
    from bmap_direct_new [OF t2 m f1 direct(2,1)] obtain a s' where a: "bmap ip bn s = Ok a s'" "tx {} k s'" "grows 1 ip s s'"
        "a \<noteq> 0" "content s' a = replicate BSIZE 0" "\<forall>n<MAXFILE. blk s' ip n = ((blk s ip)(unat bn := a)) n" by blast
    moreover have "grows 2 ip s s'" by (rule grows_more [OF a(3)]) simp
    ultimately show ?thesis using direct(1) by (intro exI [of _ a] exI [of _ s']) simp
  next
    case indirect
    let ?j = "unat bn - NDIRECT"
    have j: "?j < NINDIRECT" "NDIRECT + ?j = unat bn" using bn indirect(2) by (simp_all add: MAXFILE_def)
    have t1: "tx {} (Suc (Suc (Suc (Suc (Suc k))))) s" using t by (simp add: numeral_eq_Suc)
    have "0 < card (free_blocks s)" using f by simp
    from bmap_indirect [OF t1 m this] obtain i s1 where
      i: "(let addr = addrs s ip ! NDIRECT in
             if addr = 0 then
               bindk (balloc (i_dev (inodeof s ip)) s) (\<lambda>addr s.
                 Ok addr (upd_inode ip (\<lambda>i. i\<lparr>i_addrs := (i_addrs i)[NDIRECT := addr]\<rparr>) s))
             else Ok addr s) = Ok i s1"
        "tx {} (Suc (Suc (Suc k))) s1" "grows 1 ip s s1" "addrs s1 ip ! NDIRECT = i" "i \<noteq> 0"
        "\<forall>n<MAXFILE. blk s1 ip n = blk s ip n" by blast
    have "0 < card (free_blocks s1)" "blk s1 ip (NDIRECT + ?j) = 0" using growsD(11) [OF i(3)] f i(6) bn indirect(1) j(2) by simp_all
    from bmap_entry_new [OF i(2) growsD(5) [OF i(3)] this(1) i(4,5) j(1) this(2)] obtain a s' where
      a: "bindk (bread (i_dev (inodeof s1 ip)) i s1) (\<lambda>bp s.
          bindk
            (let addr = get_word ?j (b_data (bufof s bp)) in
             if addr = 0 then
               bindk (balloc (i_dev (inodeof s ip)) s) (\<lambda>addr s.
               bindk (log_write bp (set_bdata bp (put_word ?j addr (b_data (bufof s bp))) s)) (\<lambda>_ s. Ok addr s))
             else Ok addr s) (\<lambda>addr s.
          bindk (brelse bp s) (\<lambda>_ s. Ok addr s))) = Ok a s'"
        "tx {} k s'" "grows 1 ip s1 s'" "a \<noteq> 0" "content s' a = replicate BSIZE 0"
        "\<forall>n<MAXFILE. blk s' ip n = ((blk s1 ip)(NDIRECT + ?j := a)) n" by blast
    have "bmap ip bn s = Ok a s'" unfolding bmap_def Let_def [of "unat bn - NDIRECT"]
      using indirect(2) j(1) i(1) a(1) by simp
    moreover have "grows 2 ip s s'" using grows_trans [OF i(3) a(3) ip] by (simp add: numeral_2_eq_2)
    moreover have "\<forall>n<MAXFILE. blk s' ip n = ((blk s ip)(unat bn := a)) n" using a(6) i(6) j(2) by simp
    ultimately show ?thesis using a(2,4,5) indirect(1) by (intro exI [of _ a] exI [of _ s']) simp
  qed
qed

subsection \<open>Reading\<close>

definition fbyte :: "'z fstate_scheme \<Rightarrow> nat \<Rightarrow> nat \<Rightarrow> byte" where
  "fbyte s ip i = content s (blk s ip (i div BSIZE)) ! (i mod BSIZE)"

text \<open>A file has no holes below its size.\<close>

definition file_ok :: "'z fstate_scheme \<Rightarrow> nat \<Rightarrow> bool" where
  "file_ok s ip \<longleftrightarrow> mapped s ip \<and> unat (i_size (inodeof s ip)) \<le> MAXFILE * BSIZE
     \<and> (\<forall>m. m * BSIZE < unat (i_size (inodeof s ip)) \<longrightarrow> blk s ip m \<noteq> 0)"

lemma unat_chunk:
  assumes "tot < n"
  shows "unat (chunk off tot n) = min (unat n - unat tot) (512 - unat off mod 512)"
proof -
  have "unat (512 - off mod 512) = 512 - unat off mod 512"
    by (subst unat_sub) (simp_all add: word_le_nat_alt unat_mod)
  moreover have "unat (n - tot) = unat n - unat tot" using assms by (simp add: unat_sub order.strict_implies_order)
  ultimately show ?thesis by (auto simp: chunk_def min_def word_le_nat_alt)
qed

lemma div_same_block: "off \<le> i \<Longrightarrow> i < off + (512 - off mod 512) \<Longrightarrow> i div 512 = off div (512 :: nat) \<and> i mod 512 = off mod 512 + (i - off)"
proof -
  assume i: "off \<le> i" "i < off + (512 - off mod 512)"
  have e: "i = 512 * (off div 512) + (off mod 512 + (i - off))" "off mod 512 + (i - off) < 512"
    using i mult_div_mod_eq [of 512 off] by linarith+
  have "(512 * q + r) div 512 = q \<and> (512 * q + r) mod 512 = r" if "r < 512" for q r :: nat using that by simp
  from this [OF e(2), of "off div 512"] show ?thesis using e(1) by metis
qed

lemma chunk_bytes:
  assumes "length (content s (blk s ip (off div 512))) = BSIZE" "n \<le> 512 - off mod 512"
  shows "get_bytes (off mod 512) n (content s (blk s ip (off div 512))) = map (fbyte s ip) [off..<off + n]"
proof (rule nth_equalityI)
  have l: "off mod 512 + n \<le> 512" using assms(2) by (simp add: le_diff_conv2)
  then show "length (get_bytes (off mod 512) n (content s (blk s ip (off div 512)))) = length (map (fbyte s ip) [off..<off + n])"
    using assms(1) by (simp add: get_bytes_def BSIZE_def)
  fix i
  assume "i < length (get_bytes (off mod 512) n (content s (blk s ip (off div 512))))"
  then have i: "i < n" by (simp add: get_bytes_def)
  then have "(off + i) div 512 = off div 512 \<and> (off + i) mod 512 = off mod 512 + i"
    using div_same_block [of off "off + i"] assms(2) by simp
  then show "get_bytes (off mod 512) n (content s (blk s ip (off div 512))) ! i = map (fbyte s ip) [off..<off + n] ! i"
    using i l assms(1) by (simp add: get_bytes_def fbyte_def BSIZE_def)
qed

lemma off_step:
  assumes t: "tot < n" and lim: "unat off + (unat n - unat tot) \<le> MAXFILE * BSIZE"
  defines "m \<equiv> chunk off tot n" and "r \<equiv> min (unat n - unat tot) (512 - unat off mod 512)"
  shows "unat m = r" "unat (off + m) = unat off + r" "unat (tot + m) = unat tot + r" "tot + m \<le> n" "0 < r"
    "unat off div 512 < MAXFILE" "unat (off div 512) = unat off div 512" "unat (off mod 512) = unat off mod 512"
proof -
  have tn: "unat tot < unat n" using t by (simp add: word_less_nat_alt)
  show m: "unat m = r" unfolding m_def r_def by (rule unat_chunk [OF t])
  show r0: "0 < r" using tn by (simp add: r_def)
  have big: "unat off + r < 2 ^ 32" "unat tot + r \<le> unat n" using lim tn by (simp_all add: r_def MAXFILE_def NDIRECT_def NINDIRECT_def BSIZE_def)
  have n32: "unat n < 2 ^ 32" by (rule order.strict_trans2 [OF unsigned_less]) simp
  show "unat (off + m) = unat off + r" using big m by (simp add: unat_word_ariths)
  show u: "unat (tot + m) = unat tot + r" using big n32 m by (simp add: unat_word_ariths)
  show "tot + m \<le> n" using u big(2) by (simp add: word_le_nat_alt)
  have "unat off < MAXFILE * 512" using lim tn by (simp add: BSIZE_def)
  then show "unat off div 512 < MAXFILE" by (simp add: less_mult_imp_div_less)
  show "unat (off div 512) = unat off div 512" "unat (off mod 512) = unat off mod 512" by (simp_all add: unat_div unat_mod)
qed

end
