(* ===== verification/Fs_File.thy ===== *)
theory Fs_File
  imports Fs_Data
begin

text \<open>
  Files as arrays of bytes. The lemmas of this theory show that the loops of \<^verbatim>\<open>readi\<close> and \<^verbatim>\<open>writei\<close>
  read and update the array of bytes behind the block map of a file, and nothing else on the disk.
\<close>

subsection \<open>Reading\<close>

lemma step_rest:
  fixes r n t x :: nat
  assumes "r \<le> n - t"
  shows "n - (t + r) = n - t - r" "x + r + (n - (t + r)) = x + (n - t)"
  using assms by linarith+

lemma upt_split: "i \<le> j \<Longrightarrow> j \<le> k \<Longrightarrow> [i..<k] = [i..<j] @ [j..<k]"
  using upt_add_eq_append [of i j "k - j"] by simp

lemma readi_loop_spec:
  assumes "tx {} k s" "mapped s ip" "tot \<le> n" "unat off + (unat n - unat tot) \<le> MAXFILE * BSIZE"
    and "\<forall>m. m * BSIZE < unat off + (unat n - unat tot) \<longrightarrow> blk s ip m \<noteq> 0"
  shows "\<exists>s'. readi_loop ip off tot n s = Ok (map (fbyte s ip) [unat off..<unat off + (unat n - unat tot)]) s'
    \<and> tx {} k s' \<and> content s' = content s \<and> kept s s'"
  using assms
proof (induction "unat n - unat tot" arbitrary: off tot s rule: less_induct)
  case less
  show ?case
  proof (cases "tot < n")
    case False
    then have "tot = n" using less.prems(3) by simp
    then show ?thesis using less.prems(1) by (simp add: readi_loop.simps)
  next
    case True
    let ?m = "chunk off tot n" and ?a = "blk s ip (unat off div 512)"
    let ?d = "unat n - unat tot" and ?r = "min (unat n - unat tot) (512 - unat off mod 512)"
    note S = off_step [OF True less.prems(4)] and M = mappedD [OF less.prems(2)]
    have "unat off div 512 * BSIZE < unat off + ?d" using S(5) div_times_less_eq_dividend [of "unat off" 512] unfolding BSIZE_def by linarith
    then have a0: "?a \<noteq> 0" using less.prems(5) by blast
    obtain s1 where s1: "bmap ip (off div 512) s = Ok ?a s1" "tx {} k s1" "content s1 = content s" "kept s s1"
      using bmap_hit [OF less.prems(1,2), of "off div 512"] S(6,7) a0 by auto
    note A = data_blocksD(1) [OF M(5) [OF S(6) a0]]
    have la: "length (content s ?a) = BSIZE" by (rule fs_okD(3) [OF M(1) A])
    obtain b s2 s3 where r: "bread 1 ?a s1 = Ok b s2" "b_data (bufof s2 b) = content s ?a" "brelse b s2 = Ok () s3"
        "tx {} k s3" "content s3 = content s" "kept s1 s3"
      using tx_get [OF s1(2), of ?a] s1(3) fs_okD(1) [OF M(1) A] keptD(1) [OF s1(4)] by auto
    have k3: "kept s s3" by (rule kept_trans [OF s1(4) r(6)])
    note V = kept_view [OF k3 r(5)]
    have dv: "i_dev (inodeof s1 ip) = 1" using M(2) kept_view(5) [OF s1(4,3)] by (simp add: inode_ok_def)
    have rest: "unat n - unat (tot + ?m) = ?d - ?r" "unat (off + ?m) + (unat n - unat (tot + ?m)) = unat off + ?d"
      unfolding S(2,3) by (rule step_rest, rule min.cobounded1)+
    have fb: "fbyte s3 ip = fbyte s ip" by (rule ext) (simp only: fbyte_def V(5) r(5))
    have bl: "blk s3 ip = blk s ip" using V(5) r(5) by simp
    have h1: "unat n - unat (tot + ?m) < ?d" unfolding rest(1) using S(5) by (intro diff_less) simp_all
    have h2: "mapped s3 ip" using V(1) less.prems(2) by simp
    have h3: "unat (off + ?m) + (unat n - unat (tot + ?m)) \<le> MAXFILE * BSIZE"
      "\<forall>m. m * BSIZE < unat (off + ?m) + (unat n - unat (tot + ?m)) \<longrightarrow> blk s3 ip m \<noteq> 0"
      unfolding rest(2) bl by (rule less.prems(4), rule less.prems(5))
    obtain s4 where s4: "readi_loop ip (off + ?m) (tot + ?m) n s3 =
          Ok (map (fbyte s ip) [unat off + ?r..<unat off + ?d]) s4" "tx {} k s4" "content s4 = content s3" "kept s3 s4"
      using less.hyps [OF h1 r(4) h2 S(4) h3, unfolded rest(2), unfolded S(2) fb] by blast
    have "get_bytes (unat off mod 512) ?r (content s ?a) = map (fbyte s ip) [unat off..<unat off + ?r]"
      by (rule chunk_bytes [OF la]) simp
    moreover have "[unat off..<unat off + ?d] = [unat off..<unat off + ?r] @ [unat off + ?r..<unat off + ?d]"
      by (rule upt_split) simp_all
    ultimately have "readi_loop ip off tot n s = Ok (map (fbyte s ip) [unat off..<unat off + ?d]) s4"
      using True s1(1) r(1-3) s4(1) dv S(1,8) by (subst readi_loop.simps) (simp add: Let_def)
    then show ?thesis using s4 r(5) kept_trans [OF k3 s4(4)] by simp
  qed
qed

lemma unat_of_nat_self: "of_nat (unat x) = (x :: uint)"
  by simp

lemma sint_uint_small: "unat x < 2 ^ 31 \<Longrightarrow> sint (x :: uint) = int (unat x)"
proof -
  have "n < 2 ^ 31 \<Longrightarrow> sint (of_nat n :: uint) = int n" for n
    by (simp add: sint_uint unsigned_of_nat signed_take_bit_int_eq_self take_bit_nat_eq_self)
  from this [of "unat x"] show "unat x < 2 ^ 31 \<Longrightarrow> ?thesis" by (simp only: unat_of_nat_self)
qed

lemma readi_spec:
  assumes t: "tx {} k s" and f: "file_ok s ip" and ty: "i_type (inodeof s ip) \<noteq> T_DEV"
    and off: "off \<le> i_size (inodeof s ip)" "off \<le> off + n"
  defines "r \<equiv> min (unat n) (unat (i_size (inodeof s ip)) - unat off)"
  shows "\<exists>s'. readi dr ip off n s = Ok (int r, map (fbyte s ip) [unat off..<unat off + r]) s'
    \<and> tx {} k s' \<and> content s' = content s \<and> kept s s'"
proof -
  let ?sz = "i_size (inodeof s ip)"
  define n' where "n' = (if off + n > ?sz then ?sz - off else n)"
  have F: "mapped s ip" "unat ?sz \<le> MAXFILE * BSIZE" "\<forall>m. m * BSIZE < unat ?sz \<longrightarrow> blk s ip m \<noteq> 0"
    using f by (simp_all add: file_ok_def)
  have u: "unat (off + n) = unat off + unat n" using off(2) by (rule unat_plus_simple [THEN iffD1])
  have o: "unat off \<le> unat ?sz" "unat (?sz - off) = unat ?sz - unat off" using off(1) by (simp_all add: word_le_nat_alt unat_sub)
  have n': "unat n' = r" using u o by (auto simp: n'_def r_def word_less_nat_alt)
  have le: "unat off + r \<le> unat ?sz" using o(1) by (simp add: r_def)
  have "\<forall>m. m * BSIZE < unat off + r \<longrightarrow> blk s ip m \<noteq> 0" using F(3) le by (meson less_le_trans)
  then obtain s' where s': "readi_loop ip off 0 n' s = Ok (map (fbyte s ip) [unat off..<unat off + r]) s'" "tx {} k s'"
      "content s' = content s" "kept s s'"
    using readi_loop_spec [OF t F(1), of 0 n' off] F(2) le n' by auto
  have "r < 2 ^ 31" using le F(2) by (simp add: MAXFILE_def NDIRECT_def NINDIRECT_def BSIZE_def)
  then have "sint n' = int r" using sint_uint_small [of n'] n' by simp
  then show ?thesis
    using ty off s' unfolding readi_def Let_def n'_def [symmetric] by (auto simp: not_less)
qed

subsection \<open>Writing\<close>

text \<open>
  \<open>s'\<close> differs from \<open>s\<close> in the blocks of the file \<open>ip\<close>: the file keeps its blocks and may have up to \<open>j\<close> new ones, all
  other used blocks outside the bitmap are as before.
\<close>

definition edits :: "nat \<Rightarrow> nat \<Rightarrow> 'z fstate_scheme \<Rightarrow> 'z fstate_scheme \<Rightarrow> bool" where
  "edits j ip s s' \<longleftrightarrow> f_sb s' = f_sb s \<and> bs_disksize s' = bs_disksize s \<and> log_area s' = log_area s \<and> bs_pid s' = bs_pid s
     \<and> mapped s' ip \<and> f_inode s' = (f_inode s)[ip := (inodeof s ip)\<lparr>i_addrs := addrs s' ip\<rparr>]
     \<and> used_blocks s \<subseteq> used_blocks s' \<and> card (free_blocks s) \<le> card (free_blocks s') + j
     \<and> own (addrs s' ip) (content s') \<inter> used_blocks s \<subseteq> own (addrs s ip) (content s)
     \<and> (\<forall>x\<in>used_blocks s. x \<notin> bitmap_blocks (f_sb s) \<and> x \<notin> own (addrs s ip) (content s) \<longrightarrow> content s' x = content s x)"

lemma editsD:
  assumes "edits j ip s s'"
  shows "f_sb s' = f_sb s" "bs_disksize s' = bs_disksize s" "log_area s' = log_area s" "bs_pid s' = bs_pid s" "mapped s' ip"
    "f_inode s' = (f_inode s)[ip := (inodeof s ip)\<lparr>i_addrs := addrs s' ip\<rparr>]"
    "used_blocks s \<subseteq> used_blocks s'" "card (free_blocks s) \<le> card (free_blocks s') + j"
    "own (addrs s' ip) (content s') \<inter> used_blocks s \<subseteq> own (addrs s ip) (content s)"
    "x \<in> used_blocks s \<Longrightarrow> x \<notin> bitmap_blocks (f_sb s) \<Longrightarrow> x \<notin> own (addrs s ip) (content s) \<Longrightarrow> content s' x = content s x"
  using assms unfolding edits_def by blast+

lemma edits_trans:
  assumes g: "edits i ip s s'" and h: "edits j ip s' s''" and ip: "ip < length (f_inode s)"
  shows "edits (i + j) ip s s''"
proof -
  note A = editsD [OF g] and B = editsD [OF h]
  define as' where "as' = addrs s' ip"
  have f: "f_inode s' = (f_inode s)[ip := (inodeof s ip)\<lparr>i_addrs := as'\<rparr>]" unfolding as'_def by (rule A(6))
  show ?thesis unfolding edits_def
  proof (intro conjI ballI impI)
    show "f_inode s'' = (f_inode s)[ip := (inodeof s ip)\<lparr>i_addrs := addrs s'' ip\<rparr>]"
      by (rule trans [OF B(6)]) (simp add: f ip)
    show "card (free_blocks s) \<le> card (free_blocks s'') + (i + j)" using A(8) B(8) by linarith
    show "used_blocks s \<subseteq> used_blocks s''" using A(7) B(7) by (rule subset_trans)
    show "own (addrs s'' ip) (content s'') \<inter> used_blocks s \<subseteq> own (addrs s ip) (content s)" using A(7,9) B(9) by blast
    fix x
    assume x: "x \<in> used_blocks s" "x \<notin> bitmap_blocks (f_sb s) \<and> x \<notin> own (addrs s ip) (content s)"
    then have "x \<in> used_blocks s'" "x \<notin> own (addrs s' ip) (content s')" using A(7,9) by blast+
    then show "content s'' x = content s x" using x A(1) A(10) [of x] B(10) [of x] by simp
  qed (use A(1-5) B(1-5) in simp_all)
qed

lemma grows_edits:
  assumes "grows j ip s s'"
  shows "edits j ip s s'"
proof -
  note A = growsD [OF assms]
  have "own (addrs s' ip) (content s') \<inter> used_blocks s \<subseteq> own (addrs s ip) (content s)"
  proof
    fix x
    assume "x \<in> own (addrs s' ip) (content s') \<inter> used_blocks s"
    then have x: "x \<noteq> 0" "x \<in> used_blocks s" "x = addrs s' ip ! NDIRECT \<or> (\<exists>m<MAXFILE. x = blk s' ip m)" by (auto simp: own_def)
    from x(3) show "x \<in> own (addrs s ip) (content s)"
    proof
      assume "x = addrs s' ip ! NDIRECT"
      then show ?thesis using A(7) x(1,2) by (auto simp: own_def)
    next
      assume "\<exists>m<MAXFILE. x = blk s' ip m"
      then obtain m where m: "m < MAXFILE" "x = blk s' ip m" by blast
      then have "blk s ip m = x" using A(8) [OF m(1)] A(9) [OF m(1)] x(1,2) by (cases "blk s ip m = 0") simp_all
      then show ?thesis using x(1) m(1) by (auto simp: own_def)
    qed
  qed
  moreover have "content s' x = content s x"
    if "x \<in> used_blocks s" "x \<notin> bitmap_blocks (f_sb s)" "x \<notin> own (addrs s ip) (content s)" for x
  proof -
    have "x \<noteq> addrs s ip ! NDIRECT \<or> x = 0" using that(3) by (auto simp: own_def)
    then show ?thesis by (rule A(12) [OF that(1,2)])
  qed
  ultimately show ?thesis using A(1-5,10,11) A(6) unfolding edits_def by blast
qed

lemma edits_write:
  assumes m: "mapped s ip" and n: "n < MAXFILE" "blk s ip n = a" "a \<noteq> 0"
    and s': "kept s s'" "content s' = (content s)(a := d)" "length d = BSIZE"
  shows "edits 0 ip s s'" "blk s' ip = blk s ip"
proof -
  note M = mappedD [OF m] and K = kept_fs [OF s'(1)] keptD [OF s'(1)]
  have a: "a \<in> data_blocks s" "a \<noteq> addrs s ip ! NDIRECT" using M(5,7) [OF n(1)] n(2,3) by auto
  note A = data_blocksD [OF a(1)]
  have w: "fs_ok s'" "x < sb_size (f_sb s) \<Longrightarrow> used (content s') (f_sb s') x = used (content s) (f_sb s) x" for x
    using fs_ok_write [OF M(1) s'(1,2) A(6,4) s'(3)] by simp_all
  have u: "used_blocks s' = used_blocks s" using w(2) K(1) by (auto simp: used_blocks_def)
  have f: "free_blocks s' = free_blocks s" "data_blocks s' = data_blocks s" using u K by (simp_all add: free_blocks_def data_blocks_def)
  have b: "blkmap (addrs s ip) (content s') = blk s ip"
    using blkmap_cong [of "addrs s ip" "content s'" "content s"] a(2) by (simp add: s'(2))
  then show "blk s' ip = blk s ip" using K(2) by simp
  have o: "own (addrs s ip) (content s') = own (addrs s ip) (content s)" using b by (simp add: own_def)
  have ao: "a \<in> own (addrs s ip) (content s)" using n by (auto simp: own_def)
  have "map_ok (data_blocks s) (addrs s ip) (content s')"
    using m map_ok_cong [of "addrs s ip" "content s'" "content s" "data_blocks s"] a(2) by (simp add: mapped_def s'(2))
  then have "mapped s' ip" using w(1) M(2) f(2) K by (simp add: mapped_def inode_ok_def)
  then show "edits 0 ip s s'" using K u f o ao by (auto simp: edits_def s'(2))
qed

lemma edits_fields:
  assumes "edits j ip s s'" "ip < length (f_inode s)"
  shows "inodeof s' ip = (inodeof s ip)\<lparr>i_addrs := addrs s' ip\<rparr>" "length (f_inode s') = length (f_inode s)"
    "i_dev (inodeof s' ip) = i_dev (inodeof s ip)" "i_size (inodeof s' ip) = i_size (inodeof s ip)"
proof -
  define as' where "as' = addrs s' ip"
  have f: "f_inode s' = (f_inode s)[ip := (inodeof s ip)\<lparr>i_addrs := as'\<rparr>]"
    unfolding as'_def by (rule editsD(6) [OF assms(1)])
  then have i: "inodeof s' ip = (inodeof s ip)\<lparr>i_addrs := as'\<rparr>" using assms(2) by simp
  show "inodeof s' ip = (inodeof s ip)\<lparr>i_addrs := addrs s' ip\<rparr>" using i unfolding as'_def .
  show "length (f_inode s') = length (f_inode s)" "i_dev (inodeof s' ip) = i_dev (inodeof s ip)"
    "i_size (inodeof s' ip) = i_size (inodeof s ip)"
    unfolding i by (simp_all add: f)
qed

text \<open>The value of a byte of the file, where a block that is not there reads as zeros.\<close>

definition fval :: "'z fstate_scheme \<Rightarrow> nat \<Rightarrow> nat \<Rightarrow> byte" where
  "fval s ip i = (if blk s ip (i div BSIZE) = 0 then 0 else fbyte s ip i)"

text \<open>One round of the loop of \<^verbatim>\<open>writei\<close>: the bytes \<open>bs\<close> go to offset \<open>o'\<close> of block \<open>bn\<close> of the file.\<close>

lemma write_block:
  assumes t: "tx {} (6 + k) s" and m: "mapped s ip" and f: "2 \<le> card (free_blocks s)" and bn: "unat bn < MAXFILE"
    and bs: "o' + length bs \<le> BSIZE"
  shows "\<exists>a s1 i s2 s3 s'. bmap ip bn s = Ok a s1 \<and> i_dev (inodeof s1 ip) = 1 \<and> bread 1 a s1 = Ok i s2
    \<and> log_write i (set_bdata i (put_bytes o' bs (b_data (bufof s2 i))) s2) = Ok () s3 \<and> brelse i s3 = Ok () s'
    \<and> tx {} k s' \<and> edits 2 ip s s'
    \<and> (\<forall>n<MAXFILE. blk s' ip n \<noteq> 0 \<longleftrightarrow> blk s ip n \<noteq> 0 \<or> n = unat bn)
    \<and> (\<forall>i<MAXFILE * BSIZE. fval s' ip i =
         (if i div BSIZE = unat bn \<and> o' \<le> i mod BSIZE \<and> i mod BSIZE < o' + length bs then bs ! (i mod BSIZE - o') else fval s ip i))"
proof -
  let ?bn = "unat bn"
  have t5: "tx {} (5 + Suc k) s" using t by simp
  have ip: "ip < length (f_inode s)" using mappedD(2) [OF m] by (simp add: inode_ok_def)
  obtain a s1 where b: "bmap ip bn s = Ok a s1" "tx {} (Suc k) s1" "grows 2 ip s s1" "a \<noteq> 0"
      "content s1 a = (if blk s ip ?bn = 0 then replicate BSIZE 0 else content s (blk s ip ?bn))"
      "\<forall>n<MAXFILE. blk s1 ip n = ((blk s ip)(?bn := a)) n"
    using bmap_spec [OF t5 m f bn] by blast
  note G = growsD [OF b(3)] and M1 = mappedD [OF growsD(5) [OF b(3)]]
  have a: "blk s1 ip ?bn = a" using b(6) bn by simp
  note D = data_blocksD [OF M1(5) [OF bn, unfolded a, OF b(4)]]
  have la: "length (content s1 a) = BSIZE" by (rule fs_okD(3) [OF M1(1) D(1)])
  obtain i s2 where r: "bread 1 a s1 = Ok i s2" "b_data (bufof s2 i) = content s1 a" "kept s1 s2"
      and w: "\<And>d. \<exists>s3 s4. log_write i (set_bdata i d s2) = Ok () s3 \<and> brelse i s3 = Ok () s4 \<and> tx {} k s4
         \<and> content s4 = (content s1)(a := d) \<and> kept s1 s3 \<and> kept s1 s4 \<and> (\<forall>j\<in>{}. keyed s4 j = keyed s1 j)"
    using tx_put [OF b(2) _ fs_okD(1) [OF M1(1) D(1)] _ D(3)] by auto
  let ?d = "put_bytes o' bs (content s1 a)"
  obtain s3 s4 where s4: "log_write i (set_bdata i ?d s2) = Ok () s3" "brelse i s3 = Ok () s4" "tx {} k s4"
      "content s4 = (content s1)(a := ?d)" "kept s1 s4" using w by blast
  have ld: "o' + length bs \<le> length (content s1 a)" using bs la by simp
  have "length ?d = BSIZE" using get_put_bytes(2) [OF ld] la by simp
  note E = edits_write [OF growsD(5) [OF b(3)] bn a b(4) s4(5,4) this]
  have e: "edits 2 ip s s4" using edits_trans [OF grows_edits [OF b(3)] E(1) ip] by simp
  have dv: "i_dev (inodeof s1 ip) = 1" using M1(2) by (simp add: inode_ok_def)
  have nz: "\<forall>n<MAXFILE. blk s4 ip n \<noteq> 0 \<longleftrightarrow> blk s ip n \<noteq> 0 \<or> n = ?bn" using b(4,6) by (simp add: E(2))
  have nth: "?d ! j = (if o' \<le> j \<and> j < o' + length bs then bs ! (j - o') else content s1 a ! j)" if "j < BSIZE" for j
    using that ld la by (auto simp: put_bytes_def nth_append)
  have "fval s4 ip j = (if j div BSIZE = ?bn \<and> o' \<le> j mod BSIZE \<and> j mod BSIZE < o' + length bs then bs ! (j mod BSIZE - o') else fval s ip j)"
    if j: "j < MAXFILE * BSIZE" for j
  proof -
    have jm: "j div BSIZE < MAXFILE" "j mod BSIZE < BSIZE" using j by (simp_all add: BSIZE_def less_mult_imp_div_less)
    show ?thesis
    proof (cases "j div BSIZE = ?bn")
      case True
      have v: "blk s4 ip ?bn = a" unfolding E(2) by (rule a)
      have v2: "content s4 a = ?d" unfolding s4(4) by simp
      have "fval s4 ip j = ?d ! (j mod BSIZE)" unfolding fval_def fbyte_def True v v2 using b(4) by simp
      moreover have "content s1 a ! (j mod BSIZE) = fval s ip j"
        unfolding b(5) fval_def fbyte_def True using jm(2) by simp
      ultimately show ?thesis using True nth [OF jm(2)] by simp
    next
      case False
      then have e1: "blk s4 ip (j div BSIZE) = blk s ip (j div BSIZE)" using b(6) jm(1) by (simp add: E(2))
      moreover have "content s4 (blk s ip (j div BSIZE)) = content s (blk s ip (j div BSIZE))" if nz: "blk s ip (j div BSIZE) \<noteq> 0"
      proof -
        have "blk s1 ip (j div BSIZE) \<noteq> a"
          using M1(6) [OF jm(1) bn] a b(4) False by metis
        then have "blk s ip (j div BSIZE) \<noteq> a" using b(6) jm(1) False by simp
        moreover have "blk s ip (j div BSIZE) \<in> data_blocks s" "blk s ip (j div BSIZE) \<noteq> addrs s ip ! NDIRECT"
          using mappedD(5,7) [OF m jm(1) nz] .
        ultimately show ?thesis using G(12) [of "blk s ip (j div BSIZE)"] by (simp add: s4(4) data_blocks_def)
      qed
      ultimately have "fval s4 ip j = fval s ip j" unfolding fval_def fbyte_def e1 by simp
      then show ?thesis using False by simp
    qed
  qed
  then show ?thesis using b(1) dv r(1,2) s4(1-3) e nz by auto
qed

text \<open>The number of blocks that \<open>r\<close> bytes from offset \<open>off\<close> touch.\<close>

definition nblk :: "nat \<Rightarrow> nat \<Rightarrow> nat" where
  "nblk off r = (if r = 0 then 0 else (off mod 512 + r + 511) div 512)"

lemma nblk_step:
  fixes off d :: nat
  assumes "0 < d"
  defines "r \<equiv> min d (512 - off mod 512)"
  shows "nblk off d = Suc (nblk (off + r) (d - r))"
proof (cases "d \<le> 512 - off mod 512")
  case True
  then have "r = d" "512 \<le> off mod 512 + d + 511" "off mod 512 + d + 511 < 2 * 512" using assms(1) by (simp_all add: r_def)
  then have "(off mod 512 + d + 511) div 512 = 1" by (intro div_nat_eqI) simp_all
  then show ?thesis using \<open>r = d\<close> assms(1) by (simp add: nblk_def)
next
  case False
  then have r: "r = 512 - off mod 512" "0 < d - r" by (simp_all add: r_def)
  define q v where "q = off div 512" and "v = off mod 512"
  have o: "off = 512 * q + v" "v < 512" "r = 512 - v" unfolding q_def v_def r(1) by simp_all
  then have "off + r = 512 * (q + 1)" by simp
  then have "(off + r) mod 512 = 0" by (metis mod_mult_self1_is_0)
  moreover have "v + d + 511 = (d - r + 511) + 512" using r(2) o(2,3) by linarith
  ultimately show ?thesis using r(2) assms(1) unfolding nblk_def v_def [symmetric] by simp
qed

lemma first_chunk:
  fixes off d :: nat
  assumes "0 < d"
  defines "r \<equiv> min d (512 - off mod 512)"
  shows "(\<lambda>i. i div BSIZE) ` {off..<off + d} = insert (off div 512) ((\<lambda>i. i div BSIZE) ` {off + r..<off + d})"
    "i div BSIZE = off div 512 \<and> off mod 512 \<le> i mod BSIZE \<and> i mod BSIZE < off mod 512 + r \<longleftrightarrow> off \<le> i \<and> i < off + r"
    "off \<le> i \<Longrightarrow> i < off + r \<Longrightarrow> i mod BSIZE - off mod 512 = i - off"
proof -
  have r: "0 < r" "r \<le> d" "r \<le> 512 - off mod 512" using assms(1) by (simp_all add: r_def)
  have in_chunk: "i div 512 = off div 512 \<and> i mod 512 = off mod 512 + (i - off)" if "off \<le> i" "i < off + r" for i
    by (rule div_same_block [OF that(1) less_le_trans [OF that(2) add_left_mono [OF r(3)]]])
  have "{off..<off + d} = {off..<off + r} \<union> {off + r..<off + d}" using r(2) by auto
  moreover have "(\<lambda>i. i div BSIZE) ` {off..<off + r} = {off div 512}"
  proof -
    have "(\<lambda>i. i div BSIZE) ` {off..<off + r} = (\<lambda>i. off div 512) ` {off..<off + r}"
    proof (rule image_cong [OF refl])
      fix x
      assume "x \<in> {off..<off + r}"
      then show "x div BSIZE = off div 512" using in_chunk [of x] unfolding BSIZE_def atLeastLessThan_iff by blast
    qed
    then show ?thesis using r(1) by (simp add: image_constant_conv)
  qed
  ultimately show "(\<lambda>i. i div BSIZE) ` {off..<off + d} = insert (off div 512) ((\<lambda>i. i div BSIZE) ` {off + r..<off + d})"
    by (simp add: image_Un)
  show "i div BSIZE = off div 512 \<and> off mod 512 \<le> i mod BSIZE \<and> i mod BSIZE < off mod 512 + r \<longleftrightarrow> off \<le> i \<and> i < off + r"
  proof
    assume a: "i div BSIZE = off div 512 \<and> off mod 512 \<le> i mod BSIZE \<and> i mod BSIZE < off mod 512 + r"
    define q u v where "q = off div 512" and "u = i mod 512" and "v = off mod 512"
    have b: "i div 512 = q" "v \<le> u" "u < v + r" using a unfolding q_def u_def v_def BSIZE_def by blast+
    have "512 * (i div 512) + u = i" "512 * q + v = off" unfolding q_def u_def v_def by (rule mult_div_mod_eq)+
    then show "off \<le> i \<and> i < off + r" using b(2,3) unfolding b(1) by linarith
  next
    assume "off \<le> i \<and> i < off + r"
    then show "i div BSIZE = off div 512 \<and> off mod 512 \<le> i mod BSIZE \<and> i mod BSIZE < off mod 512 + r"
      using in_chunk [of i] unfolding BSIZE_def by (metis le_add1 add_less_cancel_left less_diff_conv2 add.commute)
  qed
  show "off \<le> i \<Longrightarrow> i < off + r \<Longrightarrow> i mod BSIZE - off mod 512 = i - off" using in_chunk [of i] by (simp add: BSIZE_def)
qed

lemma writei_loop_spec:
  assumes "tx {} (6 * nblk (unat off) (unat n - unat tot) + k) s" "mapped s ip"
    and "2 * nblk (unat off) (unat n - unat tot) \<le> card (free_blocks s)" "tot \<le> n"
    and "unat off + (unat n - unat tot) \<le> MAXFILE * BSIZE" "unat n - unat tot \<le> length src"
  shows "\<exists>s'. writei_loop ip src off tot n s = Ok (off + (n - tot)) s' \<and> tx {} k s'
    \<and> edits (2 * nblk (unat off) (unat n - unat tot)) ip s s'
    \<and> (\<forall>m<MAXFILE. blk s' ip m \<noteq> 0 \<longleftrightarrow>
         blk s ip m \<noteq> 0 \<or> m \<in> (\<lambda>i. i div BSIZE) ` {unat off..<unat off + (unat n - unat tot)})
    \<and> (\<forall>i<MAXFILE * BSIZE. fval s' ip i =
         (if unat off \<le> i \<and> i < unat off + (unat n - unat tot) then src ! (i - unat off) else fval s ip i))"
  using assms
proof (induction "unat n - unat tot" arbitrary: off tot s src rule: less_induct)
  case less
  show ?case
  proof (cases "tot < n")
    case False
    then have "tot = n" using less.prems(4) by simp
    moreover have "edits 0 ip s s" by (rule grows_edits [OF grows_refl [OF less.prems(2)]])
    ultimately show ?thesis using less.prems(1) by (auto simp: writei_loop.simps nblk_def)
  next
    case True
    let ?m = "chunk off tot n" and ?d = "unat n - unat tot" and ?o = "unat off"
    define r where "r = min ?d (512 - ?o mod 512)"
    note S = off_step [OF True less.prems(5), folded r_def]
    have d0: "0 < ?d" "r \<le> ?d" "r \<le> 512 - ?o mod 512" using S(5) by (simp_all add: r_def)
    have ip: "ip < length (f_inode s)" using mappedD(2) [OF less.prems(2)] by (simp add: inode_ok_def)
    note N = nblk_step [OF d0(1), of ?o, folded r_def] and C = first_chunk [OF d0(1), where off = ?o, folded r_def]
    have bs: "length (take r src) = r" "?o mod 512 + length (take r src) \<le> BSIZE"
      using d0(2,3) less.prems(6) by (simp_all add: BSIZE_def)
    have t: "tx {} (6 + (6 * nblk (?o + r) (?d - r) + k)) s" "2 \<le> card (free_blocks s)"
      using less.prems(1,3) unfolding N by (simp_all add: add.assoc)
    have bn: "unat (off div 512) < MAXFILE" using S(6,7) by simp
    from write_block [OF t(1) less.prems(2) t(2) bn bs(2)] obtain a s1 i s2 s3 s4 where
      w: "bmap ip (off div 512) s = Ok a s1" "i_dev (inodeof s1 ip) = 1" "bread 1 a s1 = Ok i s2"
        "log_write i (set_bdata i (put_bytes (?o mod 512) (take r src) (b_data (bufof s2 i))) s2) = Ok () s3" "brelse i s3 = Ok () s4"
        "tx {} (6 * nblk (?o + r) (?d - r) + k) s4" "edits 2 ip s s4"
        "\<forall>n<MAXFILE. blk s4 ip n \<noteq> 0 \<longleftrightarrow> blk s ip n \<noteq> 0 \<or> n = unat (off div 512)"
        "\<forall>i<MAXFILE * BSIZE. fval s4 ip i =
         (if i div BSIZE = unat (off div 512) \<and> ?o mod 512 \<le> i mod BSIZE \<and> i mod BSIZE < ?o mod 512 + length (take r src)
          then take r src ! (i mod BSIZE - ?o mod 512) else fval s ip i)" by blast
    have rest: "unat n - unat (tot + ?m) = ?d - r" "unat (off + ?m) + (unat n - unat (tot + ?m)) = ?o + ?d"
      unfolding S(2,3) by (rule step_rest, rule d0(2))+
    have h1: "unat n - unat (tot + ?m) < ?d" unfolding rest(1) using S(5) d0(1) by simp
    have h2: "tx {} (6 * nblk (unat (off + ?m)) (unat n - unat (tot + ?m)) + k) s4" unfolding rest(1) S(2) by (rule w(6))
    have h3: "2 * nblk (unat (off + ?m)) (unat n - unat (tot + ?m)) \<le> card (free_blocks s4)"
      unfolding rest(1) S(2) using editsD(8) [OF w(7)] less.prems(3) unfolding N by simp
    have h4: "unat (off + ?m) + (unat n - unat (tot + ?m)) \<le> MAXFILE * BSIZE" unfolding rest(2) by (rule less.prems(5))
    have h5: "unat n - unat (tot + ?m) \<le> length (drop r src)" unfolding rest(1) using less.prems(6) by simp
    obtain s' where s': "writei_loop ip (drop r src) (off + ?m) (tot + ?m) n s4 = Ok (off + ?m + (n - (tot + ?m))) s'" "tx {} k s'"
        "edits (2 * nblk (?o + r) (?d - r)) ip s4 s'"
        "\<forall>m<MAXFILE. blk s' ip m \<noteq> 0 \<longleftrightarrow> blk s4 ip m \<noteq> 0 \<or> m \<in> (\<lambda>i. i div BSIZE) ` {?o + r..<?o + ?d}"
        "\<forall>i<MAXFILE * BSIZE. fval s' ip i = (if ?o + r \<le> i \<and> i < ?o + ?d then drop r src ! (i - (?o + r)) else fval s4 ip i)"
      using less.hyps [OF h1 h2 editsD(5) [OF w(7)] h3 S(4) h4 h5, unfolded rest(2), unfolded rest(1) S(2)] by blast
    have e: "writei_loop ip src off tot n s = Ok (off + (n - tot)) s'"
      using True w(1-5) s'(1) S(1,8) by (subst writei_loop.simps) (simp add: Let_def)
    have ed: "edits (2 * nblk ?o ?d) ip s s'" using edits_trans [OF w(7) s'(3) ip] unfolding N by simp
    have bl: "\<forall>m<MAXFILE. blk s' ip m \<noteq> 0 \<longleftrightarrow> blk s ip m \<noteq> 0 \<or> m \<in> (\<lambda>i. i div BSIZE) ` {?o..<?o + ?d}"
      using s'(4) w(8) S(7) unfolding C(1) by auto
    have "fval s' ip j = (if ?o \<le> j \<and> j < ?o + ?d then src ! (j - ?o) else fval s ip j)" if j: "j < MAXFILE * BSIZE" for j
    proof -
      have "fval s4 ip j = (if ?o \<le> j \<and> j < ?o + r then take r src ! (j mod BSIZE - ?o mod 512) else fval s ip j)"
        using w(9) [rule_format, OF j] unfolding S(7) bs(1) C(2) .
      then have "fval s4 ip j = (if ?o \<le> j \<and> j < ?o + r then src ! (j - ?o) else fval s ip j)"
        using C(3) [of j] by auto
      moreover have "drop r src ! (j - (?o + r)) = src ! (j - ?o)" if "?o + r \<le> j" "j < ?o + ?d"
        using that less.prems(6) by simp
      moreover have "fval s' ip j = (if ?o + r \<le> j \<and> j < ?o + ?d then drop r src ! (j - (?o + r)) else fval s4 ip j)"
        by (rule s'(5) [rule_format, OF j])
      moreover have "?o + r \<le> ?o + ?d" using d0(2) by simp
      ultimately show ?thesis by (cases "?o + r \<le> j"; cases "j < ?o + ?d"; cases "?o \<le> j"; simp)
    qed
    then show ?thesis using e s'(2) ed bl by blast
  qed
qed

lemma mapped_size:
  assumes "mapped s ip"
  shows "mapped (upd_inode ip (\<lambda>i. i\<lparr>i_size := z\<rparr>) s) ip" "addrs (upd_inode ip (\<lambda>i. i\<lparr>i_size := z\<rparr>) s) ip = addrs s ip"
    "data_blocks (upd_inode ip (\<lambda>i. i\<lparr>i_size := z\<rparr>) s) = data_blocks s"
proof -
  have ip: "ip < length (f_inode s)" using mappedD(2) [OF assms] by (simp add: inode_ok_def)
  show a: "addrs (upd_inode ip (\<lambda>i. i\<lparr>i_size := z\<rparr>) s) ip = addrs s ip" using ip by simp
  show d: "data_blocks (upd_inode ip (\<lambda>i. i\<lparr>i_size := z\<rparr>) s) = data_blocks s" by (simp add: data_blocks_def)
  show "mapped (upd_inode ip (\<lambda>i. i\<lparr>i_size := z\<rparr>) s) ip"
    using assms ip by (simp add: mapped_def inode_ok_def d)
qed

lemma store_size:
  fixes z :: uint
  assumes t: "tx {} (Suc k) s" and m: "mapped s ip"
  defines "r \<equiv> upd_inode ip (\<lambda>i. i\<lparr>i_size := z\<rparr>) s"
  shows "\<exists>s'. iupdate ip r = Ok () s' \<and> tx {} k s' \<and> mapped s' ip \<and> f_inode s' = f_inode r \<and> blk s' ip = blk s ip
    \<and> (\<forall>i<MAXFILE * BSIZE. fval s' ip i = fval s ip i) \<and> f_sb s' = f_sb s \<and> used_blocks s' = used_blocks s
    \<and> (\<forall>n < sb_ninodes (f_sb s). n \<noteq> i_inum (inodeof s ip) \<longrightarrow> disk_inode s' n = disk_inode s n)
    \<and> (\<forall>b. b \<notin> inode_blocks (f_sb s) \<longrightarrow> content s' b = content s b)"
proof -
  have ip: "ip < length (f_inode s)" using mappedD(2) [OF m] by (simp add: inode_ok_def)
  note R = mapped_size [OF m, of z, folded r_def] and Mr = mappedD [OF mapped_size(1) [OF m, of z, folded r_def]] and M = mappedD [OF m]
  have v: "content r = content s" "f_sb r = f_sb s" "used_blocks r = used_blocks s" "log_area r = log_area s" "tx {} (Suc k) r"
    "i_inum (inodeof r ip) = i_inum (inodeof s ip)" "disk_inode r = disk_inode s"
    using t ip by (simp_all add: r_def disk_inode_def fun_eq_iff)
  obtain s' where s': "iupdate ip r = Ok () s'" "tx {} k s'" "fs_ok s'" "kept r s'" "used_blocks s' = used_blocks s"
      "\<forall>n < sb_ninodes (f_sb s). n \<noteq> i_inum (inodeof s ip) \<longrightarrow> disk_inode s' n = disk_inode s n"
      "\<forall>b. b \<notin> inode_blocks (f_sb s) \<longrightarrow> content s' b = content s b"
    using iupdate_stores [OF v(5) Mr(1,2)] unfolding v by auto
  note K = kept_fs [OF s'(4)] keptD [OF s'(4)]
  have d: "data_blocks s' = data_blocks s" using s'(5) K v by (simp add: data_blocks_def)
  have a: "addrs s' ip = addrs s ip" using K(2) R(2) by simp
  have c: "content s' b = content s b" if "b \<in> data_blocks s" for b using s'(7) data_blocksD(7) [OF that] by simp
  have i: "addrs s ip ! NDIRECT = 0 \<or> content s' (addrs s ip ! NDIRECT) = content s (addrs s ip ! NDIRECT)"
    using c M(4) by blast
  have b: "blk s' ip = blk s ip" unfolding a by (rule blkmap_cong) (rule i)
  have "map_ok (data_blocks s) (addrs s ip) (content s')"
    using m map_ok_cong [of "addrs s ip" "content s'" "content s" "data_blocks s"] i by (simp add: mapped_def)
  then have "mapped s' ip" using s'(3) Mr(2) K d a by (simp add: mapped_def inode_ok_def)
  moreover have "fval s' ip j = fval s ip j" if "j < MAXFILE * BSIZE" for j
  proof -
    have "j div BSIZE < MAXFILE" using that by (simp add: BSIZE_def less_mult_imp_div_less)
    then show ?thesis using c M(5) unfolding fval_def fbyte_def b by simp
  qed
  ultimately show ?thesis using s' b K v(2) by (intro exI [of _ s']) simp
qed

definition wrote_file :: "nat \<Rightarrow> byte list \<Rightarrow> nat \<Rightarrow> nat \<Rightarrow> 'z fstate_scheme \<Rightarrow> 'z fstate_scheme \<Rightarrow> bool" where
  "wrote_file ip src off n s s' \<longleftrightarrow> file_ok s' ip \<and> unat (i_size (inodeof s' ip)) = max (unat (i_size (inodeof s ip))) (off + n)
     \<and> (\<forall>i < unat (i_size (inodeof s' ip)). fbyte s' ip i = (if off \<le> i \<and> i < off + n then src ! (i - off) else fbyte s ip i))
     \<and> (\<forall>x\<in>used_blocks s. x \<notin> bitmap_blocks (f_sb s) \<union> inode_blocks (f_sb s) \<union> own (addrs s ip) (content s) \<longrightarrow>
          content s' x = content s x)
     \<and> (\<forall>m < sb_ninodes (f_sb s). m \<noteq> i_inum (inodeof s ip) \<longrightarrow> disk_inode s' m = disk_inode s m)
     \<and> i_type (inodeof s' ip) = i_type (inodeof s ip)"

lemma edits_inodes:
  assumes "edits j ip s s'" "mapped s ip" "n < sb_ninodes (f_sb s)"
  shows "disk_inode s' n = disk_inode s n"
proof -
  note E = editsD [OF assms(1)] and M = mappedD [OF assms(2)]
  let ?B = "IBLOCK n (f_sb s)"
  note D = fs_okD [OF M(1)]
  have u: "?B \<in> used_blocks s" "?B \<notin> bitmap_blocks (f_sb s)" using D(9,11,13) [OF assms(3)] by (simp_all add: used_blocks_def)
  have "?B \<in> inode_blocks (f_sb s)" using assms(3) by (simp add: inode_blocks_def)
  moreover have "own (addrs s ip) (content s) \<subseteq> data_blocks s" using assms(2) by (simp add: mapped_def map_ok_def)
  ultimately have "?B \<notin> own (addrs s ip) (content s)" by (auto simp: data_blocks_def)
  then show ?thesis using E(1) E(10) [OF u] by (simp add: disk_inode_def)
qed

text \<open>The bytes of a file below its size are those of the block map.\<close>

lemma fval_fbyte: "file_ok s ip \<Longrightarrow> i < unat (i_size (inodeof s ip)) \<Longrightarrow> fval s ip i = fbyte s ip i"
proof -
  assume f: "file_ok s ip" and i: "i < unat (i_size (inodeof s ip))"
  have "i div BSIZE * BSIZE < unat (i_size (inodeof s ip))" using i by (rule le_less_trans [OF div_times_less_eq_dividend])
  then show ?thesis using f by (simp add: file_ok_def fval_def)
qed

lemma no_holes:
  assumes f: "file_ok s ip" and off: "off \<le> unat (i_size (inodeof s ip))" "off + n \<le> MAXFILE * BSIZE"
    and b: "\<forall>m<MAXFILE. blk s' ip m \<noteq> 0 \<longleftrightarrow> blk s ip m \<noteq> 0 \<or> m \<in> (\<lambda>i. i div BSIZE) ` {off..<off + n}"
    and m: "m * BSIZE < max (unat (i_size (inodeof s ip))) (off + n)"
  shows "blk s' ip m \<noteq> 0"
proof -
  have F: "unat (i_size (inodeof s ip)) \<le> MAXFILE * BSIZE" "m * BSIZE < unat (i_size (inodeof s ip)) \<Longrightarrow> blk s ip m \<noteq> 0"
    using f by (simp_all add: file_ok_def)
  have "m * BSIZE < MAXFILE * BSIZE" using m F(1) off(2) by linarith
  then have mm: "m < MAXFILE" by simp
  show ?thesis
  proof (cases "m * BSIZE < unat (i_size (inodeof s ip))")
    case True
    then show ?thesis using b mm F(2) by simp
  next
    case False
    then have "m * BSIZE \<in> {off..<off + n}" "m * BSIZE div BSIZE = m" using m off(1) by (simp_all add: BSIZE_def)
    then have "m \<in> (\<lambda>i. i div BSIZE) ` {off..<off + n}" by (metis image_eqI)
    then show ?thesis using b mm by simp
  qed
qed

lemma wrote_fileI:
  assumes f: "file_ok s ip" and off: "off \<le> unat (i_size (inodeof s ip))" "off + n \<le> MAXFILE * BSIZE"
    and e: "edits j ip s s1"
    and b: "\<forall>m<MAXFILE. blk s1 ip m \<noteq> 0 \<longleftrightarrow> blk s ip m \<noteq> 0 \<or> m \<in> (\<lambda>i. i div BSIZE) ` {off..<off + n}"
    and v: "\<forall>i<MAXFILE * BSIZE. fval s1 ip i = (if off \<le> i \<and> i < off + n then src ! (i - off) else fval s ip i)"
    and m': "mapped s' ip" "blk s' ip = blk s1 ip" "\<forall>i<MAXFILE * BSIZE. fval s' ip i = fval s1 ip i"
    and sz: "unat (i_size (inodeof s' ip)) = max (unat (i_size (inodeof s ip))) (off + n)"
    and ty: "i_type (inodeof s' ip) = i_type (inodeof s ip)"
    and d: "\<forall>m < sb_ninodes (f_sb s1). m \<noteq> i_inum (inodeof s ip) \<longrightarrow> disk_inode s' m = disk_inode s1 m"
    and c: "\<forall>x. x \<notin> inode_blocks (f_sb s1) \<longrightarrow> content s' x = content s1 x"
  shows "wrote_file ip src off n s s'"
proof -
  note E = editsD [OF e]
  have F: "mapped s ip" "unat (i_size (inodeof s ip)) \<le> MAXFILE * BSIZE" using f by (simp_all add: file_ok_def)
  have lim: "unat (i_size (inodeof s' ip)) \<le> MAXFILE * BSIZE" using F(2) off(2) sz by simp
  have f': "file_ok s' ip" using m'(1,2) lim no_holes [OF f off b] sz by (simp add: file_ok_def)
  have "fbyte s' ip i = (if off \<le> i \<and> i < off + n then src ! (i - off) else fbyte s ip i)"
    if i: "i < unat (i_size (inodeof s' ip))" for i
  proof -
    have "i < MAXFILE * BSIZE" using i lim by (rule less_le_trans)
    then have "fbyte s' ip i = (if off \<le> i \<and> i < off + n then src ! (i - off) else fval s ip i)"
      using fval_fbyte [OF f' i] m'(3) v by simp
    moreover have "\<not> (off \<le> i \<and> i < off + n) \<Longrightarrow> i < unat (i_size (inodeof s ip))" using i sz off(1) by linarith
    ultimately show ?thesis using fval_fbyte [OF f] by auto
  qed
  moreover have "content s' x = content s x"
    if "x \<in> used_blocks s" "x \<notin> bitmap_blocks (f_sb s) \<union> inode_blocks (f_sb s) \<union> own (addrs s ip) (content s)" for x
    using that c E(1) E(10) [of x] by simp
  moreover have "disk_inode s' m = disk_inode s m" if "m < sb_ninodes (f_sb s)" "m \<noteq> i_inum (inodeof s ip)" for m
    using that d E(1) edits_inodes [OF e F(1) that(1)] by simp
  ultimately show ?thesis using f' sz ty unfolding wrote_file_def by blast
qed

lemma writei_spec:
  assumes t: "tx {} (6 * nblk (unat off) (unat n) + Suc k) s" and f: "file_ok s ip" and ty: "i_type (inodeof s ip) \<noteq> T_DEV"
    and off: "off \<le> i_size (inodeof s ip)" "unat off + unat n \<le> MAXFILE * BSIZE" and src: "unat n \<le> length src"
    and free: "2 * nblk (unat off) (unat n) \<le> card (free_blocks s)"
  shows "\<exists>s'. writei dw ip src off n s = Ok (int (unat n)) s' \<and> tx {} k s' \<and> wrote_file ip src (unat off) (unat n) s s'"
proof -
  let ?sz = "i_size (inodeof s ip)"
  have F: "mapped s ip" "unat ?sz \<le> MAXFILE * BSIZE" using f by (simp_all add: file_ok_def)
  have ip: "ip < length (f_inode s)" using mappedD(2) [OF F(1)] by (simp add: inode_ok_def)
  have lim: "MAXFILE * BSIZE = 71680" by (simp add: MAXFILE_def NDIRECT_def NINDIRECT_def BSIZE_def)
  have u: "unat (off + n) = unat off + unat n" using off(2) unfolding lim by (simp add: unat_word_ariths)
  have nov: "\<not> off + n < off" "\<not> off + n > of_nat (MAXFILE * BSIZE)" "\<not> off > ?sz"
    using u off unfolding lim by (simp_all add: word_less_nat_alt word_le_nat_alt)
  have sn: "sint n = int (unat n)" using off(2) unfolding lim by (intro sint_uint_small) simp
  obtain s1 where s1: "writei_loop ip src off 0 n s = Ok (off + n) s1" "tx {} (Suc k) s1" "edits (2 * nblk (unat off) (unat n)) ip s s1"
      "\<forall>m<MAXFILE. blk s1 ip m \<noteq> 0 \<longleftrightarrow> blk s ip m \<noteq> 0 \<or> m \<in> (\<lambda>i. i div BSIZE) ` {unat off..<unat off + unat n}"
      "\<forall>i<MAXFILE * BSIZE. fval s1 ip i = (if unat off \<le> i \<and> i < unat off + unat n then src ! (i - unat off) else fval s ip i)"
    using writei_loop_spec [of off n 0 "Suc k" s ip src] t F(1) free off(2) src by auto
  note E = editsD [OF s1(3)] and Ef = edits_fields [OF s1(3) ip]
  have ty1: "i_type (inodeof s1 ip) = i_type (inodeof s ip)" "i_inum (inodeof s1 ip) = i_inum (inodeof s ip)"
    by (subst Ef(1), simp)+
  have w: "writei dw ip src off n s =
      (if n > 0 \<and> off + n > ?sz then bindk (iupdate ip (upd_inode ip (\<lambda>i. i\<lparr>i_size := off + n\<rparr>) s1)) (\<lambda>_ s. Ok (sint n) s)
       else Ok (sint n) s1)"
    using ty nov s1(1) Ef(4) by (simp add: writei_def Let_def)
  have o: "unat off \<le> unat ?sz" using off(1) by (simp add: word_le_nat_alt)
  note I = wrote_fileI [OF f o off(2) s1(3,4,5)]
  show ?thesis
  proof (cases "n > 0 \<and> off + n > ?sz")
    case False
    then have "unat off + unat n \<le> unat ?sz" using u o by (auto simp: word_less_nat_alt)
    then have "wrote_file ip src (unat off) (unat n) s s1" using E(5) ty1(1) Ef(4) by (intro I) simp_all
    moreover have "tx {} k s1" using s1(2) by (rule tx_less) simp
    ultimately show ?thesis using w False sn by auto
  next
    case True
    then have b: "unat ?sz < unat off + unat n" using u by (simp add: word_less_nat_alt)
    obtain s' where s': "iupdate ip (upd_inode ip (\<lambda>i. i\<lparr>i_size := off + n\<rparr>) s1) = Ok () s'" "tx {} k s'" "mapped s' ip"
        "f_inode s' = f_inode (upd_inode ip (\<lambda>i. i\<lparr>i_size := off + n\<rparr>) s1)" "blk s' ip = blk s1 ip"
        "\<forall>i<MAXFILE * BSIZE. fval s' ip i = fval s1 ip i"
        "\<forall>m < sb_ninodes (f_sb s1). m \<noteq> i_inum (inodeof s1 ip) \<longrightarrow> disk_inode s' m = disk_inode s1 m"
        "\<forall>x. x \<notin> inode_blocks (f_sb s1) \<longrightarrow> content s' x = content s1 x"
      using store_size [OF s1(2) E(5), of "off + n"] by blast
    have i': "inodeof s' ip = (inodeof s1 ip)\<lparr>i_size := off + n\<rparr>" using s'(4) ip Ef(2) by simp
    have "wrote_file ip src (unat off) (unat n) s s'"
      using s'(3,5,6,8) s'(7)[unfolded ty1(2)] b u ty1(1) by (intro I) (simp_all add: i')
    then show ?thesis using w True sn s'(1,2) by auto
  qed
qed

text \<open>Claim C3.  Files store what is written to them.  In a transaction with room for the log writes of the
  blocks touched (six for a block whose map entry is missing, one for the inode) and enough free blocks,
  \<^verbatim>\<open>writei\<close> at an offset within a file writes all \<open>n\<close> bytes: the file is still well formed, its size
  is the larger of the old size and the end of the write, each of its bytes below that size is the written
  byte inside the range and the old byte outside it, no allocated block of anything else and no other inode
  of the disk changes; and \<^verbatim>\<open>readi\<close> of the range then returns exactly the bytes written.\<close>

theorem file_write_read:
  assumes t: "tx {} (6 * nblk (unat off) (unat n) + Suc k) s" and f: "file_ok s ip" and ty: "i_type (inodeof s ip) \<noteq> T_DEV"
    and off: "off \<le> i_size (inodeof s ip)" "unat off + unat n \<le> MAXFILE * BSIZE" and src: "unat n \<le> length src"
    and free: "2 * nblk (unat off) (unat n) \<le> card (free_blocks s)"
  shows "\<exists>s1. writei dw ip src off n s = Ok (int (unat n)) s1 \<and> tx {} k s1 \<and> wrote_file ip src (unat off) (unat n) s s1
    \<and> (\<exists>s2. readi dr ip off n s1 = Ok (int (unat n), take (unat n) src) s2 \<and> content s2 = content s1)"
proof -
  obtain s1 where s1: "writei dw ip src off n s = Ok (int (unat n)) s1" "tx {} k s1" "wrote_file ip src (unat off) (unat n) s s1"
    using writei_spec [OF assms] by blast
  have W: "file_ok s1 ip" "unat (i_size (inodeof s1 ip)) = max (unat (i_size (inodeof s ip))) (unat off + unat n)"
      "\<forall>i < unat (i_size (inodeof s1 ip)). fbyte s1 ip i =
         (if unat off \<le> i \<and> i < unat off + unat n then src ! (i - unat off) else fbyte s ip i)"
      "i_type (inodeof s1 ip) \<noteq> T_DEV"
    using s1(3) ty by (simp_all add: wrote_file_def)
  have "MAXFILE * BSIZE = 71680" by (simp add: MAXFILE_def NDIRECT_def NINDIRECT_def BSIZE_def)
  then have o: "off \<le> off + n" using off(2) by (simp add: word_le_nat_alt unat_word_ariths)
  have o': "off \<le> i_size (inodeof s1 ip)" using W(2) by (simp add: word_le_nat_alt)
  have r: "min (unat n) (unat (i_size (inodeof s1 ip)) - unat off) = unat n" using W(2) by simp
  have "map (fbyte s1 ip) [unat off..<unat off + unat n] = take (unat n) src"
    using src W(2,3) by (intro nth_equalityI) simp_all
  then show ?thesis using s1 readi_spec [OF s1(2) W(1,4) o' o, of dr, unfolded r] by auto
qed

lemma demo_file_ok: "file_ok demo_fs 0" "i_size (inodeof demo_fs 0) = 0" "i_type (inodeof demo_fs 0) \<noteq> T_DEV"
proof -
  have z: "blkmap (replicate 13 0) c m = 0" if "m < MAXFILE" for c m
    using that by (simp add: blkmap_def NDIRECT_def)
  then have "map_ok (data_blocks demo_fs) (addrs demo_fs 0) (content demo_fs)"
    by (auto simp: map_ok_def own_def demo_fs_fields demo_inode_def NDIRECT_def)
  then show "file_ok demo_fs 0" "i_size (inodeof demo_fs 0) = 0" "i_type (inodeof demo_fs 0) \<noteq> T_DEV"
    using demo_fs_ok demo_inode_ok by (simp_all add: file_ok_def mapped_def demo_fs_fields demo_inode_def T_FILE_def T_DEV_def)
qed

lemma demo_free: "2 \<le> card (free_blocks demo_fs)"
proof -
  have "{998, 999} \<subseteq> free_blocks demo_fs"
    using demo_used [of 998] demo_used [of 999] by (simp add: free_blocks_def used_blocks_def demo_fs_fields demo_fs_cache)
  then have "card {998, 999 :: uint} \<le> card (free_blocks demo_fs)" by (rule card_mono [rotated]) simp
  then show ?thesis by simp
qed

theorem file_write_read_witness:
  "\<exists>s1 s2. writei (\<lambda>_. None) 0 [104, 105, 10] 0 3 demo_fs = Ok 3 s1 \<and> unat (i_size (inodeof s1 0)) = 3
    \<and> readi (\<lambda>_. None) 0 0 3 s1 = Ok (3, [104, 105, 10]) s2"
proof -
  have t: "tx {} (6 * nblk (unat (0 :: uint)) (unat (3 :: uint)) + Suc 22) demo_fs" using demo_fs_tx by (simp add: nblk_def)
  have "\<exists>s1. writei (\<lambda>_. None) 0 [104, 105, 10] 0 3 demo_fs = Ok (int (unat (3 :: uint))) s1 \<and> tx {} 22 s1
    \<and> wrote_file 0 [104, 105, 10] (unat (0 :: uint)) (unat (3 :: uint)) demo_fs s1
    \<and> (\<exists>s2. readi (\<lambda>_. None) 0 0 3 s1 = Ok (int (unat (3 :: uint)), take (unat (3 :: uint)) [104, 105, 10]) s2 \<and> content s2 = content s1)"
    using demo_free by (intro file_write_read [OF t demo_file_ok(1,3)])
      (simp_all add: demo_file_ok(2) nblk_def MAXFILE_def NDIRECT_def NINDIRECT_def BSIZE_def)
  then show ?thesis using demo_file_ok(2) by (auto simp: wrote_file_def)
qed

end
