(* ===== verification/Network.thy ===== *)
theory Network
  imports Main
begin

text \<open>
  Processes that communicate over pipes only. A process is deterministic: its local state says whether
  it writes, reads or has stopped. A pipe has one writer and one reader; a read waits for a message.

  The locale \<open>pipe_network\<close> states that ownership discipline; its lemmas show that the schedule does not
  matter: if one execution comes to a state with no further step, every execution has the same
  number of steps and comes to the same state.
\<close>

datatype ('p, 'm) act = Send 'p 'm | Recv 'p | Halt

inductive net_step :: "(nat \<Rightarrow> 'l \<Rightarrow> ('p, 'm) act) \<Rightarrow> (nat \<Rightarrow> 'l \<Rightarrow> 'm option \<Rightarrow> 'l) \<Rightarrow>
    (nat \<Rightarrow> 'l) \<times> ('p \<Rightarrow> 'm list) \<Rightarrow> (nat \<Rightarrow> 'l) \<times> ('p \<Rightarrow> 'm list) \<Rightarrow> bool"
  for act resume where
  send: "act i (l i) = Send p m \<Longrightarrow> net_step act resume (l, q) (l(i := resume i (l i) None), q(p := q p @ [m]))"
| recv: "act i (l i) = Recv p \<Longrightarrow> q p = m # ms \<Longrightarrow> net_step act resume (l, q) (l(i := resume i (l i) (Some m)), q(p := ms))"

text \<open>The step of a given process.\<close>

definition proc_step :: "(nat \<Rightarrow> 'l \<Rightarrow> ('p, 'm) act) \<Rightarrow> (nat \<Rightarrow> 'l \<Rightarrow> 'm option \<Rightarrow> 'l) \<Rightarrow> nat \<Rightarrow>
    (nat \<Rightarrow> 'l) \<times> ('p \<Rightarrow> 'm list) \<Rightarrow> ((nat \<Rightarrow> 'l) \<times> ('p \<Rightarrow> 'm list)) option" where
  "proc_step act resume i s = (case s of (l, q) \<Rightarrow>
     (case act i (l i) of
        Send p m \<Rightarrow> Some (l(i := resume i (l i) None), q(p := q p @ [m]))
      | Recv p \<Rightarrow> (case q p of [] \<Rightarrow> None | m # ms \<Rightarrow> Some (l(i := resume i (l i) (Some m)), q(p := ms)))
      | Halt \<Rightarrow> None))"

lemma net_step_proc: "net_step act resume s t \<longleftrightarrow> (\<exists>i. proc_step act resume i s = Some t)"
proof
  assume "net_step act resume s t"
  then show "\<exists>i. proc_step act resume i s = Some t"
  proof (cases rule: net_step.cases)
    case (send i l p m q)
    then show ?thesis by (intro exI [of _ i]) (simp add: proc_step_def)
  next
    case (recv i l p q m ms)
    then show ?thesis by (intro exI [of _ i]) (simp add: proc_step_def)
  qed
next
  assume "\<exists>i. proc_step act resume i s = Some t"
  then obtain i where i: "proc_step act resume i s = Some t" ..
  obtain l q where s: "s = (l, q)" by (cases s)
  show "net_step act resume s t"
    using i unfolding s by (auto simp: proc_step_def split: act.splits list.splits intro: net_step.intros)
qed

locale pipe_network =
  fixes act :: "nat \<Rightarrow> 'l \<Rightarrow> ('p, 'm) act"
    and resume :: "nat \<Rightarrow> 'l \<Rightarrow> 'm option \<Rightarrow> 'l"
    and writer :: "'p \<Rightarrow> nat"
    and reader :: "'p \<Rightarrow> nat"
  assumes send_owner: "act i l = Send p m \<Longrightarrow> writer p = i"
    and recv_owner: "act i l = Recv p \<Longrightarrow> reader p = i"
begin

lemma commute:
  assumes "proc_step act resume i s = Some a" "proc_step act resume j s = Some b" "i \<noteq> j"
  shows "\<exists>c. proc_step act resume j a = Some c \<and> proc_step act resume i b = Some c"
proof -
  obtain l q where s: "s = (l, q)" by (cases s)
  show ?thesis
    using assms send_owner [of i "l i"] send_owner [of j "l j"] recv_owner [of i "l i"] recv_owner [of j "l j"]
    unfolding s
    by (auto simp: proc_step_def fun_upd_twist split: act.splits list.splits)
qed

lemma diamond:
  assumes "net_step act resume s a" "net_step act resume s b" "a \<noteq> b"
  shows "\<exists>c. net_step act resume a c \<and> net_step act resume b c"
  using assms commute unfolding net_step_proc by (metis option.inject)

lemma run_shorter:
  assumes "(net_step act resume ^^ n) s t" "\<forall>u. \<not> net_step act resume t u" "net_step act resume s s'"
  shows "0 < n \<and> (net_step act resume ^^ (n - 1)) s' t"
  using assms
proof (induction n arbitrary: s s')
  case (Suc n)
  obtain s1 where s1: "net_step act resume s s1" "(net_step act resume ^^ n) s1 t"
    using Suc.prems(1) by (meson relpowp_Suc_D2)
  show ?case
  proof (cases "s1 = s'")
    case False
    then obtain c where c: "net_step act resume s1 c" "net_step act resume s' c"
      using diamond s1(1) Suc.prems(3) by blast
    then have "0 < n" "(net_step act resume ^^ (n - 1)) c t" using Suc.IH s1(2) Suc.prems(2) by blast+
    then show ?thesis using c(2) relpowp_Suc_I2 [of "net_step act resume" s' c "n - 1" t] by simp
  qed (use s1 in simp)
qed auto

text \<open>Every execution is a beginning of one with the same length and the same end.\<close>

lemma all_runs:
  assumes "(net_step act resume ^^ n) s t" "\<forall>u. \<not> net_step act resume t u" "(net_step act resume ^^ k) s s'"
  shows "k \<le> n \<and> (net_step act resume ^^ (n - k)) s' t"
  using assms
proof (induction k arbitrary: n s)
  case (Suc k)
  obtain s1 where s1: "net_step act resume s s1" "(net_step act resume ^^ k) s1 s'"
    using Suc.prems(3) by (meson relpowp_Suc_D2)
  have n: "0 < n" "(net_step act resume ^^ (n - 1)) s1 t" using run_shorter [OF Suc.prems(1,2) s1(1)] by auto
  then have "k \<le> n - 1 \<and> (net_step act resume ^^ (n - 1 - k)) s' t" using Suc.IH [OF _ Suc.prems(2) s1(2)] by blast
  then show ?case using n(1) by auto
qed auto

end

end
