(* ===== verification/Jacobi.thy ===== *)
theory Jacobi
  imports Network Strings
begin

text \<open>
  The parallel Jacobi solver \<^verbatim>\<open>jacob.c\<close> (and \<^verbatim>\<open>jacoblinux.c\<close>, which has the same code after reading its
  input): the parent and its forked children as a network of processes over pipes.

  Floating-point arithmetic is a parameter, a record of operations. A matrix is a function from row and
  column, a message one \<^verbatim>\<open>write\<close> of a row, a difference or an order. A child's state is its program
  counter with its own copy of \<^verbatim>\<open>u\<close>. Closing pipe ends and \<^verbatim>\<open>wait\<close> exchange no data and are not steps;
  a pipe has room for what its writer is ahead of its reader, and every \<^verbatim>\<open>pipe\<close> and \<^verbatim>\<open>fork\<close> succeeds.
  The parent's counter is an \<open>int\<close>: it stays at most \<open>L + 1\<close>, so it is the C \<^verbatim>\<open>int\<close> for every
  \<open>L\<close> below the largest one.
\<close>

subsection \<open>Numbers and input\<close>

record 'f fops =
  fadd :: "'f \<Rightarrow> 'f \<Rightarrow> 'f"
  fsub :: "'f \<Rightarrow> 'f \<Rightarrow> 'f"
  fmul :: "'f \<Rightarrow> 'f \<Rightarrow> 'f"
  fdiv :: "'f \<Rightarrow> 'f \<Rightarrow> 'f"
  fquot :: "'f \<Rightarrow> int \<Rightarrow> 'f"
  fless :: "'f \<Rightarrow> 'f \<Rightarrow> bool"
  fle :: "'f \<Rightarrow> 'f \<Rightarrow> bool"
  fint :: "int \<Rightarrow> 'f"
  ftrunc :: "'f \<Rightarrow> int"

text \<open>
  \<^verbatim>\<open>fquot\<close> is the division by a number that the code writes as a \<^verbatim>\<open>double\<close>, rounded back to \<^verbatim>\<open>float\<close>; \<^verbatim>\<open>fint\<close>
  and \<^verbatim>\<open>ftrunc\<close> are the conversions. Of the comparisons the proofs use what IEEE 754 says: a NaN is the
  only value not \<open>\<le>\<close> itself, a NaN is never less or greater, and the other values are weakly ordered.
\<close>

definition ieee_order :: "'f fops \<Rightarrow> bool" where
  "ieee_order F \<longleftrightarrow>
     (\<forall>a b. fless F a b \<longrightarrow> fle F a a \<and> fle F b b \<and> \<not> fless F b a) \<and>
     (\<forall>a b c. fless F a b \<and> fle F c c \<longrightarrow> fless F a c \<or> fless F c b) \<and>
     fle F (fint F 0) (fint F 0)"

definition fabsm :: "'f fops \<Rightarrow> 'f \<Rightarrow> 'f" where
  "fabsm F a = (if fless F a (fint F 0) then fmul F (fint F (-1)) a else a)"

text \<open>
  The input is the bytes left in the file. \<^verbatim>\<open>readINT\<close> stops at a newline or at the end of the file.
\<close>

definition digit :: "byte \<Rightarrow> int" where
  "digit c = sint c - 48"

fun readINT :: "uint \<Rightarrow> byte list \<Rightarrow> uint \<times> byte list" where
  "readINT num [] = (num, [])"
| "readINT num (c # cs) = (if c = 10 then (num, cs) else readINT (num * 10 + of_int (digit c)) cs)"

text \<open>
  \<^verbatim>\<open>readFLOAT\<close> does not look at the result of \<^verbatim>\<open>read\<close>: at the end of the file the character read last
  is used again. \<open>None\<close> is a call that does not return.
\<close>

partial_function (option) readFLOAT_loop ::
  "'f fops \<Rightarrow> byte \<Rightarrow> 'f \<Rightarrow> 'f \<Rightarrow> bool \<Rightarrow> byte list \<Rightarrow> ('f \<times> byte list) option" where
  "readFLOAT_loop F c0 num deci sw inp =
     (let c = (case inp of [] \<Rightarrow> c0 | c # _ \<Rightarrow> c); rest = tl inp in
      if c = 10 then Some (num, rest)
      else if c = 46 then readFLOAT_loop F c num deci True rest
      else if \<not> sw then readFLOAT_loop F c (fadd F (fmul F num (fint F 10)) (fint F (digit c))) deci sw rest
      else readFLOAT_loop F c (fadd F num (fdiv F (fint F (digit c)) deci)) (fmul F deci (fint F 10)) sw rest)"

definition readFLOAT :: "'f fops \<Rightarrow> byte \<Rightarrow> byte list \<Rightarrow> ('f \<times> byte list) option" where
  "readFLOAT F junk inp = readFLOAT_loop F junk (fint F 0) (fint F 10) False inp"

subsection \<open>The grid\<close>

type_synonym 'f row = "nat \<Rightarrow> 'f"
type_synonym 'f matrix = "nat \<Rightarrow> 'f row"

definition put_cell :: "nat \<Rightarrow> nat \<Rightarrow> 'f \<Rightarrow> 'f matrix \<Rightarrow> 'f matrix" where
  "put_cell i j v u = u(i := (u i)(j := v))"

definition border_step :: "'f fops \<Rightarrow> nat \<Rightarrow> 'f \<Rightarrow> nat \<Rightarrow> 'f matrix \<times> 'f \<Rightarrow> 'f matrix \<times> 'f" where
  "border_step F N T i s = (case s of (u, mean) \<Rightarrow>
     let u = put_cell (N - 1) i (fint F 0) (put_cell i 0 T (put_cell i (N - 1) T (put_cell 0 i T u)))
     in (u, fadd F mean (fadd F (fadd F (fadd F (u i 0) (u i (N - 1))) (u 0 i)) (u (N - 1) i))))"

definition cells :: "nat \<Rightarrow> nat \<Rightarrow> nat \<Rightarrow> (nat \<times> nat) list" where
  "cells N st en = concat (map (\<lambda>i. map (\<lambda>j. (i, j)) [1..<N - 1]) [st..<Suc en])"

definition init_grid :: "'f fops \<Rightarrow> nat \<Rightarrow> 'f \<Rightarrow> 'f matrix \<Rightarrow> 'f matrix" where
  "init_grid F N T u0 =
     (let (u, mean) = fold (border_step F N T) [0..<N] (u0, fint F 0);
          mean = fquot F mean (4 * int N)
      in fold (\<lambda>(i, j). put_cell i j mean) (cells N 1 (N - 2)) u)"

text \<open>One sweep over the rows \<open>st\<close> to \<open>en\<close>: new values and the largest difference, then the copy.\<close>

definition cell_value :: "'f fops \<Rightarrow> 'f matrix \<Rightarrow> nat \<Rightarrow> nat \<Rightarrow> 'f" where
  "cell_value F u i j =
     fquot F (fadd F (fadd F (fadd F (u (i - 1) j) (u (i + 1) j)) (u i (j - 1))) (u i (j + 1))) 4"

definition sweep_cell :: "'f fops \<Rightarrow> 'f matrix \<Rightarrow> nat \<times> nat \<Rightarrow> 'f matrix \<times> 'f \<Rightarrow> 'f matrix \<times> 'f" where
  "sweep_cell F u c s = (case c of (i, j) \<Rightarrow> case s of (w, diff) \<Rightarrow>
     let w = put_cell i j (cell_value F u i j) w; d = fabsm F (fsub F (w i j) (u i j))
     in (w, if fless F diff d then d else diff))"

definition sweep :: "'f fops \<Rightarrow> nat \<Rightarrow> nat \<Rightarrow> nat \<Rightarrow> 'f matrix \<Rightarrow> 'f matrix \<Rightarrow> 'f matrix \<times> 'f matrix \<times> 'f" where
  "sweep F N st en w u =
     (let (w, diff) = fold (sweep_cell F u) (cells N st en) (w, fint F 0)
      in (w, fold (\<lambda>(i, j). put_cell i j (w i j)) (cells N st en) u, diff))"

subsection \<open>Dividing the rows\<close>

definition works :: "nat \<Rightarrow> nat \<Rightarrow> nat list" where
  "works N P = fold (\<lambda>i ws. ws[i mod P := ws ! (i mod P) + 1]) [0..<N - 2] (replicate P 0)"

fun ranges :: "nat \<Rightarrow> nat list \<Rightarrow> (nat \<times> nat) list" where
  "ranges st [] = []"
| "ranges st (w # ws) = (let en = st + w - 1 in (st, en) # ranges (en + 1) ws)"

definition unused :: "(nat \<times> nat) list \<Rightarrow> nat" where
  "unused rs = length (filter (\<lambda>(st, en). st > en) (tl rs))"

record 'f job =
  jb_ops :: "'f fops"
  jb_N :: nat
  jb_E :: 'f
  jb_L :: int
  jb_P :: nat
  jb_rng :: "(nat \<times> nat) list"

definition mk_job :: "'f fops \<Rightarrow> nat \<Rightarrow> 'f \<Rightarrow> nat \<Rightarrow> int \<Rightarrow> 'f job" where
  "mk_job F N E P L =
     (let rs = ranges 1 (works N P)
      in \<lparr>jb_ops = F, jb_N = N, jb_E = E, jb_L = L, jb_P = P - unused rs, jb_rng = rs\<rparr>)"

text \<open>\<^verbatim>\<open>jacob.c\<close> takes one process less for one size of the problem.\<close>

definition jacob_P :: "nat \<Rightarrow> nat \<Rightarrow> nat" where
  "jacob_P N P = (if P = 8 \<and> N = 20 then P - 1 else P)"

datatype 'f start = Print "int list list" | Fork "'f job" "'f matrix"

definition print_grid :: "'f fops \<Rightarrow> nat \<Rightarrow> 'f matrix \<Rightarrow> int list list" where
  "print_grid F N u = map (\<lambda>i. map (\<lambda>j. ftrunc F (u i j)) [0..<N]) [0..<N]"

text \<open>\<^verbatim>\<open>main\<close> up to the forks. \<open>junk\<close> is what the stack holds where \<^verbatim>\<open>u\<close> is allocated.\<close>

definition jacob_setup :: "'f fops \<Rightarrow> nat \<Rightarrow> 'f \<Rightarrow> 'f \<Rightarrow> nat \<Rightarrow> int \<Rightarrow> 'f matrix \<Rightarrow> 'f start" where
  "jacob_setup F N E T P L junk =
     (let P = jacob_P N P; u = init_grid F N T junk in
      if N \<le> 2 then Print (print_grid F N u) else Fork (mk_job F N E P L) u)"

abbreviation st_of :: "'f job \<Rightarrow> nat \<Rightarrow> nat" where "st_of J k \<equiv> fst (jb_rng J ! k)"
abbreviation en_of :: "'f job \<Rightarrow> nat \<Rightarrow> nat" where "en_of J k \<equiv> snd (jb_rng J ! k)"

subsection \<open>The processes\<close>

datatype pname = PC nat | CP nat | Up nat | Down nat
datatype 'f msg = MRow "'f row" | MDiff 'f | MOrder int

datatype cpc = SendUp | SendDown | RecvUp | RecvDown | SendDiff | RecvOrder | SendRow nat | CHalt
datatype ppc = RecvDiff nat | SendOrder nat | SendDone nat | RecvRow nat nat | PHalt

record 'f child =
  c_pc :: cpc
  c_u :: "'f matrix"
  c_w :: "'f matrix"
  c_diff :: 'f

record 'f parent =
  pa_pc :: ppc
  pa_u :: "'f matrix"
  pa_recv :: "'f list"
  pa_count :: int

datatype 'f local = Par "'f parent" | Chd "'f child"

text \<open>Child \<open>k\<close>: where control goes after each point of the loop body.\<close>

definition to_diff :: "'f job \<Rightarrow> nat \<Rightarrow> 'f child \<Rightarrow> 'f child" where
  "to_diff J k c =
     (case sweep (jb_ops J) (jb_N J) (st_of J k) (en_of J k) (c_w c) (c_u c) of
        (w, u, d) \<Rightarrow> c\<lparr>c_pc := SendDiff, c_u := u, c_w := w, c_diff := d\<rparr>)"

definition to_recv_down :: "'f job \<Rightarrow> nat \<Rightarrow> 'f child \<Rightarrow> 'f child" where
  "to_recv_down J k c = (if k + 1 < jb_P J then c\<lparr>c_pc := RecvDown\<rparr> else to_diff J k c)"

definition to_recv_up :: "'f job \<Rightarrow> nat \<Rightarrow> 'f child \<Rightarrow> 'f child" where
  "to_recv_up J k c = (if 1 \<le> k then c\<lparr>c_pc := RecvUp\<rparr> else to_recv_down J k c)"

definition to_send_down :: "'f job \<Rightarrow> nat \<Rightarrow> 'f child \<Rightarrow> 'f child" where
  "to_send_down J k c = (if k + 1 < jb_P J then c\<lparr>c_pc := SendDown\<rparr> else to_recv_up J k c)"

definition to_send_up :: "'f job \<Rightarrow> nat \<Rightarrow> 'f child \<Rightarrow> 'f child" where
  "to_send_up J k c = (if 1 \<le> k then c\<lparr>c_pc := SendUp\<rparr> else to_send_down J k c)"

definition child_act :: "'f job \<Rightarrow> nat \<Rightarrow> 'f child \<Rightarrow> (pname, 'f msg) act" where
  "child_act J k c =
     (case c_pc c of
        SendUp \<Rightarrow> if 1 \<le> k then Send (Up (k - 1)) (MRow (c_u c (st_of J k))) else Halt
      | SendDown \<Rightarrow> Send (Down k) (MRow (c_u c (en_of J k)))
      | RecvUp \<Rightarrow> if 1 \<le> k then Recv (Down (k - 1)) else Halt
      | RecvDown \<Rightarrow> Recv (Up k)
      | SendDiff \<Rightarrow> Send (CP k) (MDiff (c_diff c))
      | RecvOrder \<Rightarrow> Recv (PC k)
      | SendRow i \<Rightarrow> Send (CP k) (MRow (c_u c i))
      | CHalt \<Rightarrow> Halt)"

definition child_resume :: "'f job \<Rightarrow> nat \<Rightarrow> 'f child \<Rightarrow> 'f msg option \<Rightarrow> 'f child" where
  "child_resume J k c m =
     (case (c_pc c, m) of
        (SendUp, _) \<Rightarrow> to_send_down J k c
      | (SendDown, _) \<Rightarrow> to_recv_up J k c
      | (RecvUp, Some (MRow r)) \<Rightarrow> to_recv_down J k (c\<lparr>c_u := (c_u c)(st_of J k - 1 := r)\<rparr>)
      | (RecvDown, Some (MRow r)) \<Rightarrow> to_diff J k (c\<lparr>c_u := (c_u c)(en_of J k + 1 := r)\<rparr>)
      | (SendDiff, _) \<Rightarrow> c\<lparr>c_pc := RecvOrder\<rparr>
      | (RecvOrder, Some (MOrder n)) \<Rightarrow>
          if n = 1 then c\<lparr>c_pc := SendRow (st_of J k)\<rparr> else to_send_up J k c
      | (SendRow i, _) \<Rightarrow> if i + 1 \<le> en_of J k then c\<lparr>c_pc := SendRow (i + 1)\<rparr> else c\<lparr>c_pc := CHalt\<rparr>
      | _ \<Rightarrow> c)"

definition max_diff :: "'f fops \<Rightarrow> 'f list \<Rightarrow> 'f" where
  "max_diff F ds = fold (\<lambda>d m. if fless F m d then d else m) ds (fint F 0)"

text \<open>The parent: the barrier, and the rows at the end.\<close>

definition rows_from :: "'f job \<Rightarrow> nat \<Rightarrow> ppc" where
  "rows_from J i =
     (case find (\<lambda>k. st_of J k \<le> en_of J k) [i..<jb_P J] of None \<Rightarrow> PHalt | Some k \<Rightarrow> RecvRow k (st_of J k))"

definition decide :: "'f job \<Rightarrow> 'f parent \<Rightarrow> 'f parent" where
  "decide J p =
     (let p = p\<lparr>pa_count := pa_count p + 1\<rparr>; m = max_diff (jb_ops J) (pa_recv p) in
      if fle (jb_ops J) m (jb_E J) \<or> pa_count p > jb_L J then p\<lparr>pa_pc := SendDone 0\<rparr>
      else p\<lparr>pa_pc := SendOrder 0\<rparr>)"

definition parent_act :: "'f parent \<Rightarrow> (pname, 'f msg) act" where
  "parent_act p =
     (case pa_pc p of
        RecvDiff i \<Rightarrow> Recv (CP i)
      | SendOrder i \<Rightarrow> Send (PC i) (MOrder 0)
      | SendDone i \<Rightarrow> Send (PC i) (MOrder 1)
      | RecvRow i j \<Rightarrow> Recv (CP i)
      | PHalt \<Rightarrow> Halt)"

definition parent_resume :: "'f job \<Rightarrow> 'f parent \<Rightarrow> 'f msg option \<Rightarrow> 'f parent" where
  "parent_resume J p m =
     (case (pa_pc p, m) of
        (RecvDiff i, Some (MDiff d)) \<Rightarrow>
          let p = p\<lparr>pa_recv := (pa_recv p)[i := d]\<rparr> in
          if i + 1 < jb_P J then p\<lparr>pa_pc := RecvDiff (i + 1)\<rparr> else decide J p
      | (SendOrder i, _) \<Rightarrow> p\<lparr>pa_pc := (if i + 1 < jb_P J then SendOrder (i + 1) else RecvDiff 0)\<rparr>
      | (SendDone i, _) \<Rightarrow> p\<lparr>pa_pc := (if i + 1 < jb_P J then SendDone (i + 1) else rows_from J 0)\<rparr>
      | (RecvRow i j, Some (MRow r)) \<Rightarrow>
          p\<lparr>pa_u := (pa_u p)(j := r),
            pa_pc := (if j + 1 \<le> en_of J i then RecvRow i (j + 1) else rows_from J (i + 1))\<rparr>
      | _ \<Rightarrow> p)"

text \<open>Process 0 is the parent, process \<open>Suc k\<close> the child with \<^verbatim>\<open>this_child_id\<close> \<open>k\<close>.\<close>

definition jacobi_act :: "'f job \<Rightarrow> nat \<Rightarrow> 'f local \<Rightarrow> (pname, 'f msg) act" where
  "jacobi_act J i l =
     (case (i, l) of
        (0, Par p) \<Rightarrow> parent_act p
      | (Suc k, Chd c) \<Rightarrow> if k < jb_P J then child_act J k c else Halt
      | _ \<Rightarrow> Halt)"

definition jacobi_resume :: "'f job \<Rightarrow> nat \<Rightarrow> 'f local \<Rightarrow> 'f msg option \<Rightarrow> 'f local" where
  "jacobi_resume J i l m =
     (case (i, l) of
        (0, Par p) \<Rightarrow> Par (parent_resume J p m)
      | (Suc k, Chd c) \<Rightarrow> Chd (child_resume J k c m)
      | _ \<Rightarrow> l)"

text \<open>After the forks: every child has a copy of the parent's grid, all pipes are empty.\<close>

definition fork_state :: "'f job \<Rightarrow> 'f matrix \<Rightarrow> 'f matrix \<Rightarrow> nat \<Rightarrow> 'f local" where
  "fork_state J u w i =
     (case i of
        0 \<Rightarrow> Par \<lparr>pa_pc = RecvDiff 0, pa_u = u, pa_recv = replicate (jb_P J) (fint (jb_ops J) 0), pa_count = 0\<rparr>
      | Suc k \<Rightarrow>
          let c = \<lparr>c_pc = CHalt, c_u = u, c_w = w, c_diff = fint (jb_ops J) 0\<rparr> in
          Chd (if st_of J k > en_of J k then c else to_send_up J k c))"

subsection \<open>The sequential solver\<close>

function jacobi_seq :: "'f fops \<Rightarrow> nat \<Rightarrow> 'f \<Rightarrow> int \<Rightarrow> 'f matrix \<Rightarrow> int \<Rightarrow> 'f matrix \<Rightarrow> 'f matrix" where
  "jacobi_seq F N E L w count u =
     (case sweep F N 1 (N - 2) w u of (w', u', d) \<Rightarrow>
        if fle F d E \<or> count + 1 > L then u' else jacobi_seq F N E L w' (count + 1) u')"
  by pat_completeness auto
termination by (relation "measure (\<lambda>(F, N, E, L, w, count, u). nat (L + 1 - count))") auto

declare jacobi_seq.simps [simp del]

end
