(* ===== verification/Jacobi_Grid.thy ===== *)
theory Jacobi_Grid
  imports Jacobi
begin

text \<open>
  What the solver computes, apart from its processes: the partition of the rows, one sweep in closed
  form, and the largest difference of a sweep as the largest of its parts.
\<close>

subsection \<open>The partition\<close>

definition tally :: "nat \<Rightarrow> nat \<Rightarrow> nat list" where
  "tally P m = fold (\<lambda>i ws. ws[i mod P := ws ! (i mod P) + 1]) [0..<m] (replicate P 0)"

lemma tally_Suc: "tally P (Suc m) = (tally P m)[m mod P := tally P m ! (m mod P) + 1]"
  by (simp add: tally_def)

lemma length_tally [simp]: "length (tally P m) = P"
  by (induction m) (simp_all add: tally_Suc, simp add: tally_def)

lemma sum_tally: "0 < P \<Longrightarrow> sum_list (tally P m) = m"
proof (induction m)
  case 0
  then show ?case by (simp add: tally_def sum_list_replicate)
next
  case (Suc m)
  then have "tally P m ! (m mod P) \<le> sum_list (tally P m)"
    by (intro member_le_sum_list) simp_all
  with Suc show ?case by (simp add: tally_Suc sum_list_update)
qed

lemma tally_pos: "k < P \<Longrightarrow> 0 < tally P m ! k \<longleftrightarrow> k < m"
proof (induction m)
  case 0
  then show ?case by (simp add: tally_def)
next
  case (Suc m)
  then show ?case by (cases "k = m mod P") (auto simp: tally_Suc nth_list_update less_Suc_eq mod_less_eq_dividend intro: le_neq_implies_less)
qed

lemma length_ranges [simp]: "length (ranges st ws) = length ws"
  by (induction ws arbitrary: st) (simp_all add: Let_def)

lemma ranges_nth:
  "k < length ws \<Longrightarrow> 1 \<le> st \<Longrightarrow>
   ranges st ws ! k = (st + sum_list (take k ws), st + sum_list (take (Suc k) ws) - 1)"
  by (induction ws arbitrary: st k) (auto simp: Let_def nth_Cons split: nat.splits)

definition job_ok :: "'f job \<Rightarrow> bool" where
  "job_ok J \<longleftrightarrow>
     0 < jb_P J \<and> 3 \<le> jb_N J \<and> st_of J 0 = 1 \<and> en_of J (jb_P J - 1) = jb_N J - 2 \<and>
     (\<forall>k<jb_P J. st_of J k \<le> en_of J k) \<and> (\<forall>k. Suc k < jb_P J \<longrightarrow> st_of J (Suc k) = Suc (en_of J k))"

lemma works_tally: "works N P = tally P (N - 2)"
  by (simp add: works_def tally_def)

lemma unused_tally:
  assumes "0 < P" "0 < m"
  shows "unused (ranges 1 (tally P m)) = P - min P m"
proof -
  let ?rs = "ranges 1 (tally P m)"
  have "{i. i < length (tl ?rs) \<and> (case tl ?rs ! i of (st, en) \<Rightarrow> st > en)} = {i. i < P - 1 \<and> m \<le> Suc i}"
  proof (rule Collect_cong)
    fix i
    show "(i < length (tl ?rs) \<and> (case tl ?rs ! i of (st, en) \<Rightarrow> st > en)) \<longleftrightarrow> i < P - 1 \<and> m \<le> Suc i"
      using tally_pos [of "Suc i" P m]
      by (cases "Suc i < P") (auto simp: nth_tl ranges_nth take_Suc_conv_app_nth not_less)
  qed
  also have "\<dots> = {m - 1..<P - 1}" using assms by auto
  finally show ?thesis
    using assms by (simp add: unused_def length_filter_conv_card)
qed

lemma mk_job_P: "3 \<le> N \<Longrightarrow> 0 < P \<Longrightarrow> jb_P (mk_job F N E P L) = min P (N - 2)"
  using unused_tally [of P "N - 2"] by (simp add: mk_job_def Let_def works_tally)

lemma sum_take_all:
  assumes "\<And>k. n \<le> k \<Longrightarrow> k < length ws \<Longrightarrow> ws ! k = (0 :: nat)"
  shows "sum_list (take n ws) = sum_list ws"
proof -
  have "sum_list (drop n ws) = 0" using assms by (auto simp: sum_list_eq_0_iff in_set_conv_nth)
  then show ?thesis by (metis append_take_drop_id sum_list_append add_0_right)
qed

lemma mk_job_ok:
  assumes "3 \<le> N" "0 < P"
  shows "job_ok (mk_job F N E P L)"
proof -
  let ?J = "mk_job F N E P L" and ?ws = "tally P (N - 2)"
  have r: "jb_rng ?J ! k = (1 + sum_list (take k ?ws), sum_list (take (Suc k) ?ws))" if "k < P" for k
    using that by (simp add: mk_job_def Let_def works_tally ranges_nth)
  have P: "jb_P ?J = min P (N - 2)" by (rule mk_job_P [OF assms])
  have "sum_list (take (min P (N - 2)) ?ws) = N - 2"
  proof (subst sum_take_all)
    fix k assume "min P (N - 2) \<le> k" "k < length ?ws"
    then show "?ws ! k = 0" using tally_pos [of k P "N - 2"] by auto
  qed (simp add: sum_tally assms)
  then have last: "en_of ?J (jb_P ?J - 1) = jb_N ?J - 2"
    using assms by (simp add: P r) (simp add: mk_job_def Let_def)
  have le: "st_of ?J k \<le> en_of ?J k" if "k < jb_P ?J" for k
    using that tally_pos [of k P "N - 2"] by (simp add: P r take_Suc_conv_app_nth Suc_le_eq)
  show ?thesis
    unfolding job_ok_def using assms last le by (auto simp: P r) (simp add: mk_job_def Let_def)
qed

subsection \<open>One sweep\<close>

definition pick :: "'f fops \<Rightarrow> 'f \<Rightarrow> 'f \<Rightarrow> 'f" where
  "pick F m d = (if fless F m d then d else m)"

definition delta :: "'f fops \<Rightarrow> 'f matrix \<Rightarrow> nat \<times> nat \<Rightarrow> 'f" where
  "delta F u c = (case c of (i, j) \<Rightarrow> fabsm F (fsub F (cell_value F u i j) (u i j)))"

definition next_grid :: "'f fops \<Rightarrow> nat \<Rightarrow> nat \<Rightarrow> nat \<Rightarrow> 'f matrix \<Rightarrow> 'f matrix" where
  "next_grid F N st en u =
     (\<lambda>i j. if st \<le> i \<and> i \<le> en \<and> 1 \<le> j \<and> j < N - 1 then cell_value F u i j else u i j)"

definition grid_diff :: "'f fops \<Rightarrow> nat \<Rightarrow> nat \<Rightarrow> nat \<Rightarrow> 'f matrix \<Rightarrow> 'f" where
  "grid_diff F N st en u = fold (\<lambda>d m. pick F m d) (map (delta F u) (cells N st en)) (fint F 0)"

lemma set_cells: "set (cells N st en) = {(i, j). st \<le> i \<and> i \<le> en \<and> 1 \<le> j \<and> j < N - 1}"
  by (auto simp: cells_def)

lemma fold_put:
  "fold (\<lambda>(i, j). put_cell i j (f i j)) cs u = (\<lambda>i j. if (i, j) \<in> set cs then f i j else u i j)"
  by (induction cs arbitrary: u) (auto simp: put_cell_def fun_eq_iff split: if_splits)

lemma fold_sweep:
  "fold (sweep_cell F u) cs (w, d) =
   (fold (\<lambda>(i, j). put_cell i j (cell_value F u i j)) cs w, fold (\<lambda>d m. pick F m d) (map (delta F u) cs) d)"
proof (induction cs arbitrary: w d)
  case Nil
  then show ?case by simp
next
  case (Cons c cs)
  then show ?case
    by (cases c) (simp add: sweep_cell_def Let_def pick_def delta_def put_cell_def)
qed

lemma sweep_eq:
  "snd (sweep F N st en w u) = (next_grid F N st en u, grid_diff F N st en u)"
  by (auto simp: sweep_def fold_sweep fold_put next_grid_def grid_diff_def set_cells fun_eq_iff)

lemma next_grid_row: "\<not> (st \<le> i \<and> i \<le> en) \<Longrightarrow> next_grid F N st en u i = u i"
  by (rule ext) (auto simp: next_grid_def)

lemma next_grid_agree:
  assumes "\<And>r. st - 1 \<le> r \<Longrightarrow> r \<le> en + 1 \<Longrightarrow> u r = U r" and "st' \<le> st" "en \<le> en'" "st \<le> i" "i \<le> en"
  shows "next_grid F N st en u i = next_grid F N st' en' U i"
  using assms by (auto simp: next_grid_def cell_value_def fun_eq_iff)

lemma grid_diff_agree:
  assumes "\<And>r. st - 1 \<le> r \<Longrightarrow> r \<le> en + 1 \<Longrightarrow> u r = U r"
  shows "grid_diff F N st en u = grid_diff F N st en U"
proof -
  have "map (delta F u) (cells N st en) = map (delta F U) (cells N st en)"
    using assms by (auto simp: set_cells delta_def cell_value_def)
  then show ?thesis by (simp only: grid_diff_def)
qed

subsection \<open>The largest difference\<close>

lemma pick_assoc:
  assumes "ieee_order F" "fle F a a" "fle F b b"
  shows "pick F (pick F a b) c = pick F a (pick F b c)"
  using assms unfolding ieee_order_def pick_def by (smt (verit))

lemma pick_ok: "ieee_order F \<Longrightarrow> fle F a a \<Longrightarrow> fle F (pick F a b) (pick F a b)"
  by (auto simp: ieee_order_def pick_def)

lemma fold_pick:
  assumes "ieee_order F" "fle F m m" "fle F z z"
  shows "fold (\<lambda>d m. pick F m d) ds (pick F m z) = pick F m (fold (\<lambda>d m. pick F m d) ds z)"
  using assms(3)
proof (induction ds arbitrary: z)
  case (Cons d ds)
  then show ?case using assms by (simp add: pick_assoc pick_ok)
qed simp

lemma fold_pick_inv:
  assumes "ieee_order F" "fle F m m" "\<not> fless F m z" "fle F z z"
  shows "fle F (fold (\<lambda>d m. pick F m d) ds m) (fold (\<lambda>d m. pick F m d) ds m) \<and>
    \<not> fless F (fold (\<lambda>d m. pick F m d) ds m) z"
  using assms(2,3)
proof (induction ds arbitrary: m)
  case (Cons d ds)
  have "\<not> fless F (pick F m d) z"
    using Cons.prems assms(1,4) unfolding ieee_order_def pick_def by (smt (verit))
  with Cons assms(1) show ?case by (simp add: pick_ok)
qed simp

lemma fold_pick_blocks:
  assumes F: "ieee_order F" and m: "fle F m m" "\<not> fless F m (fint F 0)"
  shows "fold (\<lambda>d m. pick F m d) (map (\<lambda>ds. fold (\<lambda>d m. pick F m d) ds (fint F 0)) dss) m =
    fold (\<lambda>d m. pick F m d) (concat dss) m"
  using m
proof (induction dss arbitrary: m)
  case (Cons ds dss)
  have z: "fle F (fint F 0) (fint F 0)" using F by (simp add: ieee_order_def)
  have "pick F m (fold (\<lambda>d m. pick F m d) ds (fint F 0)) = fold (\<lambda>d m. pick F m d) ds m"
    using fold_pick [OF F Cons.prems(1) z, of ds] Cons.prems(2) by (simp add: pick_def)
  then show ?case using Cons fold_pick_inv [OF F Cons.prems z] by simp
qed simp

lemma cells_append: "st \<le> en \<Longrightarrow> en \<le> en' \<Longrightarrow> cells N st en @ cells N (Suc en) en' = cells N st en'"
proof -
  assume "st \<le> en" "en \<le> en'"
  then have "[st..<Suc en] @ [Suc en..<Suc en'] = [st..<Suc en']"
    by (metis Suc_le_mono le_Suc_eq upt_add_eq_append le_add_diff_inverse)
  then show ?thesis by (metis cells_def concat_append map_append)
qed

lemma cells_blocks:
  assumes "job_ok J" "n < jb_P J"
  shows "concat (map (\<lambda>k. cells N (st_of J k) (en_of J k)) [0..<Suc n]) = cells N 1 (en_of J n) \<and>
    1 \<le> en_of J n"
  using assms(2)
proof (induction n)
  case 0
  then show ?case using assms(1) by (auto simp: job_ok_def)
next
  case (Suc n)
  have "st_of J (Suc n) = Suc (en_of J n)" "st_of J (Suc n) \<le> en_of J (Suc n)"
    using assms(1) Suc.prems by (auto simp: job_ok_def)
  with Suc show ?case
    by (simp add: flip: append_assoc) (simp add: cells_append)
qed

lemma max_diff_blocks:
  assumes "ieee_order (jb_ops J)" "job_ok J"
  shows "max_diff (jb_ops J) (map (\<lambda>k. grid_diff (jb_ops J) N (st_of J k) (en_of J k) u) [0..<jb_P J]) =
    grid_diff (jb_ops J) N 1 (jb_N J - 2) u"
proof -
  let ?F = "jb_ops J" and ?ds = "map (\<lambda>k. map (delta (jb_ops J) u) (cells N (st_of J k) (en_of J k))) [0..<jb_P J]"
  have z: "fle ?F (fint ?F 0) (fint ?F 0)" "\<not> fless ?F (fint ?F 0) (fint ?F 0)"
    using assms(1) by (auto simp: ieee_order_def)
  obtain n where n: "jb_P J = Suc n" using assms(2) by (auto simp: job_ok_def gr0_conv_Suc)
  have "concat ?ds = map (delta ?F u) (concat (map (\<lambda>k. cells N (st_of J k) (en_of J k)) [0..<jb_P J]))"
    by (simp add: map_concat comp_def)
  also have "\<dots> = map (delta ?F u) (cells N 1 (en_of J n))"
    using cells_blocks [OF assms(2), of n N] by (simp only: n)
  finally have c: "concat ?ds = map (delta ?F u) (cells N 1 (jb_N J - 2))"
    using assms(2) n by (simp add: job_ok_def)
  have "map (\<lambda>k. grid_diff ?F N (st_of J k) (en_of J k) u) [0..<jb_P J] =
    map (\<lambda>ds. fold (\<lambda>d m. pick ?F m d) ds (fint ?F 0)) ?ds"
    by (simp add: grid_diff_def comp_def)
  moreover have "max_diff ?F ds = fold (\<lambda>d m. pick ?F m d) ds (fint ?F 0)" for ds
    by (simp add: max_diff_def pick_def)
  ultimately show ?thesis
    using fold_pick_blocks [OF assms(1) z, of ?ds] c by (simp add: grid_diff_def comp_def)
qed

end
