(* ===== verification/Jacobi_Net.thy ===== *)
theory Jacobi_Net
  imports Jacobi_Grid
begin

text \<open>
  The processes of the solver together. The pipes have one writer and one reader each, so the solver is a
  \<open>pipe_network\<close>: one schedule decides for all. The schedule followed here goes round by round: all
  children write their border rows, then each reads, sweeps and reports in turn, then the parent decides.
\<close>

fun pwriter :: "pname \<Rightarrow> nat" where
  "pwriter (PC k) = 0"
| "pwriter (CP k) = Suc k"
| "pwriter (Up k) = Suc (Suc k)"
| "pwriter (Down k) = Suc k"

fun preader :: "pname \<Rightarrow> nat" where
  "preader (PC k) = Suc k"
| "preader (CP k) = 0"
| "preader (Up k) = Suc k"
| "preader (Down k) = Suc (Suc k)"

interpretation jn: pipe_network "jacobi_act J" "jacobi_resume J" pwriter preader for J
  by unfold_locales
    (auto simp: jacobi_act_def parent_act_def child_act_def
      split: nat.splits local.splits ppc.splits cpc.splits if_splits)

abbreviation jstep :: "'f job \<Rightarrow> (nat \<Rightarrow> 'f local) \<times> (pname \<Rightarrow> 'f msg list) \<Rightarrow> (nat \<Rightarrow> 'f local) \<times> (pname \<Rightarrow> 'f msg list) \<Rightarrow> bool" where
  "jstep J \<equiv> net_step (jacobi_act J) (jacobi_resume J)"

definition conf :: "'f parent \<Rightarrow> (nat \<Rightarrow> 'f child) \<Rightarrow> nat \<Rightarrow> 'f local" where
  "conf p c i = (case i of 0 \<Rightarrow> Par p | Suc k \<Rightarrow> Chd (c k))"

lemma conf_simps [simp]:
  "conf p c 0 = Par p" "conf p c (Suc k) = Chd (c k)"
  "(conf p c)(Suc k := Chd x) = conf p (c(k := x))" "(conf p c)(0 := Par y) = conf y c"
  by (auto simp: conf_def fun_eq_iff split: nat.splits)

subsection \<open>Single steps\<close>

lemma two_steps: "jstep J s t \<Longrightarrow> jstep J t v \<Longrightarrow> (jstep J)\<^sup>*\<^sup>* s v"
  by (meson converse_rtranclp_into_rtranclp r_into_rtranclp)

lemma parent_send:
  "parent_act p = Send ch m \<Longrightarrow> jstep J (conf p c, q) (conf (parent_resume J p None) c, q(ch := q ch @ [m]))"
  using net_step.send [of "jacobi_act J" 0 "conf p c" ch m "jacobi_resume J" q]
  by (simp add: jacobi_act_def jacobi_resume_def)

lemma parent_recv:
  "parent_act p = Recv ch \<Longrightarrow> q ch = m # ms \<Longrightarrow>
   jstep J (conf p c, q) (conf (parent_resume J p (Some m)) c, q(ch := ms))"
  using net_step.recv [of "jacobi_act J" 0 "conf p c" ch q m ms "jacobi_resume J"]
  by (simp add: jacobi_act_def jacobi_resume_def)

lemma child_send:
  "k < jb_P J \<Longrightarrow> child_act J k (c k) = Send ch m \<Longrightarrow>
   jstep J (conf p c, q) (conf p (c(k := child_resume J k (c k) None)), q(ch := q ch @ [m]))"
  using net_step.send [of "jacobi_act J" "Suc k" "conf p c" ch m "jacobi_resume J" q]
  by (simp add: jacobi_act_def jacobi_resume_def)

lemma child_recv:
  "k < jb_P J \<Longrightarrow> child_act J k (c k) = Recv ch \<Longrightarrow> q ch = m # ms \<Longrightarrow>
   jstep J (conf p c, q) (conf p (c(k := child_resume J k (c k) (Some m))), q(ch := ms))"
  using net_step.recv [of "jacobi_act J" "Suc k" "conf p c" ch q m ms "jacobi_resume J"]
  by (simp add: jacobi_act_def jacobi_resume_def)

lemma to_pc [simp]:
  "to_diff J k (b\<lparr>c_pc := x\<rparr>) = to_diff J k b"
  "to_recv_down J k (b\<lparr>c_pc := x\<rparr>) = to_recv_down J k b"
  "to_recv_up J k (b\<lparr>c_pc := x\<rparr>) = to_recv_up J k b"
  "to_send_down J k (b\<lparr>c_pc := x\<rparr>) = to_send_down J k b"
  "to_send_up J k (b\<lparr>c_pc := x\<rparr>) = to_send_up J k b"
  by (simp_all add: to_diff_def to_recv_down_def to_recv_up_def to_send_down_def to_send_up_def split: prod.splits)

lemmas child_defs = child_act_def child_resume_def

lemma do_send_up:
  assumes "k < jb_P J" "c k = to_send_up J k b"
  shows "(jstep J)\<^sup>*\<^sup>* (conf p c, q)
    (conf p (c(k := to_send_down J k b)),
     if 1 \<le> k then q(Up (k - 1) := q (Up (k - 1)) @ [MRow (c_u b (st_of J k))]) else q)"
proof (cases "1 \<le> k")
  case True
  then show ?thesis
    using assms child_send [of k J c "Up (k - 1)" "MRow (c_u b (st_of J k))" p q]
    by (simp add: to_send_up_def child_defs r_into_rtranclp)
next
  case False
  then have "c(k := to_send_down J k b) = c" using assms(2) by (simp add: to_send_up_def fun_upd_idem)
  with False show ?thesis by simp
qed

lemma do_send_down:
  assumes "k < jb_P J" "c k = to_send_down J k b"
  shows "(jstep J)\<^sup>*\<^sup>* (conf p c, q)
    (conf p (c(k := to_recv_up J k b)),
     if k + 1 < jb_P J then q(Down k := q (Down k) @ [MRow (c_u b (en_of J k))]) else q)"
proof (cases "k + 1 < jb_P J")
  case True
  then show ?thesis
    using assms child_send [of k J c "Down k" "MRow (c_u b (en_of J k))" p q]
    by (simp add: to_send_down_def child_defs r_into_rtranclp)
next
  case False
  then have "c(k := to_recv_up J k b) = c" using assms(2) by (simp add: to_send_down_def fun_upd_idem)
  with False show ?thesis by simp
qed

definition ghost_up :: "'f job \<Rightarrow> 'f matrix \<Rightarrow> nat \<Rightarrow> 'f child \<Rightarrow> 'f child" where
  "ghost_up J U k b = (if 1 \<le> k then b\<lparr>c_u := (c_u b)(st_of J k - 1 := U (st_of J k - 1))\<rparr> else b)"

definition ghost_down :: "'f job \<Rightarrow> 'f matrix \<Rightarrow> nat \<Rightarrow> 'f child \<Rightarrow> 'f child" where
  "ghost_down J U k b = (if k + 1 < jb_P J then b\<lparr>c_u := (c_u b)(en_of J k + 1 := U (en_of J k + 1))\<rparr> else b)"

lemma do_recv_up:
  assumes "k < jb_P J" "c k = to_recv_up J k b" "1 \<le> k \<Longrightarrow> q (Down (k - 1)) = [MRow (U (st_of J k - 1))]"
  shows "(jstep J)\<^sup>*\<^sup>* (conf p c, q)
    (conf p (c(k := to_recv_down J k (ghost_up J U k b))), if 1 \<le> k then q(Down (k - 1) := []) else q)"
proof (cases "1 \<le> k")
  case True
  have *: "b\<lparr>c_pc := RecvUp, c_u := v\<rparr> = (b\<lparr>c_u := v\<rparr>)\<lparr>c_pc := RecvUp\<rparr>" for v by simp
  from True show ?thesis
    using assms child_recv [of k J c "Down (k - 1)" q "MRow (U (st_of J k - 1))" "[]" p]
    by (simp add: to_recv_up_def child_defs ghost_up_def * r_into_rtranclp del: child.update_convs)
next
  case False
  then have "c(k := to_recv_down J k (ghost_up J U k b)) = c"
    using assms(2) by (simp add: to_recv_up_def ghost_up_def fun_upd_idem)
  with False show ?thesis by simp
qed

lemma do_recv_down:
  assumes "k < jb_P J" "c k = to_recv_down J k b" "k + 1 < jb_P J \<Longrightarrow> q (Up k) = [MRow (U (en_of J k + 1))]"
  shows "(jstep J)\<^sup>*\<^sup>* (conf p c, q)
    (conf p (c(k := to_diff J k (ghost_down J U k b))), if k + 1 < jb_P J then q(Up k := []) else q)"
proof (cases "k + 1 < jb_P J")
  case True
  have *: "b\<lparr>c_pc := RecvDown, c_u := v\<rparr> = (b\<lparr>c_u := v\<rparr>)\<lparr>c_pc := RecvDown\<rparr>" for v by simp
  from True show ?thesis
    using assms child_recv [of k J c "Up k" q "MRow (U (en_of J k + 1))" "[]" p]
    by (simp add: to_recv_down_def child_defs ghost_down_def * r_into_rtranclp del: child.update_convs)
next
  case False
  then have "c(k := to_diff J k (ghost_down J U k b)) = c"
    using assms(2) by (simp add: to_recv_down_def ghost_down_def fun_upd_idem)
  with False show ?thesis by simp
qed

subsection \<open>A round\<close>

lemma family_run: "(\<And>n. n < m \<Longrightarrow> R\<^sup>*\<^sup>* (S n) (S (Suc n))) \<Longrightarrow> R\<^sup>*\<^sup>* (S 0) (S m)"
  by (induction m) (auto intro: rtranclp_trans)

text \<open>The child after its sweep, and what the pipes hold while the children exchange rows.\<close>

definition swept :: "'f job \<Rightarrow> 'f matrix \<Rightarrow> nat \<Rightarrow> 'f child \<Rightarrow> 'f child" where
  "swept J U k b = to_diff J k (ghost_down J U k (ghost_up J U k b))"

definition reported :: "'f job \<Rightarrow> 'f matrix \<Rightarrow> nat \<Rightarrow> 'f child \<Rightarrow> 'f child" where
  "reported J U k b = (swept J U k b)\<lparr>c_pc := RecvOrder\<rparr>"

definition rows_sent :: "'f job \<Rightarrow> 'f matrix \<Rightarrow> nat \<Rightarrow> pname \<Rightarrow> 'f msg list" where
  "rows_sent J U n ch =
     (case ch of
        Up j \<Rightarrow> if Suc j < n then [MRow (U (st_of J (Suc j)))] else []
      | Down j \<Rightarrow> if j < n \<and> Suc j < jb_P J then [MRow (U (en_of J j))] else []
      | _ \<Rightarrow> [])"

definition rows_left :: "'f job \<Rightarrow> 'f matrix \<Rightarrow> nat \<Rightarrow> pname \<Rightarrow> 'f msg list" where
  "rows_left J U n ch =
     (case ch of
        Up j \<Rightarrow> if n \<le> j \<and> Suc j < jb_P J then [MRow (U (st_of J (Suc j)))] else []
      | Down j \<Rightarrow> if n \<le> Suc j \<and> Suc j < jb_P J then [MRow (U (en_of J j))] else []
      | _ \<Rightarrow> [])"

definition agree :: "'f job \<Rightarrow> 'f matrix \<Rightarrow> nat \<Rightarrow> 'f matrix \<Rightarrow> bool" where
  "agree J U k u \<longleftrightarrow>
     (\<forall>i. st_of J k \<le> i \<and> i \<le> en_of J k \<longrightarrow> u i = U i) \<and>
     (k = 0 \<longrightarrow> u 0 = U 0) \<and> (Suc k = jb_P J \<longrightarrow> u (jb_N J - 1) = U (jb_N J - 1))"

lemma send_phase_step:
  assumes J: "job_ok J" and n: "n < jb_P J" and c: "c n = to_send_up J n b" and b: "agree J U n (c_u b)"
  shows "(jstep J)\<^sup>*\<^sup>* (conf p c, rows_sent J U n) (conf p (c(n := to_recv_up J n b)), rows_sent J U (Suc n))"
proof -
  let ?q = "if 1 \<le> n then (rows_sent J U n)(Up (n - 1) := rows_sent J U n (Up (n - 1)) @ [MRow (c_u b (st_of J n))])
    else rows_sent J U n"
  have 1: "(jstep J)\<^sup>*\<^sup>* (conf p c, rows_sent J U n) (conf p (c(n := to_send_down J n b)), ?q)"
    using do_send_up [of n J c b p "rows_sent J U n"] n c by simp
  have 2: "(jstep J)\<^sup>*\<^sup>* (conf p (c(n := to_send_down J n b)), ?q) (conf p (c(n := to_recv_up J n b)),
      if n + 1 < jb_P J then ?q(Down n := ?q (Down n) @ [MRow (c_u b (en_of J n))]) else ?q)"
    using do_send_down [of n J "c(n := to_send_down J n b)" b p ?q] n by simp
  have "st_of J n \<le> en_of J n" using J n by (simp add: job_ok_def)
  then have u: "c_u b (st_of J n) = U (st_of J n)" "c_u b (en_of J n) = U (en_of J n)"
    using b by (auto simp: agree_def)
  have "(if n + 1 < jb_P J then ?q(Down n := ?q (Down n) @ [MRow (c_u b (en_of J n))]) else ?q) = rows_sent J U (Suc n)"
    using n by (auto simp: fun_eq_iff rows_sent_def u less_Suc_eq split: pname.splits)
  with 1 2 show ?thesis by simp
qed

lemma send_phase:
  assumes "job_ok J" "\<And>k. k < jb_P J \<Longrightarrow> c k = to_send_up J k (b k) \<and> agree J U k (c_u (b k))"
  shows "(jstep J)\<^sup>*\<^sup>* (conf p c, \<lambda>_. [])
    (conf p (\<lambda>k. if k < jb_P J then to_recv_up J k (b k) else c k), rows_left J U 0)"
proof -
  let ?S = "\<lambda>n. (conf p (\<lambda>k. if k < n then to_recv_up J k (b k) else c k), rows_sent J U n)"
  have "(jstep J)\<^sup>*\<^sup>* (?S n) (?S (Suc n))" if "n < jb_P J" for n
  proof -
    have "(\<lambda>k. if k < n then to_recv_up J k (b k) else c k)(n := to_recv_up J n (b n)) =
      (\<lambda>k. if k < Suc n then to_recv_up J k (b k) else c k)" by (auto simp: less_Suc_eq)
    then show ?thesis
      using send_phase_step [OF assms(1) that, of "\<lambda>k. if k < n then to_recv_up J k (b k) else c k" "b n" U p]
        assms(2) [OF that] by simp
  qed
  then have "(jstep J)\<^sup>*\<^sup>* (?S 0) (?S (jb_P J))" by (rule family_run)
  moreover have "rows_sent J U 0 = (\<lambda>_. [])" "rows_sent J U (jb_P J) = rows_left J U 0"
    by (auto simp: fun_eq_iff rows_sent_def rows_left_def split: pname.splits)
  ultimately show ?thesis by simp
qed

definition at_diff :: "'f job \<Rightarrow> nat \<Rightarrow> 'f parent \<Rightarrow> 'f parent" where
  "at_diff J n p = (if n < jb_P J then p\<lparr>pa_pc := RecvDiff n\<rparr> else decide J p)"

lemma decide_pc [simp]: "decide J (p\<lparr>pa_pc := x\<rparr>) = decide J p"
  by (simp add: decide_def Let_def)

lemma report_step:
  assumes "n < jb_P J" "c n = to_diff J n b" "q (CP n) = []"
  shows "(jstep J)\<^sup>*\<^sup>* (conf (at_diff J n p) c, q)
    (conf (at_diff J (Suc n) (p\<lparr>pa_recv := (pa_recv p)[n := c_diff (to_diff J n b)]\<rparr>))
      (c(n := (to_diff J n b)\<lparr>c_pc := RecvOrder\<rparr>)), q)"
proof -
  let ?d = "c_diff (to_diff J n b)" and ?c = "c(n := (to_diff J n b)\<lparr>c_pc := RecvOrder\<rparr>)"
  have pc: "c_pc (to_diff J n b) = SendDiff" by (simp add: to_diff_def split: prod.splits)
  have 1: "jstep J (conf (at_diff J n p) c, q) (conf (at_diff J n p) ?c, q(CP n := [MDiff ?d]))"
    using child_send [of n J c "CP n" "MDiff ?d" "at_diff J n p" q] assms pc by (simp add: child_defs)
  have 2: "jstep J (conf (at_diff J n p) ?c, q(CP n := [MDiff ?d]))
    (conf (parent_resume J (at_diff J n p) (Some (MDiff ?d))) ?c, q(CP n := []))"
    using parent_recv [of "at_diff J n p" "CP n" "q(CP n := [MDiff ?d])" "MDiff ?d" "[]" J ?c] assms(1)
    by (simp add: parent_act_def at_diff_def)
  have 3: "parent_resume J (at_diff J n p) (Some (MDiff ?d)) = at_diff J (Suc n) (p\<lparr>pa_recv := (pa_recv p)[n := ?d]\<rparr>)"
    using assms(1) by (cases "Suc n < jb_P J") (simp_all add: at_diff_def parent_resume_def decide_def Let_def)
  have 4: "q(CP n := []) = q" using assms(3) by (simp add: fun_upd_idem)
  show ?thesis
    using two_steps [OF 1 2] unfolding 3 4 .
qed

lemma collect_step:
  assumes J: "job_ok J" and n: "n < jb_P J" and c: "c n = to_recv_up J n b"
  shows "(jstep J)\<^sup>*\<^sup>* (conf (at_diff J n p) c, rows_left J U n)
    (conf (at_diff J (Suc n) (p\<lparr>pa_recv := (pa_recv p)[n := c_diff (swept J U n b)]\<rparr>)) (c(n := reported J U n b)),
     rows_left J U (Suc n))"
proof -
  let ?p = "at_diff J n p" and ?b = "ghost_up J U n b"
  let ?q = "if 1 \<le> n then (rows_left J U n)(Down (n - 1) := []) else rows_left J U n"
  have up: "st_of J n - 1 = en_of J (n - 1)" if "1 \<le> n"
    using J n that by (cases n) (auto simp: job_ok_def)
  have down: "en_of J n + 1 = st_of J (Suc n)" if "n + 1 < jb_P J"
    using J that by (simp add: job_ok_def)
  have 1: "(jstep J)\<^sup>*\<^sup>* (conf ?p c, rows_left J U n) (conf ?p (c(n := to_recv_down J n ?b)), ?q)"
    using do_recv_up [of n J c b "rows_left J U n" U ?p] n c up by (auto simp: rows_left_def)
  have 2: "(jstep J)\<^sup>*\<^sup>* (conf ?p (c(n := to_recv_down J n ?b)), ?q) (conf ?p (c(n := swept J U n b)),
      if n + 1 < jb_P J then ?q(Up n := []) else ?q)"
    using do_recv_down [of n J "c(n := to_recv_down J n ?b)" ?b ?q U ?p] n down
    by (auto simp: rows_left_def swept_def)
  have q: "(if n + 1 < jb_P J then ?q(Up n := []) else ?q) = rows_left J U (Suc n)"
    using n by (auto simp: fun_eq_iff rows_left_def split: pname.splits)
  have "(jstep J)\<^sup>*\<^sup>* (conf ?p (c(n := swept J U n b)), rows_left J U (Suc n))
    (conf (at_diff J (Suc n) (p\<lparr>pa_recv := (pa_recv p)[n := c_diff (swept J U n b)]\<rparr>)) (c(n := reported J U n b)),
     rows_left J U (Suc n))"
    using report_step [of n J "c(n := swept J U n b)" "ghost_down J U n ?b" "rows_left J U (Suc n)" p] n
    by (simp add: swept_def reported_def rows_left_def)
  with 1 2 show ?thesis unfolding q by (meson rtranclp_trans)
qed

lemma collect_phase:
  assumes "job_ok J" "\<And>k. k < jb_P J \<Longrightarrow> c k = to_recv_up J k (b k)" "length (pa_recv p) = jb_P J" "pa_pc p = RecvDiff 0"
  shows "(jstep J)\<^sup>*\<^sup>* (conf p c, rows_left J U 0)
    (conf (decide J (p\<lparr>pa_recv := map (\<lambda>k. c_diff (swept J U k (b k))) [0..<jb_P J]\<rparr>))
      (\<lambda>k. if k < jb_P J then reported J U k (b k) else c k), \<lambda>_. [])"
proof -
  let ?d = "\<lambda>k. c_diff (swept J U k (b k))"
  let ?p = "\<lambda>n. p\<lparr>pa_recv := map ?d [0..<n] @ drop n (pa_recv p)\<rparr>"
  let ?c = "\<lambda>n k. if k < n then reported J U k (b k) else c k"
  let ?S = "\<lambda>n. (conf (at_diff J n (?p n)) (?c n), rows_left J U n)"
  have "(jstep J)\<^sup>*\<^sup>* (?S n) (?S (Suc n))" if n: "n < jb_P J" for n
  proof -
    have "(?c n)(n := reported J U n (b n)) = ?c (Suc n)" by (auto simp: less_Suc_eq)
    moreover have "(map ?d [0..<n] @ drop n (pa_recv p))[n := ?d n] = map ?d [0..<Suc n] @ drop (Suc n) (pa_recv p)"
      using n assms(3) by (simp add: list_update_append Cons_nth_drop_Suc [symmetric])
    ultimately show ?thesis
      using collect_step [OF assms(1) n, of "?c n" "b n" "?p n" U] assms(2) [OF n] by simp
  qed
  then have "(jstep J)\<^sup>*\<^sup>* (?S 0) (?S (jb_P J))" by (rule family_run)
  moreover have "at_diff J 0 (?p 0) = p" using assms(1,4) by (simp add: at_diff_def job_ok_def)
  moreover have "rows_left J U (jb_P J) = (\<lambda>_. [])" by (auto simp: rows_left_def fun_eq_iff split: pname.splits)
  ultimately show ?thesis using assms(3) by (simp add: at_diff_def)
qed

subsection \<open>The parent's order\<close>

definition at_order :: "'f job \<Rightarrow> bool \<Rightarrow> nat \<Rightarrow> 'f parent \<Rightarrow> 'f parent" where
  "at_order J fin n p = p\<lparr>pa_pc :=
     (if n < jb_P J then if fin then SendDone n else SendOrder n else if fin then rows_from J 0 else RecvDiff 0)\<rparr>"

definition ordered :: "'f job \<Rightarrow> bool \<Rightarrow> nat \<Rightarrow> 'f child \<Rightarrow> 'f child" where
  "ordered J fin k c = (if fin then c\<lparr>c_pc := SendRow (st_of J k)\<rparr> else to_send_up J k c)"

lemma order_step:
  assumes "n < jb_P J" "c_pc (c n) = RecvOrder"
  shows "(jstep J)\<^sup>*\<^sup>* (conf (at_order J fin n p) c, \<lambda>_. []) (conf (at_order J fin (Suc n) p) (c(n := ordered J fin n (c n))), \<lambda>_. [])"
proof -
  let ?p = "at_order J fin n p" and ?q = "(\<lambda>_. [])(PC n := [MOrder (if fin then 1 else 0)])"
  have r: "parent_resume J ?p None = at_order J fin (Suc n) p"
    using assms(1) by (simp add: at_order_def parent_resume_def)
  have 1: "jstep J (conf ?p c, \<lambda>_. []) (conf (at_order J fin (Suc n) p) c, ?q)"
    using parent_send [of ?p "PC n" "MOrder (if fin then 1 else 0)" J c "\<lambda>_. []"] assms(1)
    unfolding r by (simp add: parent_act_def at_order_def)
  have 2: "jstep J (conf (at_order J fin (Suc n) p) c, ?q) (conf (at_order J fin (Suc n) p) (c(n := ordered J fin n (c n))), \<lambda>_. [])"
    using child_recv [of n J c "PC n" ?q "MOrder (if fin then 1 else 0)" "[]" "at_order J fin (Suc n) p"] assms
    by (cases fin) (simp_all add: child_defs ordered_def fun_upd_idem)
  show ?thesis by (rule two_steps [OF 1 2])
qed

lemma order_phase:
  assumes "\<And>k. k < jb_P J \<Longrightarrow> c_pc (c k) = RecvOrder"
  shows "(jstep J)\<^sup>*\<^sup>* (conf (at_order J fin 0 p) c, \<lambda>_. [])
    (conf (at_order J fin (jb_P J) p) (\<lambda>k. if k < jb_P J then ordered J fin k (c k) else c k), \<lambda>_. [])"
proof -
  let ?c = "\<lambda>n k. if k < n then ordered J fin k (c k) else c k"
  let ?S = "\<lambda>n. (conf (at_order J fin n p) (?c n), \<lambda>_. [])"
  have "(jstep J)\<^sup>*\<^sup>* (?S n) (?S (Suc n))" if n: "n < jb_P J" for n
  proof -
    have "(?c n)(n := ordered J fin n (c n)) = ?c (Suc n)" by (auto simp: less_Suc_eq)
    then show ?thesis using order_step [of n J "?c n" fin p] n assms [OF n] by simp
  qed
  then have "(jstep J)\<^sup>*\<^sup>* (?S 0) (?S (jb_P J))" by (rule family_run)
  then show ?thesis by simp
qed

subsection \<open>The rows at the end\<close>

definition gathered :: "'f matrix \<Rightarrow> 'f matrix \<Rightarrow> nat \<Rightarrow> 'f matrix" where
  "gathered U u r = (\<lambda>i. if 1 \<le> i \<and> i < r then U i else u i)"

definition at_row :: "'f job \<Rightarrow> 'f matrix \<Rightarrow> nat \<Rightarrow> nat \<Rightarrow> 'f parent \<Rightarrow> 'f parent" where
  "at_row J U k r p = p\<lparr>pa_u := gathered U (pa_u p) r, pa_pc := (if r \<le> en_of J k then RecvRow k r else rows_from J (Suc k))\<rparr>"

definition sending :: "'f job \<Rightarrow> nat \<Rightarrow> nat \<Rightarrow> 'f child \<Rightarrow> 'f child" where
  "sending J k r c = c\<lparr>c_pc := (if r \<le> en_of J k then SendRow r else CHalt)\<rparr>"

lemma row_step:
  assumes "k < jb_P J" "1 \<le> r" "r \<le> en_of J k" "c k = sending J k r b" "c_u b r = U r"
  shows "(jstep J)\<^sup>*\<^sup>* (conf (at_row J U k r p) c, \<lambda>_. []) (conf (at_row J U k (Suc r) p) (c(k := sending J k (Suc r) b)), \<lambda>_. [])"
proof -
  let ?p = "at_row J U k r p" and ?q = "(\<lambda>_. [])(CP k := [MRow (U r)])" and ?c = "c(k := sending J k (Suc r) b)"
  have 1: "jstep J (conf ?p c, \<lambda>_. []) (conf ?p ?c, ?q)"
    using child_send [of k J c "CP k" "MRow (U r)" ?p "\<lambda>_. []"] assms
    by (cases "Suc r \<le> en_of J k") (simp_all add: child_defs sending_def)
  have "(gathered U (pa_u p) r)(r := U r) = gathered U (pa_u p) (Suc r)"
    using assms(2) by (auto simp: gathered_def less_Suc_eq)
  then have "parent_resume J ?p (Some (MRow (U r))) = at_row J U k (Suc r) p"
    using assms(3) by (simp add: at_row_def parent_resume_def)
  then have 2: "jstep J (conf ?p ?c, ?q) (conf (at_row J U k (Suc r) p) ?c, \<lambda>_. [])"
    using parent_recv [of ?p "CP k" ?q "MRow (U r)" "[]" J ?c] assms(3)
    by (simp add: parent_act_def at_row_def fun_upd_idem)
  show ?thesis by (rule two_steps [OF 1 2])
qed

lemma child_rows:
  assumes "k < jb_P J" "1 \<le> st_of J k" "\<And>i. st_of J k \<le> i \<Longrightarrow> i \<le> en_of J k \<Longrightarrow> c_u b i = U i"
    and "c k = sending J k (st_of J k) b"
  shows "(jstep J)\<^sup>*\<^sup>* (conf (at_row J U k (st_of J k) p) c, \<lambda>_. [])
    (conf (at_row J U k (st_of J k + (Suc (en_of J k) - st_of J k)) p)
      (c(k := sending J k (st_of J k + (Suc (en_of J k) - st_of J k)) b)), \<lambda>_. [])"
proof -
  let ?S = "\<lambda>n. (conf (at_row J U k (st_of J k + n) p) (c(k := sending J k (st_of J k + n) b)), \<lambda>_. [])"
  have "(jstep J)\<^sup>*\<^sup>* (?S n) (?S (Suc n))" if n: "n < Suc (en_of J k) - st_of J k" for n
    using row_step [of k J "st_of J k + n" "c(k := sending J k (st_of J k + n) b)" b U p] assms n by simp
  then have "(jstep J)\<^sup>*\<^sup>* (?S 0) (?S (Suc (en_of J k) - st_of J k))" by (rule family_run)
  moreover have "c(k := sending J k (st_of J k) b) = c" using assms(4) by (simp add: fun_upd_idem)
  ultimately show ?thesis by simp
qed

lemma rows_from_next: "job_ok J \<Longrightarrow> k < jb_P J \<Longrightarrow> rows_from J k = RecvRow k (st_of J k)"
  by (simp add: rows_from_def job_ok_def upt_conv_Cons)

lemma rows_from_end [simp]: "rows_from J (jb_P J) = PHalt"
  by (simp add: rows_from_def)

definition at_child :: "'f job \<Rightarrow> 'f matrix \<Rightarrow> nat \<Rightarrow> 'f parent \<Rightarrow> 'f parent" where
  "at_child J U k p = p\<lparr>pa_u := gathered U (pa_u p) (if k = 0 then 1 else Suc (en_of J (k - 1))), pa_pc := rows_from J k\<rparr>"

lemma st_pos: "job_ok J \<Longrightarrow> k < jb_P J \<Longrightarrow> 1 \<le> st_of J k"
  by (cases k) (auto simp: job_ok_def)

lemma gather_step:
  assumes J: "job_ok J" and k: "k < jb_P J" and b: "agree J U k (c_u b)" "c k = b\<lparr>c_pc := SendRow (st_of J k)\<rparr>"
  shows "(jstep J)\<^sup>*\<^sup>* (conf (at_child J U k p) c, \<lambda>_. []) (conf (at_child J U (Suc k) p) (c(k := b\<lparr>c_pc := CHalt\<rparr>)), \<lambda>_. [])"
proof -
  have le: "st_of J k \<le> en_of J k" using J k by (simp add: job_ok_def)
  have "(if k = 0 then 1 else Suc (en_of J (k - 1))) = st_of J k"
    using J k by (cases k) (auto simp: job_ok_def)
  then have "at_child J U k p = at_row J U k (st_of J k) p"
    using le by (simp add: at_child_def at_row_def rows_from_next [OF J k])
  moreover have "at_child J U (Suc k) p = at_row J U k (Suc (en_of J k)) p"
    by (simp add: at_child_def at_row_def)
  ultimately show ?thesis
    using child_rows [of k J b U c p] k st_pos [OF J k] b le by (simp add: agree_def sending_def)
qed

lemma gather_phase:
  assumes "job_ok J" "\<And>k. k < jb_P J \<Longrightarrow> agree J U k (c_u (c k)) \<and> c_pc (c k) = SendRow (st_of J k)"
  shows "(jstep J)\<^sup>*\<^sup>* (conf (at_child J U 0 p) c, \<lambda>_. [])
    (conf (at_child J U (jb_P J) p) (\<lambda>k. if k < jb_P J then (c k)\<lparr>c_pc := CHalt\<rparr> else c k), \<lambda>_. [])"
proof -
  let ?c = "\<lambda>n k. if k < n then (c k)\<lparr>c_pc := CHalt\<rparr> else c k"
  let ?S = "\<lambda>n. (conf (at_child J U n p) (?c n), \<lambda>_. [])"
  have "(jstep J)\<^sup>*\<^sup>* (?S n) (?S (Suc n))" if n: "n < jb_P J" for n
  proof -
    have "(?c n)(n := (c n)\<lparr>c_pc := CHalt\<rparr>) = ?c (Suc n)" by (auto simp: less_Suc_eq)
    moreover have "c n = (c n)\<lparr>c_pc := SendRow (st_of J n)\<rparr>" using assms(2) [OF n] by simp
    ultimately show ?thesis
      using gather_step [OF assms(1) n, of U "c n" "?c n" p] assms(2) [OF n] by simp
  qed
  then have "(jstep J)\<^sup>*\<^sup>* (?S 0) (?S (jb_P J))" by (rule family_run)
  then show ?thesis by simp
qed

subsection \<open>From the forks to the end\<close>

text \<open>The state at the head of the loop: every child has its rows of the grid \<open>U\<close>, all pipes are empty.\<close>

definition loop_head :: "'f job \<Rightarrow> 'f matrix \<Rightarrow> 'f matrix \<Rightarrow> int \<Rightarrow> 'f parent \<Rightarrow> (nat \<Rightarrow> 'f child) \<Rightarrow> bool" where
  "loop_head J u U count p c \<longleftrightarrow>
     pa_pc p = RecvDiff 0 \<and> pa_u p = u \<and> length (pa_recv p) = jb_P J \<and> pa_count p = count \<and>
     (\<forall>i. \<not> (1 \<le> i \<and> i \<le> jb_N J - 2) \<longrightarrow> U i = u i) \<and>
     (\<forall>k<jb_P J. \<exists>b. c k = to_send_up J k b \<and> agree J U k (c_u b))"

definition stopped :: "'f job \<Rightarrow> 'f matrix \<Rightarrow> (nat \<Rightarrow> 'f local) \<times> (pname \<Rightarrow> 'f msg list) \<Rightarrow> bool" where
  "stopped J V s \<longleftrightarrow>
     (\<exists>p. fst s 0 = Par p \<and> pa_pc p = PHalt \<and> pa_u p = V) \<and>
     (\<forall>k<jb_P J. \<exists>c. fst s (Suc k) = Chd c \<and> c_pc c = CHalt) \<and> (\<forall>ch. snd s ch = [])"

lemma stopped_stuck:
  assumes "stopped J V s"
  shows "\<not> jstep J s t"
proof
  obtain l q where s: "s = (l, q)" by (cases s)
  assume "jstep J s t"
  then obtain i where i: "proc_step (jacobi_act J) (jacobi_resume J) i (l, q) = Some t"
    unfolding net_step_proc s by blast
  have "jacobi_act J i (l i) = Halt"
    using assms unfolding s
    by (cases i) (auto simp: stopped_def jacobi_act_def parent_act_def child_act_def split: local.splits)
  with i show False by (simp add: proc_step_def)
qed

lemma en_le: "job_ok J \<Longrightarrow> k + Suc d = jb_P J \<Longrightarrow> en_of J k \<le> jb_N J - 2"
proof (induction d arbitrary: k)
  case 0
  then have "k = jb_P J - 1" by simp
  then show ?case using 0 by (simp add: job_ok_def)
next
  case (Suc d)
  then have "en_of J (Suc k) \<le> jb_N J - 2" by simp
  moreover have "Suc k < jb_P J" using Suc.prems by simp
  then have "en_of J k \<le> en_of J (Suc k)" using Suc.prems(1) unfolding job_ok_def by fastforce
  ultimately show ?case by simp
qed

lemma swept_agree:
  assumes J: "job_ok J" and k: "k < jb_P J" and b: "agree J U k (c_u b)"
  shows "agree J (next_grid (jb_ops J) (jb_N J) 1 (jb_N J - 2) U) k (c_u (swept J U k b)) \<and>
    c_diff (swept J U k b) = grid_diff (jb_ops J) (jb_N J) (st_of J k) (en_of J k) U"
proof -
  let ?g = "ghost_down J U k (ghost_up J U k b)" and ?F = "jb_ops J" and ?N = "jb_N J"
  have up: "st_of J k = 1" if "k = 0" using J k that by (auto simp: job_ok_def)
  have down: "Suc (en_of J k) = ?N - 1" if "Suc k = jb_P J" using J by (auto simp: job_ok_def simp flip: that)
  have le: "1 \<le> st_of J k" "st_of J k \<le> en_of J k" "en_of J k \<le> ?N - 2"
    using st_pos [OF J k] en_le [OF J, of k "jb_P J - Suc k"] J k by (auto simp: job_ok_def)
  have g: "c_u ?g r = U r" if r: "st_of J k - 1 \<le> r" "r \<le> en_of J k + 1" for r
  proof -
    consider "r = st_of J k - 1" | "st_of J k \<le> r" "r \<le> en_of J k" | "r = en_of J k + 1" 
      using r by linarith
    then show ?thesis
      using b up down k le by cases (cases "k = 0"; auto simp: ghost_up_def ghost_down_def agree_def)+
  qed
  have "snd (sweep ?F ?N (st_of J k) (en_of J k) (c_w ?g) (c_u ?g)) =
    (next_grid ?F ?N (st_of J k) (en_of J k) (c_u ?g), grid_diff ?F ?N (st_of J k) (en_of J k) U)"
    using grid_diff_agree [of "st_of J k" "en_of J k" "c_u ?g" U ?F ?N] g by (simp add: sweep_eq)
  then have s: "c_u (swept J U k b) = next_grid ?F ?N (st_of J k) (en_of J k) (c_u ?g)"
    "c_diff (swept J U k b) = grid_diff ?F ?N (st_of J k) (en_of J k) U"
    by (auto simp: swept_def to_diff_def split: prod.splits)
  then show ?thesis
    using next_grid_agree [of "st_of J k" "en_of J k" "c_u ?g" U 1 "?N - 2" _ ?F ?N] g le up down
    by (auto simp: agree_def next_grid_row)
qed

definition done_after :: "'f job \<Rightarrow> int \<Rightarrow> 'f matrix \<Rightarrow> bool" where
  "done_after J count U \<longleftrightarrow>
     fle (jb_ops J) (grid_diff (jb_ops J) (jb_N J) 1 (jb_N J - 2) U) (jb_E J) \<or> count + 1 > jb_L J"

lemma decide_eq:
  assumes "ieee_order (jb_ops J)" "job_ok J" "pa_count p = count"
    "pa_recv p = map (\<lambda>k. grid_diff (jb_ops J) (jb_N J) (st_of J k) (en_of J k) U) [0..<jb_P J]"
  shows "decide J p = at_order J (done_after J count U) 0 (p\<lparr>pa_count := count + 1\<rparr>)"
  using max_diff_blocks [OF assms(1,2), of "jb_N J" U] assms(2-4)
  by (simp add: decide_def Let_def at_order_def done_after_def job_ok_def)

lemma round_run:
  assumes F: "ieee_order (jb_ops J)" and J: "job_ok J" and h: "loop_head J u U count p c"
  defines "V \<equiv> next_grid (jb_ops J) (jb_N J) 1 (jb_N J - 2) U"
  shows "\<exists>p' c'. (jstep J)\<^sup>*\<^sup>* (conf p c, \<lambda>_. []) (conf (at_order J (done_after J count U) (jb_P J) p') c', \<lambda>_. []) \<and>
    pa_u p' = u \<and> length (pa_recv p') = jb_P J \<and> pa_count p' = count + 1 \<and>
    (\<forall>k<jb_P J. \<exists>b. c' k = ordered J (done_after J count U) k b \<and> agree J V k (c_u b))"
proof -
  let ?fin = "done_after J count U"
  obtain b where b: "\<And>k. k < jb_P J \<Longrightarrow> c k = to_send_up J k (b k) \<and> agree J U k (c_u (b k))"
    using h unfolding loop_head_def by metis
  let ?c1 = "\<lambda>k. if k < jb_P J then to_recv_up J k (b k) else c k"
  let ?c2 = "\<lambda>k. if k < jb_P J then reported J U k (b k) else ?c1 k"
  let ?c3 = "\<lambda>k. if k < jb_P J then ordered J ?fin k (?c2 k) else ?c2 k"
  let ?p2 = "p\<lparr>pa_recv := map (\<lambda>k. c_diff (swept J U k (b k))) [0..<jb_P J]\<rparr>"
  let ?p3 = "?p2\<lparr>pa_count := count + 1\<rparr>"
  have 1: "(jstep J)\<^sup>*\<^sup>* (conf p c, \<lambda>_. []) (conf p ?c1, rows_left J U 0)"
    by (rule send_phase [OF J b])
  have 2: "(jstep J)\<^sup>*\<^sup>* (conf p ?c1, rows_left J U 0) (conf (decide J ?p2) ?c2, \<lambda>_. [])"
    using h by (intro collect_phase [OF J]) (simp_all add: loop_head_def)
  have d: "decide J ?p2 = at_order J ?fin 0 ?p3"
    using h swept_agree [OF J] b by (intro decide_eq [OF F J]) (auto simp: loop_head_def)
  have 3: "(jstep J)\<^sup>*\<^sup>* (conf (decide J ?p2) ?c2, \<lambda>_. []) (conf (at_order J ?fin (jb_P J) ?p3) ?c3, \<lambda>_. [])"
    unfolding d by (rule order_phase) (simp add: reported_def)
  have "\<exists>b. ?c3 k = ordered J ?fin k b \<and> agree J V k (c_u b)" if "k < jb_P J" for k
    using that swept_agree [OF J that, of U "b k"] b [OF that]
    by (intro exI [of _ "reported J U k (b k)"]) (simp add: reported_def V_def)
  moreover have "(jstep J)\<^sup>*\<^sup>* (conf p c, \<lambda>_. []) (conf (at_order J ?fin (jb_P J) ?p3) ?c3, \<lambda>_. [])"
    using 1 2 3 by (meson rtranclp_trans)
  ultimately show ?thesis
    using h by (intro exI [of _ ?p3] exI [of _ ?c3]) (simp add: loop_head_def)
qed

lemma gathered_all:
  "(\<And>i. \<not> (1 \<le> i \<and> i \<le> m) \<Longrightarrow> V i = u i) \<Longrightarrow> gathered V u (Suc m) = V"
  by (auto simp: gathered_def fun_eq_iff less_Suc_eq_le)

lemma final_run:
  assumes J: "job_ok J" and c: "\<forall>k<jb_P J. \<exists>b. c k = ordered J True k b \<and> agree J V k (c_u b)"
    and V: "\<And>i. \<not> (1 \<le> i \<and> i \<le> jb_N J - 2) \<Longrightarrow> V i = pa_u p i"
  shows "\<exists>s. (jstep J)\<^sup>*\<^sup>* (conf (at_order J True (jb_P J) p) c, \<lambda>_. []) s \<and> stopped J V s"
proof -
  let ?c = "\<lambda>k. if k < jb_P J then (c k)\<lparr>c_pc := CHalt\<rparr> else c k"
  let ?s = "(conf (at_child J V (jb_P J) p) ?c, \<lambda>_. [])"
  have P: "0 < jb_P J" "en_of J (jb_P J - 1) = jb_N J - 2" using J by (auto simp: job_ok_def)
  have "gathered V (pa_u p) 1 = pa_u p" by (auto simp: gathered_def)
  then have "at_child J V 0 p = at_order J True (jb_P J) p" by (simp add: at_child_def at_order_def)
  moreover have "(jstep J)\<^sup>*\<^sup>* (conf (at_child J V 0 p) c, \<lambda>_. []) ?s"
    using c by (intro gather_phase [OF J]) (auto simp: ordered_def)
  moreover have "stopped J V ?s"
    using P gathered_all [of "jb_N J - 2" V "pa_u p"] V by (simp add: stopped_def at_child_def)
  ultimately show ?thesis by (metis (no_types, lifting))
qed

lemma seq_unfold:
  "\<exists>w'. jacobi_seq (jb_ops J) (jb_N J) (jb_E J) (jb_L J) w count U =
     (let V = next_grid (jb_ops J) (jb_N J) 1 (jb_N J - 2) U in
      if done_after J count U then V else jacobi_seq (jb_ops J) (jb_N J) (jb_E J) (jb_L J) w' (count + 1) V)"
  using sweep_eq [of "jb_ops J" "jb_N J" 1 "jb_N J - 2" w U]
  by (subst jacobi_seq.simps) (auto simp: done_after_def Let_def split: prod.splits)

lemma head_run:
  assumes F: "ieee_order (jb_ops J)" and J: "job_ok J"
  shows "loop_head J u U count p c \<Longrightarrow>
    \<exists>s. (jstep J)\<^sup>*\<^sup>* (conf p c, \<lambda>_. []) s \<and> stopped J (jacobi_seq (jb_ops J) (jb_N J) (jb_E J) (jb_L J) w count U) s"
proof (induction "nat (jb_L J + 1 - count)" arbitrary: U count p c w rule: less_induct)
  case less
  let ?V = "next_grid (jb_ops J) (jb_N J) 1 (jb_N J - 2) U" and ?fin = "done_after J count U"
  obtain w' where w: "jacobi_seq (jb_ops J) (jb_N J) (jb_E J) (jb_L J) w count U =
      (if ?fin then ?V else jacobi_seq (jb_ops J) (jb_N J) (jb_E J) (jb_L J) w' (count + 1) ?V)"
    using seq_unfold [of J w count U] unfolding Let_def by blast
  obtain p' c' where run: "(jstep J)\<^sup>*\<^sup>* (conf p c, \<lambda>_. []) (conf (at_order J ?fin (jb_P J) p') c', \<lambda>_. [])"
    and p': "pa_u p' = u" "length (pa_recv p') = jb_P J" "pa_count p' = count + 1"
    and c': "\<forall>k<jb_P J. \<exists>b. c' k = ordered J ?fin k b \<and> agree J ?V k (c_u b)"
    using round_run [OF F J less.prems] by blast
  have V: "?V i = u i" if "\<not> (1 \<le> i \<and> i \<le> jb_N J - 2)" for i
  proof -
    have "U i = u i" using less.prems that unfolding loop_head_def by blast
    with next_grid_row [OF that] show ?thesis by metis
  qed
  have "\<exists>s. (jstep J)\<^sup>*\<^sup>* (conf (at_order J ?fin (jb_P J) p') c', \<lambda>_. []) s \<and>
    stopped J (jacobi_seq (jb_ops J) (jb_N J) (jb_E J) (jb_L J) w count U) s"
  proof (cases ?fin)
    case True
    then show ?thesis using final_run [OF J, of c' ?V p'] c' V p'(1) w by simp
  next
    case False
    then have "nat (jb_L J + 1 - (count + 1)) < nat (jb_L J + 1 - count)" by (simp add: done_after_def)
    moreover have "loop_head J u ?V (count + 1) (at_order J False (jb_P J) p') c'"
      using False c' V p' by (auto simp: loop_head_def at_order_def ordered_def)
    ultimately show ?thesis using less.hyps [of "count + 1" ?V "at_order J False (jb_P J) p'" c' w'] False w by simp
  qed
  with run show ?case by (meson rtranclp_trans)
qed

lemma fork_head:
  assumes "job_ok J"
  shows "\<exists>p c. fork_state J u w = conf p c \<and> loop_head J u u 0 p c"
proof -
  let ?b = "\<lparr>c_pc = CHalt, c_u = u, c_w = w, c_diff = fint (jb_ops J) 0\<rparr>"
  let ?c = "\<lambda>k. if st_of J k > en_of J k then ?b else to_send_up J k ?b"
  let ?p = "\<lparr>pa_pc = RecvDiff 0, pa_u = u, pa_recv = replicate (jb_P J) (fint (jb_ops J) 0), pa_count = 0\<rparr>"
  have "fork_state J u w = conf ?p ?c"
    by (auto simp: fork_state_def conf_def fun_eq_iff Let_def split: nat.splits)
  moreover have "?c k = to_send_up J k ?b \<and> agree J u k (c_u ?b)" if "k < jb_P J" for k
    using assms that by (auto simp: job_ok_def agree_def not_less)
  then have "loop_head J u u 0 ?p ?c" unfolding loop_head_def by (auto simp del: if_split)
  ultimately show ?thesis by blast
qed

lemma solver_runs:
  assumes "ieee_order (jb_ops J)" "job_ok J"
  shows "\<exists>n t. stopped J (jacobi_seq (jb_ops J) (jb_N J) (jb_E J) (jb_L J) w' 0 u) t \<and>
    (\<forall>k s. (jstep J ^^ k) (fork_state J u w, \<lambda>_. []) s \<longrightarrow> k \<le> n \<and> (jstep J ^^ (n - k)) s t)"
proof -
  obtain p c where "fork_state J u w = conf p c" "loop_head J u u 0 p c" using fork_head [OF assms(2)] by blast
  then obtain t where t: "(jstep J)\<^sup>*\<^sup>* (fork_state J u w, \<lambda>_. []) t"
    "stopped J (jacobi_seq (jb_ops J) (jb_N J) (jb_E J) (jb_L J) w' 0 u) t"
    using head_run [OF assms] by metis
  then obtain n where "(jstep J ^^ n) (fork_state J u w, \<lambda>_. []) t" by (meson rtranclp_imp_relpowp)
  then show ?thesis using t(2) stopped_stuck [OF t(2)] jn.all_runs by blast
qed

subsection \<open>Properties\<close>

definition int_ops :: "int fops" where
  "int_ops = \<lparr>fadd = (+), fsub = (-), fmul = (*), fdiv = (div), fquot = (div), fless = (<), fle = (\<le>),
     fint = id, ftrunc = id\<rparr>"

text \<open>Claim C31. The rows are divided without gap or overlap: with \<open>N \<ge> 3\<close> and at least one
  process, the first worker starts at row 1, the last one ends at row \<open>N - 2\<close>, each one starts right
  after the one before it, none is left without a row, and there are as many as there are processes and rows
  for them.\<close>

theorem rows_divided:
  assumes "3 \<le> N" "0 < P" "J = mk_job F N E P L"
  shows "jb_P J = min P (N - 2) \<and> st_of J 0 = 1 \<and> en_of J (jb_P J - 1) = N - 2 \<and>
    (\<forall>k<jb_P J. st_of J k \<le> en_of J k) \<and> (\<forall>k. Suc k < jb_P J \<longrightarrow> st_of J (Suc k) = Suc (en_of J k))"
proof -
  have "jb_N J = N" by (simp add: assms(3) mk_job_def Let_def)
  then show ?thesis
    using mk_job_ok [OF assms(1,2), of F E L] mk_job_P [OF assms(1,2), of F E L]
    unfolding job_ok_def assms(3) [symmetric] by metis
qed

theorem rows_divided_witness:
  "jb_rng (mk_job int_ops 6 1 3 9) = [(1, 2), (3, 3), (4, 4)] \<and>
   jb_P (mk_job int_ops 6 1 3 9) = 3"
proof
  show "jb_rng (mk_job int_ops 6 1 3 9) = [(1, 2), (3, 3), (4, 4)]" by code_simp
  show "jb_P (mk_job int_ops 6 1 3 9) = 3"
    using rows_divided [of 6 3, OF _ _ refl, of int_ops 1 9] by simp
qed



text \<open>\<^verbatim>\<open>readFLOAT\<close> returns only if the rest of the file has a newline (or the
  uninitialised character is one): a file whose last line has no newline makes the solver spin.\<close>

theorem readFLOAT_needs_newline:
  assumes "10 \<notin> set inp" "junk \<noteq> 10"
  shows "readFLOAT F junk inp = None"
proof -
  have "10 \<in> set inp \<or> c0 = 10" if r: "readFLOAT_loop F c0 num deci sw inp = Some y" for c0 num deci sw inp y
  proof (rule readFLOAT_loop.raw_induct [of "\<lambda>F c0 num deci sw inp y. 10 \<in> set inp \<or> c0 = 10", OF _ r])
    fix loop :: "'a fops \<Rightarrow> byte \<Rightarrow> 'a \<Rightarrow> 'a \<Rightarrow> bool \<Rightarrow> byte list \<Rightarrow> ('a \<times> byte list) option" and F c0 num deci sw inp y
    assume IH: "\<And>F c0 num deci sw inp y. loop F c0 num deci sw inp = Some y \<Longrightarrow> 10 \<in> set inp \<or> c0 = 10"
      and "(let c = case inp of [] \<Rightarrow> c0 | c # x \<Rightarrow> c; rest = tl inp
        in if c = 10 then Some (num, rest) else if c = 46 then loop F c num deci True rest
           else if \<not> sw then loop F c (fadd F (fmul F num (fint F 10)) (fint F (digit c))) deci sw rest
           else loop F c (fadd F num (fdiv F (fint F (digit c)) deci)) (fmul F deci (fint F 10)) sw rest) = Some y"
    then show "10 \<in> set inp \<or> c0 = 10"
      by (cases inp) (auto simp: Let_def split: if_splits dest!: IH)
  qed
  then show ?thesis using assms unfolding readFLOAT_def by (metis option.exhaust)
qed

theorem readFLOAT_needs_newline_witness: "readFLOAT int_ops 0 [49, 46, 53] = None"
  using readFLOAT_needs_newline [of "[49, 46, 53]" 0 int_ops] by simp

end
