(* ===== verification/Grep.thy ===== *)
theory Grep
  imports Strings
begin

text \<open>
  \<^verbatim>\<open>grep.c\<close>: the pattern matcher and the loop that prints the matching lines. A string is the list of
  its bytes before the nul; the input of \<open>grep\<close> is the list of chunks that \<^verbatim>\<open>read\<close> returns.
\<close>

subsection \<open>The matcher\<close>

definition DOLLAR :: byte where "DOLLAR = 36"
definition STAR :: byte where "STAR = 42"
definition DOT :: byte where "DOT = 46"
definition CARET :: byte where "CARET = 94"
definition NL :: byte where "NL = 10"

function matchhere :: "byte list \<Rightarrow> byte list \<Rightarrow> bool"
  and matchstar :: "byte \<Rightarrow> byte list \<Rightarrow> byte list \<Rightarrow> bool" where
  "matchhere re str =
     (case re of
        [] \<Rightarrow> True
      | r # re' \<Rightarrow>
          if re' \<noteq> [] \<and> hd re' = STAR then matchstar r (tl re') str
          else if r = DOLLAR \<and> re' = [] then str = []
          else (case str of
                  t # str' \<Rightarrow> if r = DOT \<or> r = t then matchhere re' str' else False
                | [] \<Rightarrow> False))"
| "matchstar c re str =
     (if matchhere re str then True
      else (case str of
              t # str' \<Rightarrow> if t = c \<or> c = DOT then matchstar c re str' else False
            | [] \<Rightarrow> False))"
  by pat_completeness auto
termination
  by (relation "measures [case_sum (\<lambda>(re, str). length re) (\<lambda>(c, re, str). Suc (length re)),
      case_sum (\<lambda>(re, str). length str) (\<lambda>(c, re, str). length str)]")
    (auto simp: neq_Nil_conv)

fun match_any :: "byte list \<Rightarrow> byte list \<Rightarrow> bool" where
  "match_any re str = (if matchhere re str then True else (case str of [] \<Rightarrow> False | _ # str' \<Rightarrow> match_any re str'))"

definition match :: "byte list \<Rightarrow> byte list \<Rightarrow> bool" where
  "match re str = (if re \<noteq> [] \<and> hd re = CARET then matchhere (tl re) str else match_any re str)"

subsection \<open>The lines\<close>

text \<open>
  The inner loop on the bytes in the buffer: what it writes, whether it found a newline, and the bytes
  after the last newline. \<^verbatim>\<open>strchr\<close> sees the bytes before the first nul only.
\<close>

function scan_lines :: "byte list \<Rightarrow> byte list \<Rightarrow> byte list \<times> bool \<times> byte list" where
  "scan_lines pattern p =
     (if NL \<in> set (cstr p) then
        let line = takeWhile (\<lambda>c. c \<noteq> NL) p; q = tl (dropWhile (\<lambda>c. c \<noteq> NL) p);
            (out, _, rest) = scan_lines pattern q
        in ((if match pattern line then line @ [NL] else []) @ out, True, rest)
      else ([], False, p))"
  by pat_completeness auto
termination
proof (relation "measure (\<lambda>(pattern, p). length p)")
  fix p :: "byte list" and q assume "NL \<in> set (cstr p)" and q: "q = tl (dropWhile (\<lambda>c. c \<noteq> NL) p)"
  then have "NL \<in> set p" unfolding cstr_def by (meson set_takeWhileD)
  then have "dropWhile (\<lambda>c. c \<noteq> NL) p \<noteq> []" by auto
  moreover have "length (dropWhile (\<lambda>c. c \<noteq> NL) p) \<le> length p" by (rule length_dropWhile_le)
  ultimately show "((pattern, q), pattern, p) \<in> measure (\<lambda>(pattern, p). length p)" for pattern :: "byte list"
    unfolding q by (cases "dropWhile (\<lambda>c. c \<noteq> NL) p") auto
qed simp

text \<open>
  The outer loop. \<open>keep\<close> is what is in the buffer, \<open>m\<close> of the code its length. A chunk is what \<^verbatim>\<open>read\<close>
  returns; the buffer has 1024 bytes, so a chunk has at most \<open>1023 - m\<close>.
\<close>

fun grep_loop :: "byte list \<Rightarrow> byte list \<Rightarrow> byte list list \<Rightarrow> byte list" where
  "grep_loop pattern keep [] = []"
| "grep_loop pattern keep (n # reads) =
     (if n = [] then []
      else
        let buf = keep @ n; (out, found, p) = scan_lines pattern buf
        in out @ grep_loop pattern (if found then p else []) reads)"

definition grep :: "byte list \<Rightarrow> byte list list \<Rightarrow> byte list" where
  "grep pattern reads = grep_loop pattern [] reads"

subsection \<open>What a pattern means\<close>

datatype item = IChar byte | IStar byte | IEnd

fun items :: "byte list \<Rightarrow> item list" where
  "items [] = []"
| "items [r] = (if r = DOLLAR then [IEnd] else [IChar r])"
| "items (r # s # re) = (if s = STAR then IStar r # items re else IChar r # items (s # re))"

definition fits :: "byte \<Rightarrow> byte \<Rightarrow> bool" where
  "fits c x \<longleftrightarrow> c = DOT \<or> x = c"

inductive hits :: "item list \<Rightarrow> byte list \<Rightarrow> bool" where
  hit_Nil: "hits [] t"
| hit_End: "hits [IEnd] []"
| hit_Char: "fits c x \<Longrightarrow> hits its t \<Longrightarrow> hits (IChar c # its) (x # t)"
| hit_Star: "\<forall>x\<in>set w. fits c x \<Longrightarrow> hits its t \<Longrightarrow> hits (IStar c # its) (w @ t)"

inductive_simps hits_simps [simp]: "hits [] t" "hits [IEnd] t" "hits (IChar c # its) t"
inductive_cases hits_StarE: "hits (IStar c # its) t"

declare matchhere.simps [simp del] matchstar.simps [simp del] match_any.simps [simp del] scan_lines.simps [simp del]

lemma hits_Star:
  "hits (IStar c # its) t \<longleftrightarrow> hits its t \<or> (\<exists>x t'. t = x # t' \<and> fits c x \<and> hits (IStar c # its) t')"
proof
  assume "hits (IStar c # its) t"
  then obtain w v where t: "t = w @ v" "\<forall>x\<in>set w. fits c x" "hits its v" by (elim hits_StarE) auto
  then show "hits its t \<or> (\<exists>x t'. t = x # t' \<and> fits c x \<and> hits (IStar c # its) t')"
    by (cases w) (auto intro: hit_Star)
next
  assume "hits its t \<or> (\<exists>x t'. t = x # t' \<and> fits c x \<and> hits (IStar c # its) t')"
  then show "hits (IStar c # its) t"
  proof
    assume "hits its t"
    then show ?thesis using hit_Star [of "[]" c its t] by simp
  next
    assume "\<exists>x t'. t = x # t' \<and> fits c x \<and> hits (IStar c # its) t'"
    then obtain x w v where "t = x # w @ v" "fits c x" "\<forall>x\<in>set w. fits c x" "hits its v" by (auto elim: hits_StarE)
    then show ?thesis using hit_Star [of "x # w" c its v] by simp
  qed
qed

lemma matcher_correct:
  "matchhere re str \<longleftrightarrow> hits (items re) str"
  "matchstar c re str \<longleftrightarrow> hits (IStar c # items re) str"
proof (induction re str and c re str rule: matchhere_matchstar.induct)
  case (1 re str)
  show ?case
  proof (cases re rule: items.cases)
    case 1
    then show ?thesis by (subst matchhere.simps) simp
  next
    case (2 r)
    have "matchhere [] t" for t by (subst matchhere.simps) simp
    then show ?thesis using 2 by (subst matchhere.simps) (auto simp: fits_def split: list.splits)
  next
    case (3 r s re')
    then show ?thesis using "1.IH" by (subst matchhere.simps) (auto simp: fits_def split: list.splits)
  qed
next
  case (2 c re str)
  then show ?case by (subst hits_Star, subst matchstar.simps) (auto simp: fits_def split: list.splits)
qed

lemma match_any_iff: "match_any re str \<longleftrightarrow> (\<exists>u v. str = u @ v \<and> matchhere re v)"
proof (induction str)
  case Nil
  show ?case by (subst match_any.simps) simp
next
  case (Cons t str)
  have "(\<exists>u v. t # str = u @ v \<and> matchhere re v) \<longleftrightarrow> matchhere re (t # str) \<or> (\<exists>u v. str = u @ v \<and> matchhere re v)"
    by (auto simp: Cons_eq_append_conv)
  with Cons show ?case by (subst match_any.simps) simp
qed

text \<open>Claim C33. The matcher decides what the pattern means: with a leading caret the rest of the pattern
  hits at the start of the text, otherwise it hits at some position. A pattern is a sequence of
  characters, dots for any character, starred characters or dots for any number of repetitions, and
  a final dollar for the end of the text.\<close>

theorem match_correct:
  "match re str \<longleftrightarrow>
     (if re \<noteq> [] \<and> hd re = CARET then hits (items (tl re)) str
      else \<exists>u v. str = u @ v \<and> hits (items re) v)"
  by (simp add: match_def match_any_iff matcher_correct)

subsection \<open>Printing the lines\<close>

text \<open>The lines of a text that ends with a newline.\<close>

fun lines_of :: "byte list \<Rightarrow> byte list \<Rightarrow> byte list list" where
  "lines_of acc [] = []"
| "lines_of acc (c # cs) = (if c = NL then rev acc # lines_of [] cs else lines_of (c # acc) cs)"

definition print_lines :: "byte list \<Rightarrow> byte list list \<Rightarrow> byte list" where
  "print_lines pattern ls = concat (map (\<lambda>l. l @ [NL]) (filter (match pattern) ls))"

lemma lines_of_append: "lines_of acc (xs @ [NL] @ ys) = lines_of acc (xs @ [NL]) @ lines_of [] ys"
  by (induction xs arbitrary: acc) auto

lemma scan_lines_step:
  assumes "NL \<notin> set ys" "0 \<notin> set ys"
  shows "scan_lines pattern (ys @ NL # zs) = (let (out, _, rest) = scan_lines pattern zs in
      ((if match pattern ys then ys @ [NL] else []) @ out, True, rest))"
proof -
  have ys: "\<forall>c\<in>set ys. c \<noteq> NL" "\<forall>c\<in>set ys. c \<noteq> 0" using assms by metis+
  then have "takeWhile (\<lambda>c. c \<noteq> NL) (ys @ NL # zs) = ys" "dropWhile (\<lambda>c. c \<noteq> NL) (ys @ NL # zs) = NL # zs"
    "NL \<in> set (cstr (ys @ NL # zs))" by (simp_all add: cstr_def NL_def)
  then show ?thesis by (subst scan_lines.simps) (simp add: Let_def)
qed

lemma lines_of_step: "NL \<notin> set ys \<Longrightarrow> lines_of acc (ys @ NL # zs) = (rev acc @ ys) # lines_of [] zs"
  by (induction ys arbitrary: acc) auto

lemma scan_lines_eq:
  assumes "0 \<notin> set p" "last (NL # p) = NL"
  shows "scan_lines pattern p = (print_lines pattern (lines_of [] p), p \<noteq> [], [])"
  using assms
proof (induction "length p" arbitrary: p rule: less_induct)
  case less
  show ?case
  proof (cases "p = []")
    case True
    then show ?thesis by (subst scan_lines.simps) (simp add: cstr_def print_lines_def)
  next
    case False
    then have "NL \<in> set p" using less.prems(2) last_in_set [of p] by simp
    then obtain ys zs where p: "p = ys @ NL # zs" "NL \<notin> set ys" by (meson split_list_first)
    then have "last (NL # zs) = NL" "0 \<notin> set zs" "0 \<notin> set ys" using less.prems by auto
    then have "scan_lines pattern zs = (print_lines pattern (lines_of [] zs), zs \<noteq> [], [])"
      using less.hyps [of zs] p(1) by simp
    then show ?thesis
      using p \<open>0 \<notin> set ys\<close> by (simp add: scan_lines_step lines_of_step print_lines_def)
  qed
qed



text \<open>
  A read that brings part of a line and no newline is lost: the buffer is emptied when no newline was
  found in it. The line \<open>abc\<close> read in two pieces is not found.
\<close>

lemma grep_loses_split_line:
  "grep [97, 98, 99] [[97, 98], [99, 10]] = [] \<and> grep [97, 98, 99] [[97, 98, 99, 10]] = [97, 98, 99, 10]"
  by code_simp

end
