(* ===== verification/Shell.thy ===== *)
theory Shell
  imports Strings "HOL-Library.Sublist"
begin

text \<open>
  The shell \<^verbatim>\<open>sh.c\<close>: its parser, and the system calls with which it runs a parsed command.

  A pointer into the command line is the list of the bytes from there to \<^verbatim>\<open>es\<close>, the end of the line;
  reading through it beyond the last byte gives the nul there. \<^verbatim>\<open>malloc\<close> succeeds, so the nodes of the
  command are the constructors of a datatype.
\<close>

subsection \<open>Tokens\<close>

type_synonym ptr = "byte list"

definition ch :: "ptr \<Rightarrow> byte" where
  "ch s = (case s of [] \<Rightarrow> 0 | c # _ \<Rightarrow> c)"

definition sh_whitespace :: "byte list" where "sh_whitespace = [32, 9, 13, 10, 11]"
definition sh_symbols :: "byte list" where "sh_symbols = [60, 124, 62, 38, 59, 40, 41]"

abbreviation LT :: byte where "LT \<equiv> 60"
abbreviation BAR :: byte where "BAR \<equiv> 124"
abbreviation GT :: byte where "GT \<equiv> 62"
abbreviation AMP :: byte where "AMP \<equiv> 38"
abbreviation SEMI :: byte where "SEMI \<equiv> 59"
abbreviation LPAR :: byte where "LPAR \<equiv> 40"
abbreviation RPAR :: byte where "RPAR \<equiv> 41"
abbreviation TOK_A :: byte where "TOK_A \<equiv> 97"
abbreviation TOK_PLUS :: byte where "TOK_PLUS \<equiv> 43"

definition skip_ws :: "ptr \<Rightarrow> ptr" where
  "skip_ws s = dropWhile (\<lambda>c. c \<in> set sh_whitespace) s"

definition word_char :: "byte \<Rightarrow> bool" where
  "word_char c \<longleftrightarrow> c \<notin> set sh_whitespace \<and> c \<notin> set sh_symbols"

text \<open>The token, the pointers \<^verbatim>\<open>*q\<close> and \<^verbatim>\<open>*eq\<close> to its start and end, and the new \<^verbatim>\<open>*ps\<close>.\<close>

definition gettoken :: "ptr \<Rightarrow> byte \<times> ptr \<times> ptr \<times> ptr" where
  "gettoken s =
     (let q = skip_ws s;
          (ret, eq) =
            (if ch q = 0 then (0, q)
             else if ch q \<in> {BAR, LPAR, RPAR, SEMI, AMP, LT} then (ch q, tl q)
             else if ch q = GT then if ch (tl q) = GT then (TOK_PLUS, tl (tl q)) else (GT, tl q)
             else (TOK_A, dropWhile word_char q))
      in (ret, q, eq, skip_ws eq))"

definition next_tok :: "ptr \<Rightarrow> ptr" where
  "next_tok s = (case gettoken s of (_, _, _, s) \<Rightarrow> s)"

definition peek :: "ptr \<Rightarrow> byte list \<Rightarrow> bool" where
  "peek s toks \<longleftrightarrow> ch (skip_ws s) \<noteq> 0 \<and> ch (skip_ws s) \<in> set toks"

subsection \<open>Commands\<close>

datatype 'p cmd =
    EXEC "'p list"
  | REDIR "'p cmd" 'p int int
  | PIPE "'p cmd" "'p cmd"
  | LIST "'p cmd" "'p cmd"
  | BACK "'p cmd"

definition MAXARGS :: nat where "MAXARGS = 10"
definition O_RDONLY :: int where "O_RDONLY = 0"
definition O_WRONLY :: int where "O_WRONLY = 1"
definition O_CREATE :: int where "O_CREATE = 512"

text \<open>\<^verbatim>\<open>cmd->argv[argc] = q\<close>: the \<^verbatim>\<open>EXEC\<close> node lies below the redirections found so far.\<close>

primrec add_arg :: "'p \<Rightarrow> 'p cmd \<Rightarrow> 'p cmd" where
  "add_arg a (EXEC as) = EXEC (as @ [a])"
| "add_arg a (REDIR c f mode fd) = REDIR (add_arg a c) f mode fd"
| "add_arg a (PIPE c d) = PIPE c d"
| "add_arg a (LIST c d) = LIST c d"
| "add_arg a (BACK c) = BACK c"

primrec num_args :: "'p cmd \<Rightarrow> nat" where
  "num_args (EXEC as) = length as"
| "num_args (REDIR c f mode fd) = num_args c"
| "num_args (PIPE c d) = 0"
| "num_args (LIST c d) = 0"
| "num_args (BACK c) = 0"

subsection \<open>The parser\<close>

datatype 'a pres = Got 'a ptr | Failed string | NoFuel

primrec pbind :: "'a pres \<Rightarrow> ('a \<Rightarrow> ptr \<Rightarrow> 'b pres) \<Rightarrow> 'b pres" where
  "pbind (Got a s) f = f a s"
| "pbind (Failed m) f = Failed m"
| "pbind NoFuel f = NoFuel"

type_synonym tcmd = "(ptr \<times> ptr) cmd"

lemma length_skip_ws [simp]: "length (skip_ws s) \<le> length s"
  by (simp add: skip_ws_def length_dropWhile_le)

lemma gettoken_ptrs: "gettoken s = (t, q, eq, s') \<Longrightarrow> q = skip_ws s \<and> s' = skip_ws eq"
  by (auto simp: gettoken_def Let_def split: if_splits)

lemma gettoken_le:
  assumes "gettoken s = (t, q, eq, s')"
  shows "length s' \<le> length eq \<and> length eq \<le> length q \<and> length q \<le> length s"
proof -
  have "length eq \<le> length q"
    using assms by (auto simp: gettoken_def Let_def length_dropWhile_le split: if_splits)
  then show ?thesis using gettoken_ptrs [OF assms] by simp
qed

lemma gettoken_less: "gettoken s = (t, q, eq, s') \<Longrightarrow> t \<noteq> 0 \<Longrightarrow> length eq < length q"
proof -
  assume g: "gettoken s = (t, q, eq, s')" and t: "t \<noteq> 0"
  then have "q \<noteq> []" by (auto simp: gettoken_def Let_def ch_def split: if_splits)
  then obtain c r where q: "q = c # r" by (cases q) auto
  show ?thesis
  proof (cases "c \<in> set sh_symbols")
    case True
    then show ?thesis using g t q
      by (cases r) (auto simp: gettoken_def Let_def ch_def sh_symbols_def split: if_splits)
  next
    case False
    have "skip_ws s = c # r" using g q by (auto simp: gettoken_def Let_def split: if_splits)
    then have "c \<notin> set sh_whitespace" unfolding skip_ws_def by (metis (mono_tags) hd_dropWhile list.distinct(1) list.sel(1))
    with False have "dropWhile word_char q = dropWhile word_char r" by (simp add: q word_char_def)
    then show ?thesis using g t q False length_dropWhile_le [of word_char r]
      by (auto simp: gettoken_def Let_def ch_def sh_symbols_def split: if_splits)
  qed
qed

lemma next_tok_less: "peek s toks \<Longrightarrow> length (next_tok s) < length s"
proof -
  assume p: "peek s toks"
  obtain t q eq s' where g: "gettoken s = (t, q, eq, s')" by (cases "gettoken s") auto
  then have "t \<noteq> 0" using p by (auto simp: gettoken_def Let_def peek_def split: if_splits)
  then show ?thesis using gettoken_less [OF g] gettoken_le [OF g] g by (simp add: next_tok_def)
qed

definition redir_of :: "byte \<Rightarrow> 'p \<Rightarrow> 'p cmd \<Rightarrow> 'p cmd" where
  "redir_of tok f cmd =
     (if tok = LT then REDIR cmd f O_RDONLY 0
      else if tok = GT then REDIR cmd f (O_WRONLY + O_CREATE) 1
      else if tok = TOK_PLUS then REDIR cmd f (O_WRONLY + O_CREATE) 1
      else cmd)"

lemma two_tokens_less:
  assumes "peek s toks" "(tok, a, b, s1) = gettoken s" "(t, q, eq, s2) = gettoken s1"
  shows "length s2 < length s"
proof -
  have "length s1 < length s" using next_tok_less [OF assms(1)] assms(2) [symmetric] by (simp add: next_tok_def)
  moreover have "length s2 \<le> length s1" using gettoken_le [OF assms(3) [symmetric]] by simp
  ultimately show ?thesis by simp
qed

function parseredirs :: "tcmd \<Rightarrow> ptr \<Rightarrow> tcmd pres" where
  "parseredirs cmd s =
     (if peek s [LT, GT] then
        case gettoken s of (tok, _, _, s1) \<Rightarrow>
        case gettoken s1 of (t, q, eq, s2) \<Rightarrow>
          if t \<noteq> TOK_A then Failed ''missing file for redirection''
          else parseredirs (redir_of tok (q, eq) cmd) s2
      else Got cmd (skip_ws s))"
  by pat_completeness auto
termination by (relation "measure (\<lambda>(cmd, s). length s)") (auto simp: two_tokens_less)

declare parseredirs.simps [simp del]

lemma parseredirs_stop: "\<not> peek s [LT, GT] \<Longrightarrow> parseredirs cmd s = Got cmd (skip_ws s)"
  by (subst parseredirs.simps) simp

lemma parseredirs_step:
  assumes "peek s [LT, GT]" "gettoken s = (tok, a, b, s1)" "gettoken s1 = (t, q, eq, s2)"
  shows "parseredirs cmd s =
    (if t \<noteq> TOK_A then Failed ''missing file for redirection'' else parseredirs (redir_of tok (q, eq) cmd) s2)"
  using assms by (subst parseredirs.simps) simp

lemma parseredirs_le: "parseredirs cmd s = Got c s' \<Longrightarrow> length s' \<le> length s"
proof (induction "length s" arbitrary: cmd s rule: less_induct)
  case less
  obtain tok a b s1 t q eq s2 where g: "gettoken s = (tok, a, b, s1)" "gettoken s1 = (t, q, eq, s2)"
    by (metis prod_cases4)
  show ?case
  proof (cases "peek s [LT, GT]")
    case True
    have "length s2 < length s" using two_tokens_less [OF True g [symmetric]] .
    with less.hyps [OF this] less.prems show ?thesis
      by (fastforce simp: parseredirs_step [OF True g] split: if_splits)
  next
    case False
    with less.prems show ?thesis by (auto simp: parseredirs_stop)
  qed
qed

lemma arg_less:
  assumes "(tok, q, eq, s1) = gettoken s" "tok \<noteq> 0" "parseredirs c s1 = Got c' s2"
  shows "length s2 < length s"
  using gettoken_less [OF assms(1) [symmetric] assms(2)] gettoken_le [OF assms(1) [symmetric]] parseredirs_le [OF assms(3)]
  by simp

text \<open>The loops over arguments and over ampersands.\<close>

function parseargs :: "tcmd \<Rightarrow> ptr \<Rightarrow> tcmd pres" where
  "parseargs ret s =
     (if peek s [BAR, RPAR, AMP, SEMI] then Got ret (skip_ws s)
      else
        case gettoken s of (tok, q, eq, s1) \<Rightarrow>
          if tok = 0 then Got ret s1
          else if tok \<noteq> TOK_A then Failed ''syntax''
          else
            let ret = add_arg (q, eq) ret in
            if num_args ret \<ge> MAXARGS then Failed ''too many args''
            else (case parseredirs ret s1 of
                    Got ret s2 \<Rightarrow> parseargs ret s2
                  | Failed m \<Rightarrow> Failed m
                  | NoFuel \<Rightarrow> NoFuel))"
  by pat_completeness auto

termination by (relation "measure (\<lambda>(ret, s). length s)") (auto simp: arg_less)

function parseback :: "tcmd \<Rightarrow> ptr \<Rightarrow> tcmd \<times> ptr" where
  "parseback cmd s = (if peek s [AMP] then parseback (BACK cmd) (next_tok s) else (cmd, skip_ws s))"
  by pat_completeness auto
termination by (relation "measure (\<lambda>(cmd, s). length s)") (auto simp: next_tok_less)

declare parseargs.simps [simp del] parseback.simps [simp del]

text \<open>
  The grammar proper. The functions call each other on the same input before they consume any, so they
  take fuel; \<open>parse_total\<close> below shows that four units per byte are enough.
\<close>

fun parseline :: "nat \<Rightarrow> ptr \<Rightarrow> tcmd pres"
  and parsepipe :: "nat \<Rightarrow> ptr \<Rightarrow> tcmd pres"
  and parseblock :: "nat \<Rightarrow> ptr \<Rightarrow> tcmd pres"
  and parseexec :: "nat \<Rightarrow> ptr \<Rightarrow> tcmd pres" where
  "parseline 0 s = NoFuel"
| "parseline (Suc n) s =
     pbind (parsepipe n s) (\<lambda>cmd s.
       case parseback cmd s of (cmd, s) \<Rightarrow>
       if peek s [SEMI] then pbind (parseline n (next_tok s)) (\<lambda>r. Got (LIST cmd r))
       else Got cmd (skip_ws s))"
| "parsepipe 0 s = NoFuel"
| "parsepipe (Suc n) s =
     pbind (parseexec n s) (\<lambda>cmd s.
       if peek s [BAR] then pbind (parsepipe n (next_tok s)) (\<lambda>r. Got (PIPE cmd r))
       else Got cmd (skip_ws s))"
| "parseblock 0 s = NoFuel"
| "parseblock (Suc n) s =
     (if \<not> peek s [LPAR] then Failed ''parseblock''
      else pbind (parseline n (next_tok s)) (\<lambda>cmd s.
        if \<not> peek s [RPAR] then Failed ''syntax - missing )''
        else parseredirs cmd (next_tok s)))"
| "parseexec 0 s = NoFuel"
| "parseexec (Suc n) s =
     (if peek s [LPAR] then parseblock n s
      else pbind (parseredirs (EXEC []) s) parseargs)"

subsection \<open>The terminating nuls\<close>

text \<open>\<^verbatim>\<open>*eq = 0\<close> in the line \<open>buf\<close>; at the end of the line there is a nul already.\<close>

definition put_nul :: "ptr \<Rightarrow> byte list \<Rightarrow> byte list" where
  "put_nul eq buf = buf[length buf - length eq := 0]"

primrec nulterminate :: "tcmd \<Rightarrow> byte list \<Rightarrow> byte list" where
  "nulterminate (EXEC as) buf = fold (\<lambda>a. put_nul (snd a)) as buf"
| "nulterminate (REDIR c f mode fd) buf = put_nul (snd f) (nulterminate c buf)"
| "nulterminate (PIPE c d) buf = nulterminate d (nulterminate c buf)"
| "nulterminate (LIST c d) buf = nulterminate d (nulterminate c buf)"
| "nulterminate (BACK c) buf = nulterminate c buf"

definition parsecmd :: "byte list \<Rightarrow> string + tcmd \<times> byte list" where
  "parsecmd buf =
     (case parseline (4 * length buf + 4) buf of
        Got cmd s \<Rightarrow> if skip_ws s \<noteq> [] then Inl ''syntax'' else Inr (cmd, nulterminate cmd buf)
      | Failed m \<Rightarrow> Inl m
      | NoFuel \<Rightarrow> Inl ''no fuel'')"

text \<open>The string a pointer of the command points to afterwards.\<close>

definition str_at :: "byte list \<Rightarrow> ptr \<Rightarrow> byte list" where
  "str_at buf q = cstr (drop (length buf - length q) buf)"

definition argv_of :: "tcmd \<Rightarrow> byte list \<Rightarrow> byte list cmd" where
  "argv_of c buf = map_cmd (\<lambda>(q, eq). str_at buf q) c"

subsection \<open>The parser returns\<close>

lemma parseredirs_fuel: "parseredirs cmd s \<noteq> NoFuel"
proof (induction "length s" arbitrary: cmd s rule: less_induct)
  case less
  obtain tok a b s1 t q eq s2 where g: "gettoken s = (tok, a, b, s1)" "gettoken s1 = (t, q, eq, s2)"
    by (metis prod_cases4)
  show ?case
    using less.hyps [OF two_tokens_less [OF _ g [symmetric]]] parseredirs_step [OF _ g] parseredirs_stop [of s]
    by (cases "peek s [LT, GT]") auto
qed

lemma parseargs_stop:
  "peek s [BAR, RPAR, AMP, SEMI] \<Longrightarrow> parseargs ret s = Got ret (skip_ws s)"
  "\<not> peek s [BAR, RPAR, AMP, SEMI] \<Longrightarrow> gettoken s = (0, q, eq, s1) \<Longrightarrow> parseargs ret s = Got ret s1"
  by (subst parseargs.simps, simp)+

lemma parseargs_step:
  assumes "\<not> peek s [BAR, RPAR, AMP, SEMI]" "gettoken s = (t, q, eq, s1)" "t \<noteq> 0"
  shows "parseargs ret s =
    (if t \<noteq> TOK_A then Failed ''syntax''
     else if num_args (add_arg (q, eq) ret) \<ge> MAXARGS then Failed ''too many args''
     else pbind (parseredirs (add_arg (q, eq) ret) s1) parseargs)"
  using assms by (subst parseargs.simps) (auto simp: Let_def split: pres.splits)

lemma parseargs_total: "parseargs ret s \<noteq> NoFuel \<and> (\<forall>c s'. parseargs ret s = Got c s' \<longrightarrow> length s' \<le> length s)"
proof (induction "length s" arbitrary: ret s rule: less_induct)
  case less
  obtain t q eq s1 where g: "gettoken s = (t, q, eq, s1)" by (metis prod_cases4)
  have l: "length s1 \<le> length s" using gettoken_le [OF g] by simp
  show ?case
  proof (cases "peek s [BAR, RPAR, AMP, SEMI] \<or> t = 0")
    case True
    then show ?thesis using parseargs_stop [of s] g l by (cases "peek s [BAR, RPAR, AMP, SEMI]") auto
  next
    case False
    show ?thesis
    proof (cases "parseredirs (add_arg (q, eq) ret) s1")
      case (Got r2 s2)
      then have "length s2 < length s" using arg_less [OF g [symmetric]] False by blast
      with less.hyps [OF this, of r2] Got False show ?thesis by (auto simp: parseargs_step [OF _ g])
    qed (use False parseredirs_fuel in \<open>auto simp: parseargs_step [OF _ g]\<close>)
  qed
qed

lemma parseback_step:
  "peek s [AMP] \<Longrightarrow> parseback cmd s = parseback (BACK cmd) (next_tok s)"
  "\<not> peek s [AMP] \<Longrightarrow> parseback cmd s = (cmd, skip_ws s)"
  by (subst parseback.simps, simp)+

lemma parseback_le: "parseback cmd s = (c, s') \<Longrightarrow> length s' \<le> length s"
proof (induction "length s" arbitrary: cmd s rule: less_induct)
  case less
  show ?case
  proof (cases "peek s [AMP]")
    case True
    with less next_tok_less [OF True] show ?thesis by (fastforce simp: parseback_step)
  next
    case False
    with less.prems show ?thesis by (auto simp: parseback_step)
  qed
qed

lemma pbind_Got: "pbind r f = Got b t \<longleftrightarrow> (\<exists>a s. r = Got a s \<and> f a s = Got b t)"
  by (cases r) auto

lemma pbind_NoFuel: "pbind r f = NoFuel \<longleftrightarrow> r = NoFuel \<or> (\<exists>a s. r = Got a s \<and> f a s = NoFuel)"
  by (cases r) auto

lemma parseline_Got:
  assumes "parseline (Suc n) s = Got c s'"
  obtains c1 s1 c2 s2 where "parsepipe n s = Got c1 s1" "parseback c1 s1 = (c2, s2)"
    "(if peek s2 [SEMI] then pbind (parseline n (next_tok s2)) (\<lambda>r. Got (LIST c2 r)) else Got c2 (skip_ws s2)) = Got c s'"
proof -
  obtain c1 s1 where 1: "parsepipe n s = Got c1 s1" using assms by (auto simp: pbind_Got)
  obtain c2 s2 where 2: "parseback c1 s1 = (c2, s2)" by (cases "parseback c1 s1")
  show thesis using assms that [OF 1 2] by (simp add: 1 2)
qed

lemma parseline_NoFuel:
  assumes "parseline (Suc n) s = NoFuel" "parsepipe n s \<noteq> NoFuel"
  obtains c1 s1 c2 s2 where "parsepipe n s = Got c1 s1" "parseback c1 s1 = (c2, s2)"
    "peek s2 [SEMI]" "parseline n (next_tok s2) = NoFuel"
proof -
  obtain c1 s1 where 1: "parsepipe n s = Got c1 s1" using assms by (auto simp: pbind_NoFuel)
  obtain c2 s2 where 2: "parseback c1 s1 = (c2, s2)" by (cases "parseback c1 s1")
  show thesis using assms that [OF 1 2] by (simp add: 1 2 pbind_NoFuel split: if_splits)
qed

lemma grammar_le:
  "(\<forall>s c s'. parseline n s = Got c s' \<longrightarrow> length s' \<le> length s) \<and>
   (\<forall>s c s'. parsepipe n s = Got c s' \<longrightarrow> length s' \<le> length s) \<and>
   (\<forall>s c s'. parseblock n s = Got c s' \<longrightarrow> length s' \<le> length s) \<and>
   (\<forall>s c s'. parseexec n s = Got c s' \<longrightarrow> length s' \<le> length s)"
proof (induction n)
  case 0
  then show ?case by simp
next
  case (Suc n)
  note skip = order_trans [OF length_skip_ws]
  have line: "length s' \<le> length s" if p: "parseline (Suc n) s = Got c s'" for s c s'
  proof -
    obtain c1 s1 c2 s2 where 1: "parsepipe n s = Got c1 s1" "parseback c1 s1 = (c2, s2)"
      and 2: "(if peek s2 [SEMI] then pbind (parseline n (next_tok s2)) (\<lambda>r. Got (LIST c2 r)) else Got c2 (skip_ws s2)) = Got c s'"
      using p by (rule parseline_Got)
    have "length s' \<le> length s2"
      using 2 Suc.IH next_tok_less [of s2 "[SEMI]"] by (fastforce simp: pbind_Got split: if_splits)
    with 1 Suc.IH parseback_le [OF 1(2)] show ?thesis by (meson order_trans)
  qed
  have pipe: "length s' \<le> length s" if p: "parsepipe (Suc n) s = Got c s'" for s c s'
  proof -
    obtain c1 s1 where 1: "parseexec n s = Got c1 s1"
      and 2: "(if peek s1 [BAR] then pbind (parsepipe n (next_tok s1)) (\<lambda>r. Got (PIPE c1 r)) else Got c1 (skip_ws s1)) = Got c s'"
      using p by (auto simp: pbind_Got)
    have "length s' \<le> length s1"
      using 2 Suc.IH next_tok_less [of s1 "[BAR]"] by (fastforce simp: pbind_Got split: if_splits)
    with 1 Suc.IH show ?thesis by (meson order_trans)
  qed
  have block: "length s' \<le> length s" if p: "parseblock (Suc n) s = Got c s'" for s c s'
  proof -
    obtain c1 s1 where 1: "peek s [LPAR]" "parseline n (next_tok s) = Got c1 s1" "peek s1 [RPAR]"
      "parseredirs c1 (next_tok s1) = Got c s'" using p by (auto simp: pbind_Got split: if_splits)
    have "length s1 \<le> length (next_tok s)" using 1(2) Suc.IH by blast
    with next_tok_less [OF 1(1)] next_tok_less [OF 1(3)] parseredirs_le [OF 1(4)] show ?thesis by linarith
  qed
  have exec: "length s' \<le> length s" if p: "parseexec (Suc n) s = Got c s'" for s c s'
  proof (cases "peek s [LPAR]")
    case True
    then show ?thesis using p Suc.IH by auto
  next
    case False
    then obtain c1 s1 where 1: "parseredirs (EXEC []) s = Got c1 s1" "parseargs c1 s1 = Got c s'"
      using p by (auto simp: pbind_Got)
    show ?thesis using parseredirs_le [OF 1(1)] parseargs_total [of c1 s1] 1(2) by fastforce
  qed
  show ?case using line pipe block exec by blast
qed

lemma grammar_total:
  "(4 * length s + 4 \<le> n \<longrightarrow> parseline n s \<noteq> NoFuel) \<and> (4 * length s + 3 \<le> n \<longrightarrow> parsepipe n s \<noteq> NoFuel) \<and>
   (4 * length s + 1 \<le> n \<longrightarrow> parseblock n s \<noteq> NoFuel) \<and> (4 * length s + 2 \<le> n \<longrightarrow> parseexec n s \<noteq> NoFuel)"
proof (induction n arbitrary: s)
  case 0
  then show ?case by simp
next
  case (Suc n)
  have "parseline (Suc n) s \<noteq> NoFuel" if f: "4 * length s + 4 \<le> Suc n"
  proof
    assume "parseline (Suc n) s = NoFuel"
    moreover have "parsepipe n s \<noteq> NoFuel" using Suc.IH [of s] f by simp
    ultimately obtain c1 s1 c2 s2 where 1: "parsepipe n s = Got c1 s1" "parseback c1 s1 = (c2, s2)"
      "peek s2 [SEMI]" "parseline n (next_tok s2) = NoFuel"
      by (rule parseline_NoFuel)
    have "length s1 \<le> length s" using 1(1) grammar_le by blast
    with next_tok_less [OF 1(3)] parseback_le [OF 1(2)] have "length (next_tok s2) < length s" by simp
    with Suc.IH [of "next_tok s2"] 1(4) f show False by simp
  qed
  moreover have "parsepipe (Suc n) s \<noteq> NoFuel" if f: "4 * length s + 3 \<le> Suc n"
  proof
    assume "parsepipe (Suc n) s = NoFuel"
    moreover have "parseexec n s \<noteq> NoFuel" using Suc.IH [of s] f by simp
    ultimately obtain c1 s1 where 1: "parseexec n s = Got c1 s1" "peek s1 [BAR]" "parsepipe n (next_tok s1) = NoFuel"
      by (auto simp: pbind_NoFuel split: if_splits)
    have "length s1 \<le> length s" using 1(1) grammar_le by blast
    with next_tok_less [OF 1(2)] have "length (next_tok s1) < length s" by simp
    with Suc.IH [of "next_tok s1"] 1(3) f show False by simp
  qed
  moreover have "parseblock (Suc n) s \<noteq> NoFuel" if "4 * length s + 1 \<le> Suc n"
    using Suc.IH [of "next_tok s"] next_tok_less [of s "[LPAR]"] that
    by (auto simp: pbind_NoFuel parseredirs_fuel split: if_splits)
  moreover have "parseexec (Suc n) s \<noteq> NoFuel" if "4 * length s + 2 \<le> Suc n"
    using Suc.IH [of s] that parseargs_total by (auto simp: pbind_NoFuel parseredirs_fuel split: if_splits)
  ultimately show ?case by blast
qed

text \<open>Claim C36. The parser always returns: four units of fuel for every byte of the line are enough for the
  grammar functions to come to a command or an error message.\<close>

theorem parse_total: "parseline (4 * length buf + 4) buf \<noteq> NoFuel"
  using grammar_total [of buf "4 * length buf + 4"] by simp

subsection \<open>The tokens of a command\<close>

text \<open>
  A token is a non-empty run of word characters up to a character that is none, or to the end of the line.
\<close>

definition tok_ok :: "ptr \<Rightarrow> ptr \<times> ptr \<Rightarrow> bool" where
  "tok_ok s t \<longleftrightarrow> suffix (fst t) s \<and> suffix (snd t) (fst t) \<and>
     (\<forall>i < length (fst t) - length (snd t). word_char (fst t ! i)) \<and> (snd t = [] \<or> \<not> word_char (hd (snd t)))"

lemma tok_ok_mono: "tok_ok s' t \<Longrightarrow> suffix s' s \<Longrightarrow> tok_ok s t"
  by (auto simp: tok_ok_def intro: suffix_order.trans)

lemma suffix_skip_ws [simp]: "suffix (skip_ws s) s"
  by (simp add: skip_ws_def suffix_dropWhile)

lemma gettoken_suffix:
  assumes "gettoken s = (t, q, eq, s')"
  shows "suffix s' s" "suffix eq q" "suffix q s"
proof -
  have q: "suffix q s" "suffix s' eq" using gettoken_ptrs [OF assms] by auto
  have "suffix (tl (tl q)) q" using suffix_order.trans suffix_tl by blast
  then have "suffix eq q"
    using assms by (auto simp: gettoken_def Let_def suffix_dropWhile suffix_tl split: if_splits)
  with q show "suffix s' s" "suffix eq q" "suffix q s" by (meson suffix_order.trans)+
qed

lemma gettoken_tok:
  assumes "gettoken s = (TOK_A, q, eq, s')"
  shows "tok_ok s (q, eq)"
proof -
  have e: "eq = dropWhile word_char q"
    using assms by (auto simp: gettoken_def Let_def split: if_splits)
  have "word_char (q ! i)" if "i < length q - length eq" for i
  proof -
    have "length (takeWhile word_char q) + length eq = length q" unfolding e by (metis length_append takeWhile_dropWhile_id)
    then have i: "i < length (takeWhile word_char q)" using that by simp
    then show ?thesis using set_takeWhileD [OF nth_mem [OF i]] by (simp add: takeWhile_nth)
  qed
  moreover have "eq = [] \<or> \<not> word_char (hd eq)" using hd_dropWhile unfolding e by blast
  ultimately show ?thesis using gettoken_suffix [OF assms] by (auto simp: tok_ok_def)
qed

lemma next_tok_suffix [simp]: "suffix (next_tok s) s"
  using gettoken_suffix(1) [of s] by (cases "gettoken s") (auto simp: next_tok_def)

definition toks_in :: "ptr \<Rightarrow> ptr \<Rightarrow> tcmd \<Rightarrow> tcmd \<Rightarrow> bool" where
  "toks_in s s' cmd c \<longleftrightarrow> suffix s' s \<and> (\<forall>t\<in>set_cmd c. t \<in> set_cmd cmd \<or> tok_ok s t)"

lemma toks_in_trans: "toks_in s s1 a b \<Longrightarrow> toks_in s1 s2 b c \<Longrightarrow> toks_in s s2 a c"
  by (auto simp: toks_in_def intro: tok_ok_mono suffix_order.trans)

lemma set_redir_of: "set_cmd (redir_of tok f c) \<subseteq> insert f (set_cmd c)"
  by (auto simp: redir_of_def)

lemma set_add_arg: "set_cmd (add_arg a c) \<subseteq> insert a (set_cmd c)"
  by (induction c) auto

lemma parseredirs_toks: "parseredirs cmd s = Got c s' \<Longrightarrow> toks_in s s' cmd c"
proof (induction "length s" arbitrary: cmd s rule: less_induct)
  case less
  obtain tok a b s1 t q eq s2 where g: "gettoken s = (tok, a, b, s1)" "gettoken s1 = (t, q, eq, s2)"
    by (metis prod_cases4)
  show ?case
  proof (cases "peek s [LT, GT]")
    case True
    have l: "length s2 < length s" using two_tokens_less [OF True g [symmetric]] .
    have t: "t = TOK_A" "parseredirs (redir_of tok (q, eq) cmd) s2 = Got c s'"
      using less.prems by (auto simp: parseredirs_step [OF True g] split: if_splits)
    have "tok_ok s (q, eq)" "suffix s2 s"
      using gettoken_tok [of s1] g(2) t(1) gettoken_suffix [OF g(1)] gettoken_suffix [OF g(2)]
      by (auto intro: tok_ok_mono suffix_order.trans)
    then have "toks_in s s2 cmd (redir_of tok (q, eq) cmd)"
      using set_redir_of [of tok "(q, eq)" cmd] by (auto simp: toks_in_def)
    then show ?thesis using less.hyps [OF l t(2)] by (rule toks_in_trans)
  next
    case False
    with less.prems show ?thesis by (auto simp: parseredirs_stop toks_in_def)
  qed
qed

lemma parseargs_toks: "parseargs cmd s = Got c s' \<Longrightarrow> toks_in s s' cmd c"
proof (induction "length s" arbitrary: cmd s rule: less_induct)
  case less
  obtain t q eq s1 where g: "gettoken s = (t, q, eq, s1)" by (metis prod_cases4)
  show ?case
  proof (cases "peek s [BAR, RPAR, AMP, SEMI] \<or> t = 0")
    case True
    then show ?thesis
      using less.prems g gettoken_suffix [OF g] parseargs_stop [of s]
      by (cases "peek s [BAR, RPAR, AMP, SEMI]") (auto simp: toks_in_def)
  next
    case False
    then obtain c1 s2 where 1: "t = TOK_A" "parseredirs (add_arg (q, eq) cmd) s1 = Got c1 s2" "parseargs c1 s2 = Got c s'"
      using less.prems by (auto simp: parseargs_step [OF _ g] pbind_Got split: if_splits)
    have "toks_in s s1 cmd (add_arg (q, eq) cmd)"
      using gettoken_tok [of s] g 1(1) gettoken_suffix [OF g] set_add_arg [of "(q, eq)" cmd] by (auto simp: toks_in_def)
    moreover have "length s2 < length s" using arg_less [OF g [symmetric] _ 1(2)] 1(1) by simp
    ultimately show ?thesis
      using parseredirs_toks [OF 1(2)] less.hyps [OF _ 1(3)] by (blast intro: toks_in_trans)
  qed
qed

lemma parseback_toks: "parseback cmd s = (c, s') \<Longrightarrow> toks_in s s' cmd c"
proof (induction "length s" arbitrary: cmd s rule: less_induct)
  case less
  show ?case
  proof (cases "peek s [AMP]")
    case True
    then have "toks_in (next_tok s) s' (BACK cmd) c"
      using less.hyps [OF next_tok_less [OF True]] less.prems by (simp add: parseback_step)
    moreover have "toks_in s (next_tok s) cmd (BACK cmd)" by (simp add: toks_in_def)
    ultimately show ?thesis by (blast intro: toks_in_trans)
  next
    case False
    with less.prems show ?thesis by (auto simp: parseback_step toks_in_def)
  qed
qed

end
