(* ===== verification/Shell_Line.thy ===== *)
theory Shell_Line
  imports Shell
begin

text \<open>
  What the shell's parser computes: the strings of a command after \<open>nulterminate\<close>, and that parsing a
  printed command line gives the command back.
\<close>

subsection \<open>The tokens of the grammar\<close>

lemma grammar_toks:
  "(\<forall>s c s'. parseline n s = Got c s' \<longrightarrow> toks_in s s' (EXEC []) c) \<and>
   (\<forall>s c s'. parsepipe n s = Got c s' \<longrightarrow> toks_in s s' (EXEC []) c) \<and>
   (\<forall>s c s'. parseblock n s = Got c s' \<longrightarrow> toks_in s s' (EXEC []) c) \<and>
   (\<forall>s c s'. parseexec n s = Got c s' \<longrightarrow> toks_in s s' (EXEC []) c)"
proof (induction n)
  case 0
  then show ?case by simp
next
  case (Suc n)
  have join: "toks_in s s2 (EXEC []) (f c1 c2)"
    if "toks_in s s1 (EXEC []) c1" "toks_in (next_tok s1) s2 (EXEC []) c2" "set_cmd (f c1 c2) \<subseteq> set_cmd c1 \<union> set_cmd c2"
    for s s1 s2 c1 c2 and f :: "tcmd \<Rightarrow> tcmd \<Rightarrow> tcmd"
  proof -
    have n: "suffix (next_tok s1) s" using that(1) by (meson next_tok_suffix suffix_order.trans toks_in_def)
    then have "suffix s2 s" using that(2) by (auto simp: toks_in_def intro: suffix_order.trans)
    moreover have "tok_ok s t" if "t \<in> set_cmd c1 \<union> set_cmd c2" for t
      using that \<open>toks_in s s1 (EXEC []) c1\<close> \<open>toks_in (next_tok s1) s2 (EXEC []) c2\<close> tok_ok_mono [OF _ n, of t]
      by (auto simp: toks_in_def)
    ultimately show ?thesis using that(3) unfolding toks_in_def by blast
  qed
  have line: "toks_in s s' (EXEC []) c" if p: "parseline (Suc n) s = Got c s'" for s c s'
  proof -
    obtain c1 s1 c2 s2 where 1: "parsepipe n s = Got c1 s1" "parseback c1 s1 = (c2, s2)"
      and 2: "(if peek s2 [SEMI] then pbind (parseline n (next_tok s2)) (\<lambda>r. Got (LIST c2 r)) else Got c2 (skip_ws s2)) = Got c s'"
      using p by (rule parseline_Got)
    have t: "toks_in s s2 (EXEC []) c2"
      using 1 Suc.IH parseback_toks [OF 1(2)] by (blast intro: toks_in_trans)
    show ?thesis
    proof (cases "peek s2 [SEMI]")
      case True
      then obtain r where "parseline n (next_tok s2) = Got r s'" "c = LIST c2 r" using 2 by (auto simp: pbind_Got)
      with Suc.IH t join [of s s2 c2 s' r LIST] show ?thesis by simp
    next
      case False
      then show ?thesis using 2 t suffix_skip_ws [of s2] by (auto simp: toks_in_def intro: suffix_order.trans)
    qed
  qed
  have pipe: "toks_in s s' (EXEC []) c" if p: "parsepipe (Suc n) s = Got c s'" for s c s'
  proof -
    obtain c1 s1 where 1: "parseexec n s = Got c1 s1"
      and 2: "(if peek s1 [BAR] then pbind (parsepipe n (next_tok s1)) (\<lambda>r. Got (PIPE c1 r)) else Got c1 (skip_ws s1)) = Got c s'"
      using p by (auto simp: pbind_Got)
    have t: "toks_in s s1 (EXEC []) c1" using 1 Suc.IH by blast
    show ?thesis
    proof (cases "peek s1 [BAR]")
      case True
      then obtain r where "parsepipe n (next_tok s1) = Got r s'" "c = PIPE c1 r" using 2 by (auto simp: pbind_Got)
      with Suc.IH t join [of s s1 c1 s' r PIPE] show ?thesis by simp
    next
      case False
      then show ?thesis using 2 t suffix_skip_ws [of s1] by (auto simp: toks_in_def intro: suffix_order.trans)
    qed
  qed
  have block: "toks_in s s' (EXEC []) c" if p: "parseblock (Suc n) s = Got c s'" for s c s'
  proof -
    obtain c1 s1 where 1: "parseline n (next_tok s) = Got c1 s1" "parseredirs c1 (next_tok s1) = Got c s'"
      using p by (auto simp: pbind_Got split: if_splits)
    have 2: "toks_in s (next_tok s) (EXEC []) (EXEC [])" "toks_in s1 (next_tok s1) c1 c1" by (simp_all add: toks_in_def)
    have "toks_in (next_tok s) s1 (EXEC []) c1" using 1(1) Suc.IH by blast
    from toks_in_trans [OF toks_in_trans [OF toks_in_trans [OF 2(1) this] 2(2)] parseredirs_toks [OF 1(2)]]
    show ?thesis .
  qed
  have exec: "toks_in s s' (EXEC []) c" if p: "parseexec (Suc n) s = Got c s'" for s c s'
  proof (cases "peek s [LPAR]")
    case True
    then show ?thesis using p Suc.IH by simp
  next
    case False
    then obtain c1 s1 where 1: "parseredirs (EXEC []) s = Got c1 s1" "parseargs c1 s1 = Got c s'"
      using p by (auto simp: pbind_Got)
    show ?thesis by (rule toks_in_trans [OF parseredirs_toks [OF 1(1)] parseargs_toks [OF 1(2)]])
  qed
  show ?case using line pipe block exec by blast
qed

subsection \<open>The terminated strings\<close>

definition tok_str :: "ptr \<times> ptr \<Rightarrow> byte list" where
  "tok_str t = take (length (fst t) - length (snd t)) (fst t)"

lemma length_put_nul [simp]: "length (put_nul eq buf) = length buf"
  by (simp add: put_nul_def)

lemma length_nulterminate [simp]: "length (nulterminate c buf) = length buf"
proof (induction c arbitrary: buf)
  case (EXEC as)
  then show ?case by (induction as arbitrary: buf) simp_all
qed simp_all

lemma nth_nulterminate:
  assumes "i < length buf"
  shows "nulterminate c buf ! i =
    (if \<exists>t\<in>set_cmd c. i = length buf - length (snd t) then 0 else buf ! i)"
  using assms
proof (induction c arbitrary: buf)
  case (EXEC as)
  then show ?case
  proof (induction as arbitrary: buf)
    case (Cons a as)
    then show ?case using Cons.IH [of "put_nul (snd a) buf"] by (auto simp: put_nul_def nth_list_update)
  qed simp
next
  case (REDIR c f mode fd)
  have l: "i < length (nulterminate c buf)" using REDIR.prems by simp
  show ?case using REDIR.IH [OF REDIR.prems] l
    by (cases "i = length buf - length (snd f)") (simp_all add: put_nul_def)
qed auto

lemma str_at_tok:
  assumes c: "\<forall>t\<in>set_cmd c. tok_ok buf t" and t: "t \<in> set_cmd c" and z: "0 \<notin> set buf"
  shows "str_at (nulterminate c buf) (fst t) = tok_str t"
proof -
  obtain q eq where qe: "t = (q, eq)" by (cases t)
  have "tok_ok buf (q, eq)" using c t qe by blast
  then obtain pre w where q: "buf = pre @ q" "q = w @ eq" and w: "\<forall>i<length w. word_char (w ! i)"
    by (auto simp: tok_ok_def suffix_def nth_append)
  let ?b = "nulterminate c buf" and ?o = "length pre"
  have o: "length buf - length q = ?o" using q(1) by simp
  have len: "?o + length w \<le> length buf" using q by simp
  have same: "?b ! (?o + i) = w ! i" if i: "i < length w" for i
  proof -
    have "?o + i \<noteq> length buf - length (snd t')" if t': "t' \<in> set_cmd c" for t'
    proof
      assume a: "?o + i = length buf - length (snd t')"
      have k: "tok_ok buf t'" using c t' by blast
      then obtain pre' where p': "buf = pre' @ snd t'" unfolding tok_ok_def suffix_def by (metis append_assoc)
      then have "length pre' = ?o + i" using a by simp
      moreover have "?o + i < length buf" using i len by simp
      ultimately have "snd t' \<noteq> []" "hd (snd t') = buf ! (?o + i)" using p' by (auto simp: nth_append hd_conv_nth)
      moreover have "buf ! (?o + i) = w ! i" using i q by (simp add: nth_append)
      ultimately show False using k w i by (auto simp: tok_ok_def)
    qed
    then show ?thesis using nth_nulterminate [of "?o + i" buf c] i q len by (auto simp: nth_append)
  qed
  have "take (length w) (drop ?o ?b) = w" using same len by (intro nth_equalityI) (auto simp: nth_append)
  moreover have "drop (?o + length w) ?b = [] \<or> hd (drop (?o + length w) ?b) = 0"
  proof (cases "eq = []")
    case False
    then have "?o + length w < length buf" "?o + length w = length buf - length eq" using q by auto
    moreover have "\<exists>t\<in>set_cmd c. length buf - length eq = length buf - length (snd t)" using t qe by force
    ultimately have "?b ! (?o + length w) = 0" using nth_nulterminate [of "?o + length w" buf c] by simp
    then show ?thesis using \<open>?o + length w < length buf\<close> by (simp add: hd_drop_conv_nth)
  qed (use q in simp)
  ultimately obtain r where "drop ?o ?b = w @ r" "r = [] \<or> hd r = 0"
    by (metis append_take_drop_id drop_drop add.commute)
  moreover have "\<forall>x\<in>set w. x \<noteq> 0" using z q by auto
  ultimately have "cstr (drop ?o ?b) = w"
    by (cases r) (auto simp: cstr_def takeWhile_append2 takeWhile_eq_all_conv)
  then show ?thesis using o q qe by (simp add: str_at_def tok_str_def)
qed

lemma argv_of_tok:
  assumes "parsecmd buf = Inr (c, buf')" "0 \<notin> set buf"
  shows "argv_of c buf' = map_cmd tok_str c"
proof -
  obtain s where p: "parseline (4 * length buf + 4) buf = Got c s" and b: "buf' = nulterminate c buf"
    using assms(1) by (auto simp: parsecmd_def split: pres.splits if_splits)
  have "\<forall>t\<in>set_cmd c. tok_ok buf t"
    using p grammar_toks [of "4 * length buf + 4"] unfolding toks_in_def by fastforce
  then have "\<forall>t\<in>set_cmd c. str_at buf' (fst t) = tok_str t" using str_at_tok assms(2) b by blast
  then show ?thesis unfolding argv_of_def by (intro cmd.map_cong0) (auto simp: case_prod_beta)
qed

text \<open>Claim C37. In a command that \<^verbatim>\<open>parsecmd\<close> returns, every argument and file name is a terminated string: read
  from its pointer up to the next nul of the line after \<^verbatim>\<open>nulterminate\<close>, it is the token the parser found
  there. No terminator falls into another token.\<close>

theorem parsed_strings:
  assumes "parsecmd buf = Inr (c, buf')" "0 \<notin> set buf"
  shows "argv_of c buf' = map_cmd tok_str c"
  by (rule argv_of_tok [OF assms])

lemma demo_parse:
  "parsecmd [97, 124, 98, 32, 99] =
     Inr (PIPE (EXEC [([97, 124, 98, 32, 99], [124, 98, 32, 99])]) (EXEC [([98, 32, 99], [32, 99]), ([99], [])]),
          [97, 0, 98, 0, 99])"
  by code_simp

theorem parsed_strings_witness:
  "\<exists>c buf'. parsecmd [97, 124, 98, 32, 99] = Inr (c, buf') \<and> argv_of c buf' = PIPE (EXEC [[97]]) (EXEC [[98], [99]])"
  using parsed_strings [OF demo_parse] by (simp add: demo_parse tok_str_def)

subsection \<open>Command lines and how they are written\<close>

text \<open>
  A line is a pipeline with ampersands, then possibly a semicolon and another line; a pipeline is a
  simple command, then possibly a bar and another pipeline; a simple command is words or a parenthesised
  line, followed by redirections. A redirection is its token and its file.
\<close>

type_synonym word_str = "byte list"

datatype line = LEnd pipeln nat | LSeq pipeln nat line
  and pipeln = PEnd simple | PBar simple pipeln
  and simple = Words "word_str list" "(byte \<times> word_str) list" | Block line "(byte \<times> word_str) list"

definition write_word :: "word_str \<Rightarrow> byte list" where
  "write_word w = w @ [32]"

definition write_redir :: "byte \<times> word_str \<Rightarrow> byte list" where
  "write_redir r = (if fst r = TOK_PLUS then [GT, GT] else [fst r]) @ write_word (snd r)"

primrec write_line :: "line \<Rightarrow> byte list"
  and write_pipe :: "pipeln \<Rightarrow> byte list"
  and write_simple :: "simple \<Rightarrow> byte list" where
  "write_line (LEnd p n) = write_pipe p @ replicate n AMP"
| "write_line (LSeq p n l) = write_pipe p @ replicate n AMP @ SEMI # write_line l"
| "write_pipe (PEnd x) = write_simple x"
| "write_pipe (PBar x p) = write_simple x @ BAR # write_pipe p"
| "write_simple (Words ws rs) = concat (map write_word ws) @ concat (map write_redir rs)"
| "write_simple (Block l rs) = LPAR # write_line l @ RPAR # concat (map write_redir rs)"

definition add_redirs :: "(byte \<times> 'p) list \<Rightarrow> 'p cmd \<Rightarrow> 'p cmd" where
  "add_redirs rs c = foldl (\<lambda>c r. redir_of (fst r) (snd r) c) c rs"

primrec of_line :: "line \<Rightarrow> word_str cmd"
  and of_pipe :: "pipeln \<Rightarrow> word_str cmd"
  and of_simple :: "simple \<Rightarrow> word_str cmd" where
  "of_line (LEnd p n) = (BACK ^^ n) (of_pipe p)"
| "of_line (LSeq p n l) = LIST ((BACK ^^ n) (of_pipe p)) (of_line l)"
| "of_pipe (PEnd x) = of_simple x"
| "of_pipe (PBar x p) = PIPE (of_simple x) (of_pipe p)"
| "of_simple (Words ws rs) = add_redirs rs (EXEC ws)"
| "of_simple (Block l rs) = add_redirs rs (of_line l)"

definition word_ok :: "word_str \<Rightarrow> bool" where
  "word_ok w \<longleftrightarrow> w \<noteq> [] \<and> (\<forall>c\<in>set w. word_char c \<and> c \<noteq> 0)"

definition redirs_ok :: "(byte \<times> word_str) list \<Rightarrow> bool" where
  "redirs_ok rs \<longleftrightarrow> (\<forall>r\<in>set rs. fst r \<in> {LT, GT, TOK_PLUS} \<and> word_ok (snd r))"

primrec line_ok :: "line \<Rightarrow> bool" and pipe_ok :: "pipeln \<Rightarrow> bool" and simple_ok :: "simple \<Rightarrow> bool" where
  "line_ok (LEnd p n) \<longleftrightarrow> pipe_ok p"
| "line_ok (LSeq p n l) \<longleftrightarrow> pipe_ok p \<and> line_ok l"
| "pipe_ok (PEnd x) \<longleftrightarrow> simple_ok x"
| "pipe_ok (PBar x p) \<longleftrightarrow> simple_ok x \<and> pipe_ok p"
| "simple_ok (Words ws rs) \<longleftrightarrow> length ws < MAXARGS \<and> (\<forall>w\<in>set ws. word_ok w) \<and> redirs_ok rs"
| "simple_ok (Block l rs) \<longleftrightarrow> line_ok l \<and> redirs_ok rs"

text \<open>What may follow: nothing, or a symbol that ends a simple command.\<close>

definition stops :: "byte list \<Rightarrow> byte set \<Rightarrow> bool" where
  "stops r S \<longleftrightarrow> r = [] \<or> hd r \<in> S"

abbreviation ends :: "byte set" where "ends \<equiv> {BAR, AMP, SEMI, RPAR}"

subsection \<open>Parsing what was written\<close>

lemma skip_ws_idem [simp]: "skip_ws (skip_ws s) = skip_ws s"
  by (simp add: skip_ws_def)

lemma skip_ws_first [simp]:
  "peek (skip_ws s) toks = peek s toks" "gettoken (skip_ws s) = gettoken s" "next_tok (skip_ws s) = next_tok s"
  by (simp_all add: peek_def gettoken_def next_tok_def)

lemma parse_skip [simp]:
  "parseredirs cmd (skip_ws s) = parseredirs cmd s" "parseargs cmd (skip_ws s) = parseargs cmd s"
  "parseback cmd (skip_ws s) = parseback cmd s"
  by (subst (1 2) parseredirs.simps, simp) (subst (1 2) parseargs.simps, simp, subst (1 2) parseback.simps, simp)

lemma skip_word [simp]: "word_ok w \<Longrightarrow> skip_ws (w @ r) = w @ r"
  by (cases w) (auto simp: word_ok_def skip_ws_def word_char_def)

lemma ch_word: "word_ok w \<Longrightarrow> ch (w @ r) \<noteq> 0 \<and> ch (w @ r) \<notin> set sh_symbols"
  by (cases w) (auto simp: word_ok_def word_char_def ch_def)

lemma skip_space [simp]: "skip_ws (32 # r) = skip_ws r"
  by (simp add: skip_ws_def sh_whitespace_def)

lemma gettoken_word:
  assumes "word_ok w"
  shows "gettoken (write_word w @ r) = (TOK_A, write_word w @ r, 32 # r, skip_ws r)"
proof -
  have "dropWhile word_char (w @ 32 # r) = 32 # r"
    using assms by (simp add: word_ok_def word_char_def sh_whitespace_def)
  then show ?thesis
    using skip_word [OF assms, of "32 # r"] ch_word [OF assms, of "32 # r"]
    by (auto simp: gettoken_def write_word_def Let_def sh_symbols_def)
qed

lemma tok_str_word [simp]: "tok_str (write_word w @ r, 32 # r) = w"
  by (simp add: tok_str_def write_word_def)

lemma map_redir_of: "map_cmd g (redir_of tok f c) = redir_of tok (g f) (map_cmd g c)"
  by (simp add: redir_of_def)

lemma redir_first:
  assumes "fst x \<in> {LT, GT, TOK_PLUS}" "word_ok (snd x)"
  shows "peek (write_redir x @ r) [LT, GT]" "gettoken (write_redir x @ r) = (fst x, write_redir x @ r, write_word (snd x) @ r, write_word (snd x) @ r)"
proof -
  have k: "skip_ws (write_word (snd x) @ r) = write_word (snd x) @ r"
    using skip_word [OF assms(2), of "32 # r"] by (simp add: write_word_def)
  have g: "ch (write_word (snd x) @ r) \<noteq> GT"
    using ch_word [OF assms(2), of "32 # r"] by (auto simp: write_word_def sh_symbols_def)
  show "peek (write_redir x @ r) [LT, GT]"
    using assms(1) by (auto simp: peek_def write_redir_def skip_ws_def sh_whitespace_def ch_def)
  show "gettoken (write_redir x @ r) = (fst x, write_redir x @ r, write_word (snd x) @ r, write_word (snd x) @ r)"
    using assms(1) k g by (auto simp: gettoken_def write_redir_def skip_ws_def [of "_ # _"] sh_whitespace_def ch_def [of "_ # _"] Let_def)
qed

lemma parse_redirs:
  assumes "redirs_ok rs" "\<not> peek r [LT, GT]"
  shows "\<exists>c. parseredirs cmd (concat (map write_redir rs) @ r) = Got c (skip_ws r) \<and>
    map_cmd tok_str c = add_redirs rs (map_cmd tok_str cmd)"
  using assms(1)
proof (induction rs arbitrary: cmd)
  case Nil
  then show ?case using assms(2) by (simp add: parseredirs_stop add_redirs_def)
next
  case (Cons x rs)
  let ?r = "concat (map write_redir rs) @ r" and ?w = "write_word (snd x)"
  have x: "fst x \<in> {LT, GT, TOK_PLUS}" "word_ok (snd x)" using Cons.prems by (auto simp: redirs_ok_def)
  have "parseredirs cmd (write_redir x @ ?r) = parseredirs (redir_of (fst x) (?w @ ?r, 32 # ?r) cmd) (skip_ws ?r)"
    using parseredirs_step [OF redir_first [OF x, of ?r] gettoken_word [OF x(2), of ?r]] by simp
  moreover have "redirs_ok rs" using Cons.prems by (simp add: redirs_ok_def)
  ultimately show ?case
    using Cons.IH [of "redir_of (fst x) (?w @ ?r, 32 # ?r) cmd"] by (simp add: map_redir_of add_redirs_def)
qed

lemma stopsD:
  assumes "stops r S" "S \<subseteq> set sh_symbols"
  shows "skip_ws r = r" "peek r toks \<longleftrightarrow> r \<noteq> [] \<and> hd r \<in> set toks"
proof -
  have "hd r \<notin> set sh_whitespace \<and> hd r \<noteq> 0" if "r \<noteq> []"
    using that assms by (auto simp: stops_def sh_symbols_def sh_whitespace_def)
  then show k: "skip_ws r = r" by (cases r) (auto simp: skip_ws_def)
  show "peek r toks \<longleftrightarrow> r \<noteq> [] \<and> hd r \<in> set toks"
    using \<open>r \<noteq> [] \<Longrightarrow> _\<close> unfolding peek_def k by (cases r) (auto simp: ch_def)
qed

lemma ends_symbols: "ends \<subseteq> set sh_symbols" "{SEMI, RPAR} \<subseteq> set sh_symbols" "{AMP, SEMI, RPAR} \<subseteq> set sh_symbols" "{RPAR} \<subseteq> set sh_symbols"
  by (auto simp: sh_symbols_def)

lemma parse_args_stop: "stops r ends \<Longrightarrow> parseargs c r = Got c r"
proof (cases "r = []")
  case True
  have "gettoken [] = (0, [], [], [])" by (simp add: gettoken_def skip_ws_def ch_def)
  then show ?thesis using True by (intro parseargs_stop) (simp_all add: peek_def skip_ws_def ch_def)
next
  case False
  assume "stops r ends"
  with False stopsD [OF this ends_symbols(1)] show ?thesis by (auto simp: stops_def parseargs_stop)
qed

lemma word_skip: "word_ok w \<Longrightarrow> skip_ws (write_word w @ r) = write_word w @ r"
  using skip_word [of w "32 # r"] by (simp add: write_word_def)

lemma word_peek:
  assumes "word_ok w" "set toks \<subseteq> set sh_symbols"
  shows "\<not> peek (write_word w @ r) toks"
  using assms word_skip [OF assms(1), of r] ch_word [OF assms(1), of "32 # r"]
  by (auto simp: peek_def write_word_def)

lemma map_cmd_EXEC: "map_cmd g c = EXEC as \<longleftrightarrow> (\<exists>bs. c = EXEC bs \<and> as = map g bs)"
  by (cases c) auto

lemma parse_args:
  assumes "\<forall>w\<in>set ws. word_ok w" "redirs_ok rs" "stops r ends" "length as + length ws < MAXARGS"
    and "map_cmd tok_str cmd = EXEC as" "ws \<noteq> []"
  shows "\<exists>c. parseargs cmd (concat (map write_word ws) @ concat (map write_redir rs) @ r) = Got c r \<and>
    map_cmd tok_str c = add_redirs rs (EXEC (as @ ws))"
  using assms
proof (induction ws arbitrary: cmd as)
  case (Cons w ws)
  let ?r = "concat (map write_word ws) @ concat (map write_redir rs) @ r"
  have w: "word_ok w" using Cons.prems by simp
  obtain bs where c: "cmd = EXEC bs" "as = map tok_str bs" using Cons.prems(5) by (auto simp: map_cmd_EXEC)
  let ?c = "EXEC (bs @ [(write_word w @ ?r, 32 # ?r)])"
  have p: "\<not> peek (write_word w @ ?r) [BAR, RPAR, AMP, SEMI]"
    using word_peek [OF w] by (simp add: sh_symbols_def)
  have s: "parseargs cmd (write_word w @ ?r) = pbind (parseredirs ?c ?r) parseargs"
    using parseargs_step [OF p gettoken_word [OF w]] Cons.prems(4) c by simp
  show ?case
  proof (cases "ws = []")
    case True
    have "\<not> peek r [LT, GT]" using stopsD(2) [OF Cons.prems(3) ends_symbols(1)] Cons.prems(3) by (auto simp: stops_def)
    then obtain c' where "parseredirs ?c ?r = Got c' r" "map_cmd tok_str c' = add_redirs rs (EXEC (as @ [w]))"
      using parse_redirs [OF Cons.prems(2), of r ?c] stopsD(1) [OF Cons.prems(3) ends_symbols(1)] True c(2) by auto
    then show ?thesis using s parse_args_stop [OF Cons.prems(3)] True by simp
  next
    case False
    then obtain v vs where v: "ws = v # vs" by (cases ws) auto
    then have "word_ok v" using Cons.prems by simp
    then have "\<not> peek ?r [LT, GT]" using word_peek [of v "[LT, GT]"] by (simp add: v sh_symbols_def)
    then have "parseargs cmd (write_word w @ ?r) = parseargs ?c ?r" using s by (simp add: parseredirs_stop)
    with Cons.IH [of "as @ [w]" ?c] Cons.prems False c(2) show ?thesis by simp
  qed
qed simp

lemma parse_simple_words:
  assumes "simple_ok (Words ws rs)" "stops r ends"
  shows "\<exists>c. parseexec (Suc n) (write_simple (Words ws rs) @ r) = Got c r \<and> map_cmd tok_str c = of_simple (Words ws rs)"
proof (cases ws)
  case Nil
  have nr: "\<not> peek r [LT, GT]" "\<not> peek r [LPAR]"
    using stopsD(2) [OF assms(2) ends_symbols(1)] assms(2) by (auto simp: stops_def)
  have nl: "\<not> peek (concat (map write_redir rs) @ r) [LPAR]"
  proof (cases rs)
    case (Cons x xs)
    then have "fst x \<in> {LT, GT, TOK_PLUS}" using assms(1) by (simp add: redirs_ok_def)
    then show ?thesis using Cons by (auto simp: peek_def write_redir_def skip_ws_def sh_whitespace_def ch_def)
  qed (use nr in simp)
  obtain c where "parseredirs (EXEC []) (concat (map write_redir rs) @ r) = Got c r" "map_cmd tok_str c = add_redirs rs (EXEC [])"
    using parse_redirs [OF _ nr(1), of rs "EXEC []"] assms stopsD(1) [OF assms(2) ends_symbols(1)] by auto
  then show ?thesis using Nil nl parse_args_stop [OF assms(2)] by simp
next
  case (Cons w vs)
  let ?s = "write_simple (Words ws rs) @ r"
  have w: "word_ok w" using assms(1) Cons by simp
  have n: "\<not> peek ?s [LPAR]" "\<not> peek ?s [LT, GT]" "skip_ws ?s = ?s"
    using word_peek [OF w] word_skip [OF w] by (simp_all add: Cons sh_symbols_def)
  then have "parseexec (Suc n) ?s = parseargs (EXEC []) ?s" by (simp add: parseredirs_stop del: write_simple.simps)
  then show ?thesis using parse_args [of ws rs r "[]" "EXEC []"] assms Cons by simp
qed

lemma symbol_first:
  assumes "c \<in> set sh_symbols" "c \<noteq> GT"
  shows "skip_ws (c # r) = c # r" "peek (c # r) toks \<longleftrightarrow> c \<in> set toks" "next_tok (c # r) = skip_ws r"
proof -
  have c: "c \<notin> set sh_whitespace" "c \<noteq> 0" using assms(1) by (auto simp: sh_symbols_def sh_whitespace_def)
  then show k: "skip_ws (c # r) = c # r" by (simp add: skip_ws_def)
  show "peek (c # r) toks \<longleftrightarrow> c \<in> set toks" unfolding peek_def k using c by (simp add: ch_def)
  show "next_tok (c # r) = skip_ws r"
    unfolding next_tok_def gettoken_def k using assms c by (auto simp: ch_def Let_def sh_symbols_def)
qed

lemma grammar_skip [simp]:
  "parseline n (skip_ws s) = parseline n s" "parsepipe n (skip_ws s) = parsepipe n s"
  "parseblock n (skip_ws s) = parseblock n s" "parseexec n (skip_ws s) = parseexec n s"
proof (induction n arbitrary: s)
  case (Suc n)
  { case 1 show ?case by (simp add: Suc) }
  { case 2 show ?case by (simp add: Suc) }
  { case 3 show ?case by (simp add: Suc) }
  { case 4 show ?case by (simp add: Suc) }
qed simp_all

lemma parse_back:
  "stops r {SEMI, RPAR} \<Longrightarrow> parseback c (replicate n AMP @ r) = ((BACK ^^ n) c, r)"
proof (induction n arbitrary: c)
  case 0
  then show ?case using stopsD [OF 0 ends_symbols(2)] by (auto simp: parseback_step stops_def)
next
  case (Suc n)
  have "parseback c (AMP # replicate n AMP @ r) = parseback (BACK c) (replicate n AMP @ r)"
    by (subst parseback_step(1)) (simp_all add: symbol_first sh_symbols_def)
  with Suc show ?case by (simp add: funpow_swap1)
qed

lemma parse_written:
  "line_ok l \<Longrightarrow> stops r {RPAR} \<Longrightarrow> 4 * length (write_line l @ r) + 4 \<le> n \<Longrightarrow>
     \<exists>c. parseline n (write_line l @ r) = Got c r \<and> map_cmd tok_str c = of_line l"
  "pipe_ok p \<Longrightarrow> stops r {AMP, SEMI, RPAR} \<Longrightarrow> 4 * length (write_pipe p @ r) + 3 \<le> n \<Longrightarrow>
     \<exists>c. parsepipe n (write_pipe p @ r) = Got c r \<and> map_cmd tok_str c = of_pipe p"
  "simple_ok x \<Longrightarrow> stops r ends \<Longrightarrow> 4 * length (write_simple x @ r) + 2 \<le> n \<Longrightarrow>
     \<exists>c. parseexec n (write_simple x @ r) = Got c r \<and> map_cmd tok_str c = of_simple x"
proof (induction l and p and x arbitrary: n r and n r and n r)
  case (LEnd p k)
  obtain m where n: "n = Suc m" using LEnd.prems(3) by (cases n) auto
  have s: "stops (replicate k AMP @ r) {AMP, SEMI, RPAR}" "stops r {SEMI, RPAR}"
    using LEnd.prems(2) by (cases k; auto simp: stops_def)+
  obtain c where c: "parsepipe m (write_pipe p @ replicate k AMP @ r) = Got c (replicate k AMP @ r)" "map_cmd tok_str c = of_pipe p"
    using LEnd.IH [of "replicate k AMP @ r" m] LEnd.prems s(1) n by auto
  have "map_cmd tok_str ((BACK ^^ k) c) = (BACK ^^ k) (of_pipe p)" using c(2) by (induction k) simp_all
  then show ?case
    using c(1) parse_back [OF s(2), of c k] stopsD [OF LEnd.prems(2) ends_symbols(4)] LEnd.prems(2) n
    by (auto simp: stops_def)
next
  case (LSeq p k l)
  obtain m where n: "n = Suc m" using LSeq.prems(3) by (cases n) auto
  let ?r = "SEMI # write_line l @ r"
  have s: "stops (replicate k AMP @ ?r) {AMP, SEMI, RPAR}" "stops ?r {SEMI, RPAR}" by (cases k; simp add: stops_def)+
  obtain c where c: "parsepipe m (write_pipe p @ replicate k AMP @ ?r) = Got c (replicate k AMP @ ?r)" "map_cmd tok_str c = of_pipe p"
    using LSeq.IH(1) [of "replicate k AMP @ ?r" m] LSeq.prems s(1) n by auto
  obtain d where d: "parseline m (write_line l @ r) = Got d r" "map_cmd tok_str d = of_line l"
    using LSeq.IH(2) [of r m] LSeq.prems n by auto
  have "map_cmd tok_str ((BACK ^^ k) c) = (BACK ^^ k) (of_pipe p)" using c(2) by (induction k) simp_all
  then show ?case using c(1) d parse_back [OF s(2), of c k] n by (simp add: symbol_first sh_symbols_def)
next
  case (PEnd x)
  obtain m where n: "n = Suc m" using PEnd.prems(3) by (cases n) auto
  obtain c where "parseexec m (write_simple x @ r) = Got c r" "map_cmd tok_str c = of_simple x"
    using PEnd.IH [of r m] PEnd.prems n by (auto simp: stops_def)
  then show ?case
    using stopsD [OF PEnd.prems(2) ends_symbols(3)] PEnd.prems(2) n by (auto simp: stops_def)
next
  case (PBar x p)
  obtain m where n: "n = Suc m" using PBar.prems(3) by (cases n) auto
  obtain c where c: "parseexec m (write_simple x @ BAR # write_pipe p @ r) = Got c (BAR # write_pipe p @ r)" "map_cmd tok_str c = of_simple x"
    using PBar.IH(1) [of "BAR # write_pipe p @ r" m] PBar.prems n by (auto simp: stops_def)
  obtain d where "parsepipe m (write_pipe p @ r) = Got d r" "map_cmd tok_str d = of_pipe p"
    using PBar.IH(2) [of r m] PBar.prems n by auto
  with c show ?case using n by (simp add: symbol_first sh_symbols_def)
next
  case (Words ws rs)
  then obtain m where "n = Suc m" by (cases n) auto
  with parse_simple_words [OF Words.prems(1,2)] show ?case by blast
next
  case (Block l rs)
  obtain m where n: "n = Suc (Suc m)" using Block.prems(3) by (cases n; cases "n - 1") auto
  let ?r = "RPAR # concat (map write_redir rs) @ r"
  obtain c where c: "parseline m (write_line l @ ?r) = Got c ?r" "map_cmd tok_str c = of_line l"
    using Block.IH [of ?r m] Block.prems n by (auto simp: stops_def)
  have "\<not> peek r [LT, GT]" using stopsD(2) [OF Block.prems(2) ends_symbols(1)] Block.prems(2) by (auto simp: stops_def)
  then obtain d where "parseredirs c (concat (map write_redir rs) @ r) = Got d r" "map_cmd tok_str d = add_redirs rs (of_line l)"
    using parse_redirs [of rs r c] Block.prems(1) c(2) stopsD(1) [OF Block.prems(2) ends_symbols(1)] by auto
  with c(1) show ?case using n by (simp add: symbol_first sh_symbols_def)
qed

lemma words_no_nul: "\<forall>w\<in>set ws. word_ok w \<Longrightarrow> 0 \<notin> set (concat (map write_word ws))"
  by (induction ws) (auto simp: word_ok_def write_word_def)

lemma redirs_no_nul: "redirs_ok rs \<Longrightarrow> 0 \<notin> set (concat (map write_redir rs))"
proof (induction rs)
  case (Cons x rs)
  then have "0 \<notin> set (write_redir x)" by (auto simp: redirs_ok_def word_ok_def write_word_def write_redir_def)
  moreover have "redirs_ok rs" using Cons.prems by (simp add: redirs_ok_def)
  ultimately show ?case using Cons.IH by simp
qed simp

lemma written_no_nul: "line_ok l \<Longrightarrow> 0 \<notin> set (write_line l)" "pipe_ok p \<Longrightarrow> 0 \<notin> set (write_pipe p)"
  "simple_ok x \<Longrightarrow> 0 \<notin> set (write_simple x)"
proof (induction l and p and x)
  case (Words ws rs)
  then show ?case using words_no_nul [of ws] redirs_no_nul [of rs] by simp
next
  case (Block l rs)
  then show ?case using redirs_no_nul [of rs] by simp
qed auto

text \<open>Claim C4. Parsing a written command line gives the command back: lists, pipelines, background commands,
  parenthesised blocks and redirections nest as they were written, and the argument strings the shell
  passes on are the words of the line.\<close>

theorem parse_roundtrip:
  assumes "line_ok l"
  shows "\<exists>c buf'. parsecmd (write_line l) = Inr (c, buf') \<and> argv_of c buf' = of_line l"
proof -
  let ?s = "write_line l"
  obtain c where c: "parseline (4 * length ?s + 4) ?s = Got c []" "map_cmd tok_str c = of_line l"
    using parse_written(1) [OF assms, of "[]" "4 * length ?s + 4"] by (auto simp: stops_def)
  then have p: "parsecmd ?s = Inr (c, nulterminate c ?s)" by (simp add: parsecmd_def skip_ws_def)
  with c(2) argv_of_tok [OF p written_no_nul(1) [OF assms]] show ?thesis by auto
qed

theorem parse_roundtrip_witness:
  "\<exists>c buf'. parsecmd [40, 108, 115, 32, 124, 119, 99, 32, 38, 41, 62, 111, 32, 59, 97, 32] = Inr (c, buf') \<and>
     argv_of c buf' = LIST (REDIR (BACK (PIPE (EXEC [[108, 115]]) (EXEC [[119, 99]]))) [111] 513 1) (EXEC [[97]])"
proof -
  let ?l = "LSeq (PEnd (Block (LEnd (PBar (Words [[108, 115]] []) (PEnd (Words [[119, 99]] []))) 1) [(GT, [111])])) 0
    (LEnd (PEnd (Words [[97]] [])) 0)"
  have "line_ok ?l" by (simp add: word_ok_def redirs_ok_def word_char_def sh_whitespace_def sh_symbols_def MAXARGS_def)
  from parse_roundtrip [OF this] show ?thesis
    by (simp add: write_word_def write_redir_def add_redirs_def redir_of_def O_WRONLY_def O_CREATE_def)
qed

end
