(* ===== verification/Shell_Run.thy ===== *)
theory Shell_Run
  imports Shell
begin

text \<open>
  How the shell runs a command. \<open>runcmd\<close> is the tree of the system calls it makes: the branches of a call are
  the ways it can return, a fork has a branch for the child. \<open>run\<close> gives the calls their meaning on the
  table of open files of a process and collects the programs that are executed, each with its table.
\<close>

subsection \<open>The calls\<close>

datatype prog =
    Exit
  | Print string "byte list" prog
  | Die string
  | ExecCall "byte list list" prog
  | CloseCall nat prog
  | OpenCall "byte list" int prog prog
  | DupCall nat prog
  | PipeCall "nat \<Rightarrow> nat \<Rightarrow> prog" prog
  | ForkCall prog prog prog
  | WaitCall prog

definition fork1 :: "prog \<Rightarrow> prog \<Rightarrow> prog" where
  "fork1 child parent = ForkCall child parent (Die ''fork'')"

primrec runcmd :: "byte list cmd \<Rightarrow> prog" where
  "runcmd (EXEC as) = (if as = [] then Exit else ExecCall as (Print ''exec %s failed'' (hd as) Exit))"
| "runcmd (REDIR c f mode fd) = CloseCall (nat fd) (OpenCall f mode (runcmd c) (Print ''open %s failed'' f Exit))"
| "runcmd (LIST c d) = fork1 (runcmd c) (WaitCall (runcmd d))"
| "runcmd (PIPE c d) =
     PipeCall (\<lambda>p0 p1.
       fork1 (CloseCall 1 (DupCall p1 (CloseCall p0 (CloseCall p1 (runcmd c)))))
      (fork1 (CloseCall 0 (DupCall p0 (CloseCall p0 (CloseCall p1 (runcmd d)))))
       (CloseCall p0 (CloseCall p1 (WaitCall (WaitCall Exit)))))) (Die ''pipe'')"
| "runcmd (BACK c) = fork1 (runcmd c) Exit"

subsection \<open>The command loop\<close>

text \<open>
  \<^verbatim>\<open>gets\<close> with room for \<open>mx\<close> bytes: the line and the rest of the input. \<open>getcmd\<close> is \<open>None\<close> at the end of
  the input.
\<close>

fun gets :: "nat \<Rightarrow> byte list \<Rightarrow> byte list \<times> byte list" where
  "gets mx [] = ([], [])"
| "gets mx (c # inp) =
     (if mx \<le> 1 then ([], c # inp)
      else if c = 10 \<or> c = 13 then ([c], inp)
      else (case gets (mx - 1) inp of (line, rest) \<Rightarrow> (c # line, rest)))"

definition getcmd :: "nat \<Rightarrow> byte list \<Rightarrow> (byte list \<times> byte list) option" where
  "getcmd nbuf inp = (case gets nbuf inp of (buf, rest) \<Rightarrow> if cstr buf = [] then None else Some (cstr buf, rest))"

datatype sh_act = Chdir "byte list" | Spawn "string + tcmd \<times> byte list"

definition sh_line :: "byte list \<Rightarrow> sh_act" where
  "sh_line buf =
     (if take 3 buf = [99, 100, 32] then Chdir (drop 3 (butlast buf)) else Spawn (parsecmd buf))"

lemma gets_length: "gets mx inp = (buf, rest) \<Longrightarrow> length buf + length rest = length inp"
  by (induction mx inp arbitrary: buf rest rule: gets.induct) (auto split: if_splits prod.splits)

function sh_main :: "byte list \<Rightarrow> sh_act list" where
  "sh_main inp = (case getcmd 100 inp of None \<Rightarrow> [] | Some (buf, rest) \<Rightarrow> sh_line buf # sh_main rest)"
  by pat_completeness auto
termination
proof (relation "measure length")
  fix inp :: "byte list" and x buf rest assume "getcmd 100 inp = Some x" "(buf, rest) = x"
  then obtain b where g: "gets 100 inp = (b, rest)" "cstr b \<noteq> []"
    by (auto simp: getcmd_def split: prod.splits if_splits)
  then have "b \<noteq> []" by (auto simp: cstr_def)
  then show "(rest, inp) \<in> measure length" using gets_length [OF g(1)] by (cases b) auto
qed simp

subsection \<open>What the calls do\<close>

datatype res = Console | FileRes "byte list" int | PipeR nat | PipeW nat

type_synonym fdtab = "res option list"

definition free_fd :: "fdtab \<Rightarrow> nat option" where
  "free_fd t = find_idx (\<lambda>r. r = None) t"

text \<open>
  Forks and pipes succeed, as do opens of files for which \<open>ok\<close> holds. The number \<open>n\<close> names the next pipe.
\<close>

primrec run :: "(byte list \<Rightarrow> int \<Rightarrow> bool) \<Rightarrow> prog \<Rightarrow> fdtab \<Rightarrow> nat \<Rightarrow> (byte list list \<times> fdtab) list \<times> nat" where
  "run ok Exit t n = ([], n)"
| "run ok (Print fmt m p) t n = run ok p t n"
| "run ok (Die m) t n = ([], n)"
| "run ok (ExecCall as p) t n = ([(as, t)], n)"
| "run ok (CloseCall fd p) t n = run ok p (t[fd := None]) n"
| "run ok (OpenCall f mode p q) t n =
     (case free_fd t of
        Some fd \<Rightarrow> if ok f mode then run ok p (t[fd := Some (FileRes f mode)]) n else run ok q t n
      | None \<Rightarrow> run ok q t n)"
| "run ok (DupCall fd p) t n = run ok p (case free_fd t of Some fd' \<Rightarrow> t[fd' := t ! fd] | None \<Rightarrow> t) n"
| "run ok (PipeCall p q) t n =
     (case free_fd t of
        None \<Rightarrow> run ok q t n
      | Some p0 \<Rightarrow>
          (case free_fd (t[p0 := Some (PipeR n)]) of
             None \<Rightarrow> run ok q t n
           | Some p1 \<Rightarrow> run ok (p p0 p1) (t[p0 := Some (PipeR n), p1 := Some (PipeW n)]) (Suc n)))"
| "run ok (ForkCall c p q) t n =
     (case run ok c t n of (es, n) \<Rightarrow> case run ok p t n of (es', n) \<Rightarrow> (es @ es', n))"
| "run ok (WaitCall p) t n = run ok p t n"

lemma free_fd_fill:
  assumes "free_fd t = Some fd"
  shows "count_list (t[fd := Some r]) None < count_list t None"
  using assms
proof (induction t arbitrary: fd)
  case (Cons x t)
  then show ?case by (cases x) (auto simp: free_fd_def)
qed (simp add: free_fd_def)

text \<open>
  The loop at the start of \<^verbatim>\<open>main\<close>: the console is opened until a descriptor above 2 comes, which is
  closed again. An \<^verbatim>\<open>open\<close> fails when the console cannot be opened or no descriptor is free.
\<close>

function open_console :: "bool \<Rightarrow> fdtab \<Rightarrow> fdtab" where
  "open_console ok t =
     (case free_fd t of
        None \<Rightarrow> t
      | Some fd \<Rightarrow> if \<not> ok \<or> fd \<ge> 3 then t else open_console ok (t[fd := Some Console]))"
  by pat_completeness auto
termination by (relation "measure (\<lambda>(ok, t). count_list t None)") (auto simp: free_fd_fill)

declare open_console.simps [simp del]

subsection \<open>What a command means\<close>

primrec wired :: "(byte list \<Rightarrow> int \<Rightarrow> bool) \<Rightarrow> byte list cmd \<Rightarrow> fdtab \<Rightarrow> nat \<Rightarrow> (byte list list \<times> fdtab) list \<times> nat" where
  "wired ok (EXEC as) t n = (if as = [] then [] else [(as, t)], n)"
| "wired ok (REDIR c f mode fd) t n =
     (if ok f mode then wired ok c (t[nat fd := Some (FileRes f mode)]) n else ([], n))"
| "wired ok (LIST c d) t n =
     (case wired ok c t n of (es, n) \<Rightarrow> case wired ok d t n of (es', n) \<Rightarrow> (es @ es', n))"
| "wired ok (PIPE c d) t n =
     (case wired ok c (t[1 := Some (PipeW n)]) (Suc n) of (es, n') \<Rightarrow>
      case wired ok d (t[0 := Some (PipeR n)]) n' of (es', n'') \<Rightarrow> (es @ es', n''))"
| "wired ok (BACK c) t n = wired ok c t n"

primrec redir_fds :: "'p cmd \<Rightarrow> bool" where
  "redir_fds (EXEC as) \<longleftrightarrow> True"
| "redir_fds (REDIR c f mode fd) \<longleftrightarrow> fd \<in> {0, 1} \<and> redir_fds c"
| "redir_fds (LIST c d) \<longleftrightarrow> redir_fds c \<and> redir_fds d"
| "redir_fds (PIPE c d) \<longleftrightarrow> redir_fds c \<and> redir_fds d"
| "redir_fds (BACK c) \<longleftrightarrow> redir_fds c"

definition std :: "fdtab \<Rightarrow> bool" where
  "std t \<longleftrightarrow> (\<exists>a b c m. t = Some a # Some b # Some c # None # None # replicate m None)"

lemma std_upd: "std t \<Longrightarrow> fd < 2 \<Longrightarrow> std (t[fd := Some r])"
  by (auto simp: std_def less_2_cases_iff)

lemma open_console_std: "std (open_console True (replicate (Suc (Suc (Suc (Suc (Suc m))))) None))"
proof -
  have "open_console True (replicate (Suc (Suc (Suc (Suc (Suc m))))) None) =
      Some Console # Some Console # Some Console # None # None # replicate m None"
    by (simp add: open_console.simps free_fd_def)
  then show ?thesis unfolding std_def by blast
qed

lemma run_wired:
  assumes "redir_fds c" "std t"
  shows "run ok (runcmd c) t n = wired ok c t n"
  using assms
proof (induction c arbitrary: t n)
  case (REDIR c f mode fd)
  then have fd: "nat fd < 2" by auto
  from REDIR.prems obtain x y z m where t: "t = Some x # Some y # Some z # None # None # replicate m None"
    by (auto simp: std_def)
  have "free_fd (t[nat fd := None]) = Some (nat fd)"
    using fd by (auto simp: t free_fd_def less_2_cases_iff)
  moreover have "t[nat fd := None, nat fd := Some (FileRes f mode)] = t[nat fd := Some (FileRes f mode)]" by simp
  moreover have "std (t[nat fd := Some (FileRes f mode)])" using REDIR.prems fd by (simp add: std_upd)
  ultimately show ?case using REDIR by simp
next
  case (PIPE c d)
  from PIPE.prems obtain x y z m where t: "t = Some x # Some y # Some z # None # None # replicate m None"
    by (auto simp: std_def)
  have "std (t[1 := Some (PipeW n)])" "std (t[0 := Some (PipeR n)])" using PIPE.prems by (simp_all add: std_upd)
  then show ?case
    using PIPE by (simp add: t free_fd_def fork1_def numeral_eq_Suc split: prod.splits)
qed (auto simp: fork1_def split: prod.splits)

lemma wired_std:
  assumes "redir_fds c" "std t"
  shows "\<forall>e\<in>set (fst (wired ok c t n)). std (snd e)"
  using assms
proof (induction c arbitrary: t n)
  case (REDIR c f mode fd)
  then have "nat fd < 2" by auto
  then have "std (t[nat fd := Some (FileRes f mode)])" using REDIR.prems std_upd by blast
  with REDIR show ?case by simp
next
  case (PIPE c d)
  then have "std (t[1 := Some (PipeW n)])" "std (t[0 := Some (PipeR n)])" by (simp_all add: std_upd)
  then have "\<forall>e\<in>set (fst (wired ok c (t[1 := Some (PipeW n)]) (Suc n))). std (snd e)"
    "\<And>n'. \<forall>e\<in>set (fst (wired ok d (t[0 := Some (PipeR n)]) n')). std (snd e)"
    using PIPE.IH PIPE.prems by simp_all
  then show ?case by (simp add: case_prod_beta ball_Un)
next
  case (LIST c d)
  then show ?case by (simp add: case_prod_beta ball_Un)
qed auto

text \<open>Claim C35. The calls of \<^verbatim>\<open>runcmd\<close> wire a command as it is written. Started with the descriptors 0, 1
  and 2 open, it executes the programs of the command with their redirections and, in a pipeline, with the
  pipe as output of the left and input of the right side, and each program has exactly the descriptors 0, 1
  and 2: no end of a pipe is left open anywhere.\<close>

theorem runcmd_wires:
  assumes "redir_fds c" "std t"
  shows "run ok (runcmd c) t n = wired ok c t n \<and> (\<forall>e\<in>set (fst (run ok (runcmd c) t n)). std (snd e))"
  using run_wired [OF assms] wired_std [OF assms] by simp

theorem runcmd_wires_witness:
  "fst (run (\<lambda>_ _. True) (runcmd (PIPE (REDIR (EXEC [[97]]) [105] 0 0) (EXEC [[98]])))
     [Some Console, Some Console, Some Console, None, None, None] 7) =
   [([[97]], [Some (FileRes [105] 0), Some (PipeW 7), Some Console, None, None, None]),
    ([[98]], [Some (PipeR 7), Some Console, Some Console, None, None, None])]"
proof -
  have "std [Some Console, Some Console, Some Console, None, None, None]"
    unfolding std_def by (intro exI [of _ Console] exI [of _ 1]) simp
  from runcmd_wires [OF _ this, of "PIPE (REDIR (EXEC [[97]]) [105] 0 0) (EXEC [[98]])"] show ?thesis by simp
qed

text \<open>A \<^verbatim>\<open>cd\<close> line that ends with the input instead of a newline loses its last letter.\<close>

lemma cd_chops_last_letter: "sh_main [99, 100, 32, 97, 98] = [Chdir [97]]"
  by code_simp

text \<open>The append redirection opens the file like the overwriting one.\<close>

lemma append_overwrites: "redir_of TOK_PLUS f c = redir_of GT f c"
  by (simp add: redir_of_def)

end
