(* ===== verification/Ulib.thy ===== *)
theory Ulib
  imports Strings
begin

text \<open>
  The user library: \<^verbatim>\<open>ulib.c\<close>, \<^verbatim>\<open>printf.c\<close> and the allocator \<^verbatim>\<open>umalloc.c\<close>. The functions work on the byte
  memory of the process. A loop that only a nul can end is a partial function: \<open>None\<close> is a call that
  does not return. \<^verbatim>\<open>printf\<close> gives the bytes it writes.
\<close>

subsection \<open>Strings\<close>

partial_function (option) strcpy :: "mem \<Rightarrow> uint \<Rightarrow> uint \<Rightarrow> mem option" where
  "strcpy m s t = (let c = m t; m = m(s := c) in if c \<noteq> 0 then strcpy m (s + 1) (t + 1) else Some m)"

partial_function (option) strcmp :: "mem \<Rightarrow> uint \<Rightarrow> uint \<Rightarrow> int option" where
  "strcmp m p q =
     (if m p \<noteq> 0 \<and> m p = m q then strcmp m (p + 1) (q + 1) else Some (int (unat (m p)) - int (unat (m q))))"

partial_function (option) u_strlen_loop :: "mem \<Rightarrow> uint \<Rightarrow> uint \<Rightarrow> uint option" where
  "u_strlen_loop m s n = (if m (s + n) \<noteq> 0 then u_strlen_loop m s (n + 1) else Some n)"

definition u_strlen :: "mem \<Rightarrow> uint \<Rightarrow> uint option" where
  "u_strlen m s = u_strlen_loop m s 0"

definition u_memset :: "mem \<Rightarrow> uint \<Rightarrow> byte \<Rightarrow> uint \<Rightarrow> mem" where
  "u_memset m dst c n = stosb m dst c (unat n)"

partial_function (option) strchr :: "mem \<Rightarrow> uint \<Rightarrow> byte \<Rightarrow> uint option" where
  "strchr m s c = (if m s = 0 then Some 0 else if m s = c then Some s else strchr m (s + 1) c)"

text \<open>\<^verbatim>\<open>gets\<close>: the bytes left in the input; \<open>i\<close> bytes are in the buffer.\<close>

function gets_loop :: "mem \<Rightarrow> uint \<Rightarrow> int \<Rightarrow> int \<Rightarrow> byte list \<Rightarrow> mem \<times> int \<times> byte list" where
  "gets_loop m buf i mx inp =
     (if i + 1 < mx then
        (case inp of
           [] \<Rightarrow> (m, i, inp)
         | c # inp' \<Rightarrow>
             let m = m(buf + of_int i := c) in
             if c = 10 \<or> c = 13 then (m, i + 1, inp') else gets_loop m buf (i + 1) mx inp')
      else (m, i, inp))"
  by pat_completeness auto
termination by (relation "measure (\<lambda>(m, buf, i, mx, inp). length inp)") auto

definition u_gets :: "mem \<Rightarrow> uint \<Rightarrow> int \<Rightarrow> byte list \<Rightarrow> mem \<times> byte list" where
  "u_gets m buf mx inp = (case gets_loop m buf 0 mx inp of (m, i, inp) \<Rightarrow> (m(buf + of_int i := 0), inp))"

text \<open>\<^verbatim>\<open>atoi\<close> on the bytes from \<^verbatim>\<open>s\<close> on; the \<^verbatim>\<open>int\<close> wraps.\<close>

fun atoi_loop :: "uint \<Rightarrow> byte list \<Rightarrow> uint" where
  "atoi_loop n [] = n"
| "atoi_loop n (c # s) = (if 48 \<le> c \<and> c \<le> 57 then atoi_loop (n * 10 + ucast c - 48) s else n)"

definition atoi :: "byte list \<Rightarrow> uint" where
  "atoi s = atoi_loop 0 s"

text \<open>The library's \<^verbatim>\<open>memmove\<close> copies upwards only.\<close>

fun u_memmove_loop :: "mem \<Rightarrow> uint \<Rightarrow> uint \<Rightarrow> nat \<Rightarrow> mem" where
  "u_memmove_loop m dst src 0 = m"
| "u_memmove_loop m dst src (Suc n) = u_memmove_loop (m(dst := m src)) (dst + 1) (src + 1) n"

definition u_memmove :: "mem \<Rightarrow> uint \<Rightarrow> uint \<Rightarrow> int \<Rightarrow> mem" where
  "u_memmove m dst src n = u_memmove_loop m dst src (nat n)"

subsection \<open>Printing\<close>

definition digit_char :: "uint \<Rightarrow> byte" where
  "digit_char d = [48, 49, 50, 51, 52, 53, 54, 55, 56, 57, 65, 66, 67, 68, 69, 70] ! unat d"

text \<open>The digits from the last to the first. The two callers have base 10 and 16.\<close>

function print_digits :: "uint \<Rightarrow> uint \<Rightarrow> byte list" where
  "print_digits base x =
     digit_char (x mod base) # (if base > 1 \<and> x div base \<noteq> 0 then print_digits base (x div base) else [])"
  by pat_completeness auto
termination
proof (relation "measure (\<lambda>(base, x). unat x)")
  fix base x :: uint assume "base > 1 \<and> x div base \<noteq> 0"
  then have b: "1 < unat base" "x \<noteq> 0" by (auto simp: word_less_nat_alt)
  then have "unat x div unat base < unat x" by (intro div_less_dividend) (simp_all add: unat_gt_0)
  then show "((base, x div base), base, x) \<in> measure (\<lambda>(base, x). unat x)" by (simp add: unat_div)
qed simp

declare print_digits.simps [simp del]

definition printint :: "uint \<Rightarrow> uint \<Rightarrow> bool \<Rightarrow> byte list" where
  "printint xx base sg =
     (let neg = (sg \<and> sint xx < 0); x = (if neg then - xx else xx)
      in rev (print_digits base x @ (if neg then [45] else [])))"

definition str_from :: "mem \<Rightarrow> uint \<Rightarrow> byte list option" where
  "str_from m a = map_option (\<lambda>n. mem_read m a (unat n)) (u_strlen m a)"

text \<open>\<open>ap\<close> gives the words after the format on the stack; \<open>i\<close> of them are used.\<close>

fun printf_loop :: "mem \<Rightarrow> (nat \<Rightarrow> uint) \<Rightarrow> nat \<Rightarrow> bool \<Rightarrow> byte list \<Rightarrow> byte list option" where
  "printf_loop m ap i pct [] = Some []"
| "printf_loop m ap i pct (c # fmt) =
     (if \<not> pct then
        if c = 37 then printf_loop m ap i True fmt
        else map_option ((#) c) (printf_loop m ap i False fmt)
      else if c = 100 then map_option ((@) (printint (ap i) 10 True)) (printf_loop m ap (Suc i) False fmt)
      else if c = 120 \<or> c = 112 then map_option ((@) (printint (ap i) 16 False)) (printf_loop m ap (Suc i) False fmt)
      else if c = 115 then
        (case (if ap i = 0 then Some [40, 110, 117, 108, 108, 41] else str_from m (ap i)) of
           None \<Rightarrow> None
         | Some s \<Rightarrow> map_option ((@) s) (printf_loop m ap (Suc i) False fmt))
      else if c = 99 then map_option ((#) (ucast (ap i))) (printf_loop m ap (Suc i) False fmt)
      else if c = 37 then map_option ((#) c) (printf_loop m ap i False fmt)
      else map_option ((@) [37, c]) (printf_loop m ap i False fmt))"

definition printf :: "mem \<Rightarrow> byte list \<Rightarrow> (nat \<Rightarrow> uint) \<Rightarrow> byte list option" where
  "printf m fmt ap = printf_loop m ap 0 False (cstr fmt)"

subsection \<open>Decimal numbers\<close>

fun show_nat :: "nat \<Rightarrow> byte list" where
  "show_nat n = (if n < 10 then [of_nat (48 + n)] else show_nat (n div 10) @ [of_nat (48 + n mod 10)])"

declare show_nat.simps [simp del]

definition show_int :: "int \<Rightarrow> byte list" where
  "show_int i = (if i < 0 then 45 # show_nat (nat (- i)) else show_nat (nat i))"

lemma digit_char_nat: "n < 10 \<Longrightarrow> digit_char (of_nat n) = of_nat (48 + n)"
proof -
  assume "n < 10"
  then have "n \<in> {0, 1, 2, 3, 4, 5, 6, 7, 8, 9}" by auto
  then show ?thesis by (auto simp: digit_char_def)
qed

lemma print_digits_show: "rev (print_digits 10 x) = show_nat (unat x)"
proof (induction "unat x" arbitrary: x rule: less_induct)
  case less
  have d: "unat (x div 10) = unat x div 10" by (simp add: unat_div)
  have "unat (x mod 10) = unat x mod 10" by (simp add: unat_mod)
  then have m: "x mod 10 = of_nat (unat x mod 10)" by (simp add: word_unat_eq_iff unsigned_of_nat take_bit_nat_eq_self)
  have c: "digit_char (x mod 10) = of_nat (48 + unat x mod 10)" unfolding m by (rule digit_char_nat) simp
  have z: "x div 10 \<noteq> 0 \<longleftrightarrow> \<not> unat x < 10" by (simp add: d div_eq_0_iff flip: unat_eq_0)
  show ?case
  proof (cases "unat x < 10")
    case True
    then show ?thesis using c z by (subst print_digits.simps, subst show_nat.simps) simp
  next
    case False
    then have "rev (print_digits 10 (x div 10)) = show_nat (unat x div 10)" using less [of "x div 10"] d by simp
    then show ?thesis using c z False by (subst print_digits.simps, subst show_nat.simps) simp
  qed
qed

lemma atoi_digit:
  assumes "k < 10"
  shows "atoi_loop a (of_nat (48 + k) # s) = atoi_loop (a * 10 + of_nat k) s"
proof -
  have "k \<in> {0, 1, 2, 3, 4, 5, 6, 7, 8, 9}" using assms by auto
  then show ?thesis by (auto simp: add.commute [of _ "a * 10"])
qed

lemma atoi_digits: "atoi_loop 0 (show_nat n @ s) = atoi_loop (of_nat n) s"
proof (induction n arbitrary: s rule: show_nat.induct)
  case (1 n)
  show ?case
  proof (cases "n < 10")
    case True
    then have "show_nat n = [of_nat (48 + n)]" by (subst show_nat.simps) simp
    then show ?thesis using atoi_digit [OF True, of 0] by (simp del: atoi_loop.simps of_nat_add)
  next
    case False
    then have e: "show_nat n = show_nat (n div 10) @ [of_nat (48 + n mod 10)]" by (subst show_nat.simps) simp
    have "of_nat (n div 10 * 10 + n mod 10) = (of_nat n :: uint)" by (simp only: div_mult_mod_eq)
    then have n: "of_nat (n div 10) * 10 + of_nat (n mod 10) = (of_nat n :: uint)"
      by (simp only: of_nat_add of_nat_mult of_nat_numeral)
    have "atoi_loop 0 (show_nat n @ s) = atoi_loop (of_nat (n div 10)) (of_nat (48 + n mod 10) # s)"
      unfolding e by (simp only: append_assoc append_Cons append_Nil 1 [OF False])
    also have "\<dots> = atoi_loop (of_nat n) s" by (subst atoi_digit) (simp_all only: n mod_less_divisor zero_less_numeral)
    finally show ?thesis .
  qed
qed

lemma sint_cases: "sint (x :: uint) = (if uint x < 2 ^ 31 then uint x else uint x - 2 ^ 32)"
proof -
  have b: "uint x < 2 ^ 32" "0 \<le> uint x" using uint_lt2p [of x] by simp_all
  have s: "sint x = (uint x + 2 ^ 31) mod 2 ^ 32 - 2 ^ 31"
    by (simp add: sint_uint signed_take_bit_eq_take_bit_shift take_bit_eq_mod)
  show ?thesis
  proof (cases "uint x < 2 ^ 31")
    case True
    then have "(uint x + 2 ^ 31) mod 2 ^ 32 = uint x + 2 ^ 31" using b(2) by (intro mod_pos_pos_trivial) simp_all
    with True s show ?thesis by simp
  next
    case False
    have "(uint x + 2 ^ 31) mod 2 ^ 32 = (uint x - 2 ^ 31 + 2 ^ 32) mod 2 ^ 32" by (simp add: add.commute)
    also have "\<dots> = (uint x - 2 ^ 31) mod 2 ^ 32" by (rule mod_add_self2)
    also have "\<dots> = uint x - 2 ^ 31" using b(1) False by (intro mod_pos_pos_trivial) simp_all
    finally show ?thesis using False s by simp
  qed
qed

lemma uint_uminus: "x \<noteq> 0 \<Longrightarrow> uint (- x :: uint) = 2 ^ 32 - uint x"
proof -
  assume "x \<noteq> 0"
  then have x: "0 < uint x" "uint x < 2 ^ 32" using uint_lt2p [of x] by (simp_all add: word_neq_0_conv word_less_def)
  have "uint (- x) = (- uint x) mod 2 ^ 32" by (simp add: uint_word_ariths)
  also have "\<dots> = (2 ^ 32 - uint x) mod 2 ^ 32" by (metis mod_add_self2 add.commute diff_conv_add_uminus)
  also have "\<dots> = 2 ^ 32 - uint x" using x by (intro mod_pos_pos_trivial) simp_all
  finally show ?thesis .
qed

lemma printint_show: "printint x 10 True = show_int (sint x)"
proof (cases "sint x < 0")
  case True
  then have u: "\<not> uint x < 2 ^ 31" by (auto simp: sint_cases)
  then have "x \<noteq> 0" by auto
  then have "unat (- x) = nat (- sint x)" using u by (simp add: sint_cases uint_uminus flip: nat_uint_eq)
  with True show ?thesis by (simp add: printint_def show_int_def print_digits_show Let_def)
next
  case False
  then have "unat x = nat (sint x)" using uint_lt2p [of x] by (auto simp: sint_cases split: if_splits simp flip: nat_uint_eq)
  with False show ?thesis by (simp add: printint_def show_int_def print_digits_show Let_def)
qed

lemma atoi_show: "0 \<le> sint x \<Longrightarrow> atoi (show_int (sint x)) = x"
proof -
  assume "0 \<le> sint x"
  then have "unat x = nat (sint x)" using uint_lt2p [of x] by (auto simp: sint_cases split: if_splits simp flip: nat_uint_eq)
  moreover have "unat x < 2 ^ 32" by (rule order.strict_trans2 [OF unsigned_less]) simp
  ultimately show ?thesis
    using \<open>0 \<le> sint x\<close> atoi_digits [of "unat x" "[]"] by (simp add: atoi_def show_int_def)
qed

text \<open>Claim C38. \<^verbatim>\<open>printf\<close> with \<^verbatim>\<open>%d\<close> prints the decimal numeral of its argument, the smallest \<^verbatim>\<open>int\<close> included, and
  \<^verbatim>\<open>atoi\<close> reads a printed number that is not negative back.\<close>

theorem printf_decimal:
  "printf m [37, 100] ap = Some (show_int (sint (ap 0))) \<and>
   (0 \<le> sint (ap 0) \<longrightarrow> atoi (show_int (sint (ap 0))) = ap 0)"
  by (simp add: printf_def cstr_def printint_show atoi_show)

theorem printf_decimal_witness:
  "printf (\<lambda>_. 0) [37, 100] (\<lambda>_. 1234) = Some [49, 50, 51, 52] \<and> atoi [49, 50, 51, 52] = 1234"
proof -
  have "show_int (sint (1234 :: uint)) = [49, 50, 51, 52]" by code_simp
  moreover have "0 \<le> sint (1234 :: uint)" by code_simp
  ultimately show ?thesis using printf_decimal [of "\<lambda>_. 0" "\<lambda>_. 1234"] by simp
qed

text \<open>
  Unlike the kernel's, the library's \<^verbatim>\<open>memmove\<close> is not for overlapping blocks: moving two bytes up by one
  repeats the first.
\<close>

lemma u_memmove_overlap:
  "mem_read (u_memmove (\<lambda>a. ucast a) 1 0 2) 1 2 = [0, 0] \<and> mem_read (\<lambda>a. ucast a :: byte) (0 :: uint) 2 = [0, 1]"
  by code_simp

end
