(* ===== verification/Spec2Isabelle.thy ===== *)
theory Spec2Isabelle
  imports Syscall Sysfile Fs_File Jacobi_Net Grep Shell_Line Shell_Run Ulib
begin

text \<open>
  Verification of an xv6 kernel extended with message passing, multicast and signals, and of user programs that
  run on it: the parallel Jacobi solver, the shell, \<^verbatim>\<open>grep\<close> and the user library. All file and function names
  are those under \<^verbatim>\<open>src/\<close>.

  \<^bold>\<open>The program.\<close> Processes enter the kernel through \<^verbatim>\<open>trap\<close>, which dispatches system calls (\<^verbatim>\<open>syscall\<close>) and, on the
  way back to user mode, delivers pending signals (\<^verbatim>\<open>handle_signals\<close>). The process table (\<^verbatim>\<open>proc.c\<close>) holds for each
  process its state, the ring of messages sent to it, the ring of multicast messages and the ring of pending signals.
  \<^verbatim>\<open>sleep\<close> and \<^verbatim>\<open>wakeup\<close> connect a waiting process with the one that makes its condition true. Files are layered:
  system calls on descriptors (\<^verbatim>\<open>sysfile.c\<close>), open files (\<^verbatim>\<open>file.c\<close>) that are pipes (\<^verbatim>\<open>pipe.c\<close>) or inodes, directories and
  inodes (\<^verbatim>\<open>fs.c\<close>), the write-ahead log (\<^verbatim>\<open>log.c\<close>), the buffer cache (\<^verbatim>\<open>bio.c\<close>) and the memory disk (\<^verbatim>\<open>memide.c\<close>). Memory is
  pages from \<^verbatim>\<open>kalloc.c\<close> put into page tables by \<^verbatim>\<open>vm.c\<close>; \<^verbatim>\<open>exec.c\<close> builds a new address space from a file.

  \<^bold>\<open>Conventions.\<close> A kernel function is a function from the state it touches to a result \<open>kres\<close> (theory \<open>Prelude\<close>): it
  returns (\<open>Ok\<close>), panics (\<open>Panic\<close>), gives up the CPU (\<open>Sleep\<close>, with the state at that moment) or spins on a lock that is
  taken (\<open>Spin\<close>). Where a process gives up the CPU, the function is cut: the rest is a definition of its own, named
  \<open>_resume\<close> or \<open>_return\<close>. Pointers into tables are indices. Machine integers are words of their width; where a loop
  variable cannot wrap around, the definition says why. Memory is a function from 32-bit addresses to bytes.

  \<^bold>\<open>Theories.\<close>

  \<^item> \<open>Prelude\<close>, \<open>Ring\<close>: result type, table search, bytes and words; the locale \<open>bounded_fifo\<close> of a ring buffer, which the
    message and the signal queues interpret.

  \<^item> \<open>Spinlock\<close> (\<^verbatim>\<open>spinlock.c\<close>): \<open>acquire\<close>, \<open>release\<close>, \<open>pushcli\<close>, \<open>popcli\<close>; mutual exclusion in every interleaving of the CPUs.

  \<^item> \<open>Proc\<close>, \<open>Proclife\<close> (\<^verbatim>\<open>proc.c\<close>): \<open>sleep\<close>, \<open>wakeup\<close>, \<open>sched\<close>, \<open>yield\<close>; \<open>allocproc\<close>, \<open>userinit\<close>, \<open>fork\<close>, \<open>exit\<close>, \<open>wait\<close>, \<open>kill\<close>, \<open>scheduler\<close>.
    Process identifiers are unique in all reachable states; one pass of the scheduler runs every runnable process; \<open>exit\<close>
    and \<open>wait\<close> meet.

  \<^item> \<open>Ipc\<close> (\<^verbatim>\<open>proc.c\<close>): \<open>send_mess\<close>, \<open>recv_mess\<close>, \<open>send_multicast\<close>, \<open>send_signal\<close>, \<open>pause_signal\<close>. Messages arrive in order with their bytes,
    a blocked receiver is woken by a send; a full ring loses its messages.

  \<^item> \<open>Signal\<close> (\<^verbatim>\<open>proc.c\<close>, \<^verbatim>\<open>sigretcode.S\<close>): \<open>handle_signals\<close> and \<open>ret_signal\<close> on the bytes of the user stack; entering a handler and
    returning from it restores the interrupted trapframe.

  \<^item> \<open>Strings\<close> (\<^verbatim>\<open>string.c\<close>): \<open>memmove\<close> copies overlapping blocks, \<open>memset\<close> with word stores equals the byte loop.

  \<^item> \<open>Syscall\<close> (\<^verbatim>\<open>syscall.c\<close>, \<^verbatim>\<open>sysproc.c\<close>, \<^verbatim>\<open>trap.c\<close>): argument fetching stays inside the process, every call of \<^verbatim>\<open>sysproc.c\<close>, \<open>trap\<close>.

  \<^item> \<open>Pipe\<close> (\<^verbatim>\<open>pipe.c\<close>): bytes come out in the order they went in; no reader or writer sleeps although it could go on.

  \<^item> \<open>Kalloc\<close> (\<^verbatim>\<open>kalloc.c\<close>), \<open>Vm\<close> (\<^verbatim>\<open>vm.c\<close>), \<open>Exec\<close> (\<^verbatim>\<open>exec.c\<close>): the free list implements a pool of pages (locale
    \<open>page_allocator\<close>); page tables and loading a program are definitions.

  \<^item> \<open>Bio\<close> (\<^verbatim>\<open>bio.c\<close>, \<^verbatim>\<open>sleeplock.c\<close>, \<^verbatim>\<open>memide.c\<close>), \<open>Log\<close> (\<^verbatim>\<open>log.c\<close>): the cache is coherent, a commit is atomic across a crash at any
    point between its disk writes.

  \<^item> \<open>Fs\<close>, \<open>Dir\<close> (\<^verbatim>\<open>fs.c\<close>): definitions of blocks, inodes, contents, directories and paths; walking a path looks up its
    components one after the other. \<open>Fs_Tx\<close>, \<open>Fs_Inode\<close>, \<open>Fs_Data\<close> and \<open>Fs_File\<close> prove what they do inside a transaction: the bitmap is a
    set of used blocks, inodes are stored and loaded, \<open>bmap\<close> extends the block map of a file without touching others, and
    \<open>readi\<close> and \<open>writei\<close> read and update the bytes of a file and nothing else.

  \<^item> \<open>File\<close> (\<^verbatim>\<open>file.c\<close>), \<open>Sysfile\<close> (\<^verbatim>\<open>sysfile.c\<close>): open files and the calls on descriptors.

  \<^item> \<open>Network\<close>, \<open>Jacobi\<close>, \<open>Jacobi_Grid\<close>, \<open>Jacobi_Net\<close> (\<^verbatim>\<open>jacob.c\<close>): processes that communicate over pipes are determinate (locale
    \<open>pipe_network\<close>); however parent and children are scheduled, the parallel solver computes the grid of the sequential one.

  \<^item> \<open>Shell\<close>, \<open>Shell_Line\<close>, \<open>Shell_Run\<close> (\<^verbatim>\<open>sh.c\<close>): the parser returns on every line and inverts writing a command; the calls of
    \<open>runcmd\<close> give each program the redirections and pipe ends the command asks for.

  \<^item> \<open>Grep\<close> (\<^verbatim>\<open>grep.c\<close>), \<open>Ulib\<close> (\<^verbatim>\<open>ulib.c\<close>, \<^verbatim>\<open>printf.c\<close>): the matcher against the meaning of patterns; decimal numbers printed
    and read back.

  \<^bold>\<open>Bounds and fuel.\<close> Loops over tables are recursion over the table. Loops with a decreasing quantity have a termination
  proof. The walk through the list of buffers (\<open>scan\<close>) and the string loops of \<open>Ulib\<close>, which nothing bounds, are partial
  functions to \<open>option\<close>; for \<open>scan\<close> the cache invariant gives the result. The mutually recursive parser of the
  shell has fuel; \<open>parse_total\<close> shows that four steps per byte and four more suffice, and \<open>parsecmd\<close> uses that number.

  \<^bold>\<open>Interfaces to other code.\<close> Floating-point operations of the solver, the device table \<^verbatim>\<open>devsw\<close>, the bytes of
  \<^verbatim>\<open>sigretcode.S\<close>, linker addresses and the value of uninitialised local variables are parameters.

  \<^bold>\<open>Not modelled.\<close> Code whose whole effect is on devices and processor registers: the boot loader and entry code, \<^verbatim>\<open>main.c\<close>,
  \<^verbatim>\<open>mp.c\<close>, \<^verbatim>\<open>lapic.c\<close>, \<^verbatim>\<open>ioapic.c\<close>, \<^verbatim>\<open>picirq.c\<close>, \<^verbatim>\<open>uart.c\<close>, \<^verbatim>\<open>kbd.c\<close>, \<^verbatim>\<open>console.c\<close>, \<^verbatim>\<open>ide.c\<close> (the disk driver of the
  model is \<^verbatim>\<open>memide.c\<close>, which has the same interface), \<^verbatim>\<open>swtch.S\<close> (a cut between two definitions), \<^verbatim>\<open>seginit\<close>, \<^verbatim>\<open>tvinit\<close>, \<^verbatim>\<open>idtinit\<close>. The host tool \<^verbatim>\<open>mkfs.c\<close>, the allocator \<^verbatim>\<open>umalloc.c\<close>,
  the remaining small user programs and the test programs. Concurrency inside the file system: the critical sections
  of its spin locks are single steps, and the theorems about a transaction are about one process.
\<close>

end
